(* ===== verification/Prelude.thy ===== *)
theory Prelude
  imports Main "HOL-Library.Word"
begin

text \<open>
  Shared vocabulary of the development: the machine types of usbcan.h, faults as values
  of a sum type, bounded buffers (C arrays) with checked reads and writes, little-endian
  images of machine words, and the list lemmas the components use.

  A C or C++ operation whose behaviour is undefined for some input (an access outside an
  array, a null dereference, a read of an uninitialised pointer) or that leaves by an
  exception is modelled by a fault: the result type is \<open>fault + 'a\<close>, with
  \<open>Inl\<close> for the fault.
\<close>

unbundle bit_operations_syntax

section \<open>Machine types\<close>

type_synonym BYTE = "8 word"
type_synonym UCHAR = "8 word"
type_synonym USHORT = "16 word"
type_synonym DWORD = "32 word"
type_synonym ULONG = "32 word"
type_synonym UINT = "32 word"
type_synonym INT_t = "32 word"
type_synonym uint64 = "64 word"

section \<open>Faults\<close>

datatype fault =
    Read_Overrun      \<comment> \<open>a read outside an array\<close>
  | Write_Overrun     \<comment> \<open>a write outside an array\<close>
  | Null_Deref        \<comment> \<open>a null pointer is dereferenced\<close>
  | Uninit_Pointer    \<comment> \<open>a pointer that was never assigned is dereferenced\<close>
  | Uninit_Value      \<comment> \<open>a variable that was never assigned is read\<close>
  | Div_Zero          \<comment> \<open>an integer is divided by zero\<close>
  | Overflow          \<comment> \<open>a signed integer overflows\<close>
  | Exception         \<comment> \<open>a C++ exception leaves the operation\<close>
  | Abort             \<comment> \<open>a CHECK fails and the process is aborted\<close>

type_synonym 'a res = "fault + 'a"

fun and_then :: "'a res \<Rightarrow> ('a \<Rightarrow> 'b res) \<Rightarrow> 'b res" where
  "and_then (Inl e) f = Inl e"
| "and_then (Inr x) f = f x"

lemma and_then_Inr_iff: "and_then m f = Inr y \<longleftrightarrow> (\<exists>x. m = Inr x \<and> f x = Inr y)"
  by (cases m) auto

lemma and_then_Inl_iff: "and_then m f = Inl e \<longleftrightarrow> m = Inl e \<or> (\<exists>x. m = Inr x \<and> f x = Inl e)"
  by (cases m) auto

lemma and_then_assoc: "and_then (and_then m f) g = and_then m (\<lambda>x. and_then (f x) g)"
  by (cases m) simp_all

section \<open>Buffers\<close>

text \<open>
  A C array is a list of fixed length. \<open>store\<close> writes a run of elements at an offset and
  faults when the run does not fit; \<open>fetch\<close> reads one element.
\<close>

definition store :: "'a list \<Rightarrow> nat \<Rightarrow> 'a list \<Rightarrow> 'a list res" where
  "store buf i vs =
     (if i + length vs \<le> length buf
      then Inr (take i buf @ vs @ drop (i + length vs) buf) else Inl Write_Overrun)"

definition fetch :: "'a list \<Rightarrow> nat \<Rightarrow> 'a res" where
  "fetch buf i = (if i < length buf then Inr (buf ! i) else Inl Read_Overrun)"

lemma store_Nil [simp]: "i \<le> length buf \<Longrightarrow> store buf i [] = Inr buf"
  by (simp add: store_def)

lemma store_length: "store buf i vs = Inr buf' \<Longrightarrow> length buf' = length buf"
  by (auto simp: store_def split: if_splits)

lemma store_fits: "i + length vs \<le> length buf \<Longrightarrow>
    store buf i vs = Inr (take i buf @ vs @ drop (i + length vs) buf)"
  by (simp add: store_def)

lemma store_overrun: "length buf < i + length vs \<Longrightarrow> store buf i vs = Inl Write_Overrun"
  by (simp add: store_def)

lemma store_ok_iff: "(\<exists>b. store buf i vs = Inr b) \<longleftrightarrow> i + length vs \<le> length buf"
  by (simp add: store_def)

text \<open>Two adjacent writes are one write.\<close>

lemma store_append:
  "and_then (store buf i vs) (\<lambda>b. store b (i + length vs) ws) = store buf i (vs @ ws)"
proof (cases "i + length (vs @ ws) \<le> length buf")
  case True
  then have "length (take i buf) = i" by simp
  with True show ?thesis by (simp add: store_def add.assoc add.commute add.left_commute)
next
  case False
  then show ?thesis by (auto simp: store_def)
qed

lemma store_take: "store buf i vs = Inr b \<Longrightarrow> take i b = take i buf"
  by (auto simp: store_def min_def split: if_splits)

lemma store_slice:
  "store buf i vs = Inr b \<Longrightarrow> take (length vs) (drop i b) = vs"
proof -
  assume *: "store buf i vs = Inr b"
  then have "i + length vs \<le> length buf" "b = take i buf @ vs @ drop (i + length vs) buf"
    by (auto simp: store_def split: if_splits)
  moreover from this(1) have "length (take i buf) = i" by simp
  ultimately show ?thesis by simp
qed

lemma store_drop:
  "store buf i vs = Inr b \<Longrightarrow> drop (i + length vs) b = drop (i + length vs) buf"
proof -
  assume *: "store buf i vs = Inr b"
  then have "i + length vs \<le> length buf" "b = take i buf @ vs @ drop (i + length vs) buf"
    by (auto simp: store_def split: if_splits)
  moreover from this(1) have "length (take i buf) = i" by simp
  ultimately show ?thesis by simp
qed

lemma fetch_ok [simp]: "i < length buf \<Longrightarrow> fetch buf i = Inr (buf ! i)"
  by (simp add: fetch_def)

lemma fetch_overrun [simp]: "length buf \<le> i \<Longrightarrow> fetch buf i = Inl Read_Overrun"
  by (simp add: fetch_def)

section \<open>Strings\<close>

abbreviation NUL :: char where "NUL \<equiv> CHR 0x00"
abbreviation LF :: char where "LF \<equiv> CHR 0x0A"

text \<open>\<open>strlen\<close> and the C string that starts a buffer: the characters before the first NUL.\<close>

definition cstr :: "string \<Rightarrow> string" where
  "cstr s = takeWhile (\<lambda>c. c \<noteq> NUL) s"

definition strlen :: "string \<Rightarrow> nat" where
  "strlen s = length (cstr s)"

lemma cstr_id: "NUL \<notin> set s \<Longrightarrow> cstr s = s"
  by (auto simp: cstr_def)

lemma cstr_append_NUL: "NUL \<notin> set s \<Longrightarrow> cstr (s @ NUL # t) = s"
  unfolding cstr_def by (subst takeWhile_append2) auto

lemma NUL_notin_cstr [simp]: "NUL \<notin> set (cstr s)"
  by (auto simp: cstr_def dest: set_takeWhileD)

text \<open>Splitting at the first line feed, as \<open>std::find (begin, end, '\n')\<close> does.\<close>

definition find_lf :: "string \<Rightarrow> nat option" where
  "find_lf s = (let pos = length (takeWhile (\<lambda>c. c \<noteq> LF) s)
                in if pos < length s then Some pos else None)"

lemma find_lf_line:
  assumes "LF \<notin> set l"
  shows "find_lf (l @ LF # r) = Some (length l)"
proof -
  have "takeWhile (\<lambda>c. c \<noteq> LF) (l @ LF # r) = l"
    using assms by (subst takeWhile_append2) auto
  then show ?thesis by (simp add: find_lf_def)
qed

lemma find_lf_None_iff: "find_lf s = None \<longleftrightarrow> LF \<notin> set s"
proof -
  have "length (takeWhile (\<lambda>c. c \<noteq> LF) s) < length s \<longleftrightarrow> LF \<in> set s"
    by (induction s) auto
  then show ?thesis by (simp add: find_lf_def Let_def)
qed

lemma find_lf_SomeD:
  assumes "find_lf s = Some p"
  shows "p < length s" "s ! p = LF" "LF \<notin> set (take p s)" "s = take p s @ LF # drop (Suc p) s"
proof -
  have p: "p = length (takeWhile (\<lambda>c. c \<noteq> LF) s)" and lt: "p < length s"
    using assms by (auto simp: find_lf_def Let_def split: if_splits)
  show "p < length s" by (rule lt)
  have "\<not> (\<lambda>c. c \<noteq> LF) (s ! length (takeWhile (\<lambda>c. c \<noteq> LF) s))"
    by (rule nth_length_takeWhile) (use p lt in simp)
  then show nth: "s ! p = LF" by (simp add: p)
  have "take p s = takeWhile (\<lambda>c. c \<noteq> LF) s" unfolding p by (rule takeWhile_eq_take [symmetric])
  then show "LF \<notin> set (take p s)" by (auto dest: set_takeWhileD)
  show "s = take p s @ LF # drop (Suc p) s" using id_take_nth_drop [OF lt] unfolding nth .
qed

section \<open>Association lists\<close>

lemma map_of_rev_distinct: "distinct (map fst xs) \<Longrightarrow> map_of (rev xs) = map_of xs"
proof (induction xs)
  case (Cons e xs)
  then have "map_of xs (fst e) = None" by (simp add: map_of_eq_None_iff)
  with Cons show ?case by (cases e) (auto simp: fun_eq_iff map_add_def split: option.split)
qed simp

section \<open>Little-endian images of machine words\<close>

definition le_bytes :: "nat \<Rightarrow> 'a::len word \<Rightarrow> BYTE list" where
  "le_bytes n w = map (\<lambda>i. ucast (drop_bit (8 * i) w)) [0..<n]"

primrec le_word :: "BYTE list \<Rightarrow> 'a::len word" where
  "le_word [] = 0"
| "le_word (b # bs) = ucast b OR push_bit 8 (le_word bs)"

lemma length_le_bytes [simp]: "length (le_bytes n w) = n"
  by (simp add: le_bytes_def)

lemma bit_le_word:
  "bit (le_word bs :: 'a::len word) k \<longleftrightarrow>
     k < LENGTH('a) \<and> k < 8 * length bs \<and> bit (bs ! (k div 8)) (k mod 8)"
proof (induction bs arbitrary: k)
  case Nil
  then show ?case by simp
next
  case (Cons b bs)
  show ?case
  proof (cases "k < 8")
    case True
    then show ?thesis
      by (auto simp: bit_or_iff bit_push_bit_iff bit_ucast_iff)
  next
    case False
    then obtain j where j: "k = j + 8" by (metis add.commute le_Suc_ex not_less)
    have "\<not> bit b k" using False by (auto dest: bit_imp_le_length)
    moreover have "(b # bs) ! (k div 8) = bs ! (j div 8)" by (simp add: j div_add_self2)
    ultimately show ?thesis
      using Cons.IH [of j] by (auto simp: j bit_or_iff bit_push_bit_iff bit_ucast_iff simp del: nth_Cons_Suc)
  qed
qed

lemma le_word_le_bytes [simp]:
  assumes "LENGTH('a) = 8 * n"
  shows "le_word (le_bytes n (w :: 'a::len word)) = w"
proof (rule bit_word_eqI)
  fix k
  assume k: "k < LENGTH('a)"
  then have "k div 8 < n" using assms by auto
  moreover have "8 * (k div 8) + k mod 8 = k" by simp
  ultimately show "bit (le_word (le_bytes n w) :: 'a word) k = bit w k"
    using k assms by (simp add: bit_le_word le_bytes_def bit_ucast_iff bit_drop_bit_eq)
qed

lemma le_bytes_le_word:
  assumes "length bs = n" and "8 * n \<le> LENGTH('a)"
  shows "le_bytes n (le_word bs :: 'a::len word) = bs"
proof (rule nth_equalityI)
  show "length (le_bytes n (le_word bs :: 'a word)) = length bs" using assms(1) by simp
next
  fix i
  assume "i < length (le_bytes n (le_word bs :: 'a word))"
  then have i: "i < n" by simp
  show "le_bytes n (le_word bs :: 'a word) ! i = bs ! i"
  proof (rule bit_word_eqI)
    fix k
    assume k: "k < LENGTH(8)"
    then have k8: "k < 8" by simp
    then have "(8 * i + k) div 8 = i" "(8 * i + k) mod 8 = k" by auto
    moreover have "8 * i + k < 8 * n" using i k8 by auto
    ultimately show "bit (le_bytes n (le_word bs :: 'a word) ! i) k = bit (bs ! i) k"
      using i k8 assms by (simp add: le_bytes_def bit_ucast_iff bit_drop_bit_eq bit_le_word)
  qed
qed

section \<open>Collections of simplification rules\<close>

named_theorems bytes_simps \<open>object representations and their lengths\<close>
named_theorems wire_simps \<open>lengths and contents of protocol lines\<close>

end
