(* ===== verification/Ini.thy ===== *)
theory Ini
  imports Prelude
begin

text \<open>
  libControlCAN/inc/ini.h, the INI reader of the library (instantiated as \<open>Ini<>\<close>, with
  strings for sections, keys and values). The key tables are objects on a heap: the
  section table holds pointers to them and the cursor \<open>current\<close> aliases one of them, so
  the model keeps an explicit store. \<open>std::unordered_map\<close> tables are maps; where the code
  iterates over a table, the iteration order is an argument.

  Parsing reads lines into a buffer of FINI_BUFFER_SIZE characters. A longer line puts
  the stream into a failed state without reaching the end of the file, and the loop
  \<open>while (!file.eof())\<close> then never ends: the loop is a \<open>partial_function\<close> whose
  value \<open>None\<close> is "does not return".
\<close>

section \<open>State\<close>

type_synonym keys = "string \<rightharpoonup> string"

datatype ptr = Uninit | Null | Addr nat

datatype source_e = source_file string | source_memory

record ini =
  ini_heap :: "nat \<Rightarrow> keys"
  ini_next :: nat
  ini_current :: ptr
  ini_sections :: "string \<rightharpoonup> nat"
  ini_source :: source_e

definition FINI_BUFFER_SIZE :: nat where "FINI_BUFFER_SIZE = 256"

text \<open>The constructor's state before parsing: \<open>current\<close> is not initialised.\<close>

definition new_ini :: "source_e \<Rightarrow> ini" where
  "new_ini src = \<lparr>ini_heap = (\<lambda>_. Map.empty), ini_next = 0, ini_current = Uninit,
     ini_sections = Map.empty, ini_source = src\<rparr>"

text \<open>\<open>new keys_t\<close>.\<close>

definition new_keys :: "ini \<Rightarrow> keys \<Rightarrow> ini \<times> nat" where
  "new_keys i m = (i\<lparr>ini_heap := (ini_heap i)(ini_next i := m), ini_next := Suc (ini_next i)\<rparr>, ini_next i)"

section \<open>Access\<close>

definition ini_subscript :: "ini \<Rightarrow> string \<Rightarrow> ini \<times> nat" where
  "ini_subscript i section =
     (case ini_sections i section of
        Some a \<Rightarrow> (i, a)
      | None \<Rightarrow> (let (i', a) = new_keys i Map.empty
                in (i'\<lparr>ini_sections := (ini_sections i')(section \<mapsto> a)\<rparr>, a)))"

definition ini_select :: "ini \<Rightarrow> string \<Rightarrow> ini \<times> bool" where
  "ini_select i section =
     (case ini_sections i section of
        None \<Rightarrow> (i, False)
      | Some a \<Rightarrow> (i\<lparr>ini_current := Addr a\<rparr>, True))"

definition ini_create :: "ini \<Rightarrow> string \<Rightarrow> ini \<times> bool" where
  "ini_create i section =
     (let (i1, found) = ini_select i section in
      if found then (i1, False)
      else let (i2, a) = new_keys i1 Map.empty
           in (i2\<lparr>ini_current := Addr a, ini_sections := (ini_sections i2)(section \<mapsto> a)\<rparr>, True))"

text \<open>Dereferencing \<open>current\<close>.\<close>

fun deref :: "ptr \<Rightarrow> nat res" where
  "deref Uninit = Inl Uninit_Pointer"
| "deref Null = Inl Null_Deref"
| "deref (Addr a) = Inr a"

text \<open>\<open>(*current)[key] = value\<close>.\<close>

definition assign :: "ini \<Rightarrow> string \<Rightarrow> string \<Rightarrow> ini res" where
  "assign i key v =
     and_then (deref (ini_current i)) (\<lambda>a.
     Inr (i\<lparr>ini_heap := (ini_heap i)(a := (ini_heap i a)(key \<mapsto> v))\<rparr>))"

definition set_key :: "ini \<Rightarrow> string \<Rightarrow> string \<Rightarrow> (ini \<times> bool) res" where
  "set_key i key v =
     (if ini_current i = Null then Inr (i, False)
      else and_then (assign i key v) (\<lambda>i'. Inr (i', True)))"

text \<open>\<open>get\<close> dereferences \<open>current\<close> before it compares it with the null pointer.\<close>

definition get_key :: "ini \<Rightarrow> string \<Rightarrow> string \<Rightarrow> string res" where
  "get_key i key def =
     and_then (deref (ini_current i)) (\<lambda>a.
     case ini_heap i a key of None \<Rightarrow> Inr def | Some v \<Rightarrow> Inr v)"

definition get_section_key :: "ini \<Rightarrow> string \<Rightarrow> string \<Rightarrow> string \<Rightarrow> (ini \<times> string) res" where
  "get_section_key i section key def =
     (let (i', found) = ini_select i section in
      if \<not> found then Inr (i', def)
      else and_then (get_key i' key def) (\<lambda>v. Inr (i', v)))"

text \<open>\<open>ini[section][key]\<close>: both subscripts create what is missing.\<close>

definition lookup2 :: "ini \<Rightarrow> string \<Rightarrow> string \<Rightarrow> ini \<times> string" where
  "lookup2 i section key =
     (let (i1, a) = ini_subscript i section in
      case ini_heap i1 a key of
        Some v \<Rightarrow> (i1, v)
      | None \<Rightarrow> (i1\<lparr>ini_heap := (ini_heap i1)(a := (ini_heap i1 a)(key \<mapsto> []))\<rparr>, []))"

text \<open>\<open>clear\<close> deletes every table and the section table.\<close>

definition ini_clear :: "ini \<Rightarrow> ini" where
  "ini_clear i = i\<lparr>ini_current := Null, ini_sections := Map.empty\<rparr>"

section \<open>Parsing\<close>

record istream =
  ist_rest :: string
  ist_eof :: bool
  ist_fail :: bool

definition open_text :: "string \<Rightarrow> istream" where
  "open_text s = \<lparr>ist_rest = s, ist_eof = False, ist_fail = False\<rparr>"

text \<open>
  \<open>istream::getline(line, n)\<close>: up to \<open>n - 1\<close> characters; the end of the input, then the
  delimiter, then the full buffer end the extraction, and a full buffer (or nothing
  extracted) sets \<open>failbit\<close>. A stream that is not good yields an empty line.
\<close>

definition getline :: "nat \<Rightarrow> istream \<Rightarrow> string \<times> istream" where
  "getline n st =
     (if ist_eof st \<or> ist_fail st then ([], st\<lparr>ist_fail := True\<rparr>)
      else
        let l = takeWhile (\<lambda>c. c \<noteq> LF) (ist_rest st); r = drop (length l) (ist_rest st) in
        if length l \<le> n - 1 then
          (case r of
             [] \<Rightarrow> (l, \<lparr>ist_rest = [], ist_eof = True, ist_fail = (l = [])\<rparr>)
           | _ # r' \<Rightarrow> (l, \<lparr>ist_rest = r', ist_eof = False, ist_fail = False\<rparr>))
        else (take (n - 1) l, \<lparr>ist_rest = drop (n - 1) (ist_rest st), ist_eof = False, ist_fail = True\<rparr>))"

definition isspace :: "char \<Rightarrow> bool" where
  "isspace c \<longleftrightarrow> c \<in> {CHR '' '', CHR 0x09, CHR 0x0A, CHR 0x0B, CHR 0x0C, CHR 0x0D}"

text \<open>\<open>while (isspace(line[length + 1])) --length\<close>, on the index \<open>length + 1\<close>.\<close>

fun trim_index :: "string \<Rightarrow> nat \<Rightarrow> nat" where
  "trim_index line 0 = 0"
| "trim_index line (Suc n) = (if isspace (line ! Suc n) then trim_index line n else Suc n)"

text \<open>
  A section line. With index 0 the unsigned \<open>length\<close> has wrapped round to its maximum and
  \<open>strncpy\<close> writes past the empty allocation.
\<close>

definition parse_section :: "ini \<Rightarrow> string \<Rightarrow> ini res" where
  "parse_section i line =
     (let idx = trim_index line (length line - 1) in
      if idx = 0 then Inl Write_Overrun
      else let ssection = take (idx - 1) (drop 1 line); (i1, a) = new_keys i Map.empty
           in Inr (i1\<lparr>ini_current := Addr a, ini_sections := (ini_sections i1)(ssection \<mapsto> a)\<rparr>))"

text \<open>\<open>strtok(line, "=")\<close> and the following \<open>strtok(NULL, "\n")\<close>.\<close>

definition strtok_key :: "string \<Rightarrow> string option \<times> string option" where
  "strtok_key line =
     (let s = dropWhile (\<lambda>c. c = CHR ''='') line;
          k = takeWhile (\<lambda>c. c \<noteq> CHR ''='') s;
          v = dropWhile (\<lambda>c. c = LF) (drop (Suc (length k)) s)
      in (if s = [] then (None, None)
          else (Some k, if v = [] then None else Some (takeWhile (\<lambda>c. c \<noteq> LF) v))))"

text \<open>
  Leading white space of a key is removed by copying the tail of the string to its front
  with \<open>strncpy\<close>, which does not write a terminator.
\<close>

definition strip_key :: "string \<Rightarrow> string" where
  "strip_key skey =
     (let index = length (takeWhile isspace skey)
      in if index \<noteq> 0 then drop index skey @ drop (length skey - index) skey else skey)"

definition parse_key :: "ini \<Rightarrow> string \<Rightarrow> ini res" where
  "parse_key i line =
     (case strtok_key line of
        (None, _) \<Rightarrow> Inl Null_Deref
      | (Some skey, None) \<Rightarrow> Inr i
      | (Some skey, Some svalue) \<Rightarrow>
          if svalue \<noteq> [] then assign i (strip_key skey) svalue else Inr i)"

definition is_comment :: "string \<Rightarrow> bool" where
  "is_comment line \<longleftrightarrow>
     (length line \<ge> 2 \<and> line ! 0 = CHR ''/'' \<and> line ! 1 = CHR ''/'')
   \<or> (length line \<ge> 1 \<and> line ! 0 = CHR ''#'')"

definition parse_line :: "ini \<Rightarrow> string \<Rightarrow> ini res" where
  "parse_line i raw =
     (let line = cstr raw in
      if line = [] then Inr i
      else if is_comment line then Inr i
      else if line ! 0 = CHR ''['' then parse_section i line
      else parse_key i line)"

text \<open>
  The byte order mark test compares a \<open>char\<close> with 0xEF, which can only hold where
  \<open>char\<close> is unsigned; the loop then returns without parsing anything.
\<close>

definition is_bom :: "bool \<Rightarrow> string \<Rightarrow> bool" where
  "is_bom char_unsigned line \<longleftrightarrow> char_unsigned \<and> line \<noteq> [] \<and> line ! 0 = CHR 0xEF"

partial_function (option) parse_loop :: "bool \<Rightarrow> istream \<Rightarrow> bool \<Rightarrow> ini \<Rightarrow> ini res option" where
  "parse_loop char_unsigned st first i =
     (if ist_eof st then Some (Inr i)
      else
        let (line, st') = getline FINI_BUFFER_SIZE st in
        if first \<and> is_bom char_unsigned line then Some (Inr i)
        else case parse_line i line of
               Inl e \<Rightarrow> Some (Inl e)
             | Inr i' \<Rightarrow> parse_loop char_unsigned st' False i')"

definition parse_stream :: "bool \<Rightarrow> ini \<Rightarrow> string \<Rightarrow> ini res option" where
  "parse_stream char_unsigned i text = parse_loop char_unsigned (open_text text) True i"

text \<open>\<open>parse()\<close>: the file may not open; \<open>content\<close> is its text if it does.\<close>

definition parse_source :: "bool \<Rightarrow> string option \<Rightarrow> ini \<Rightarrow> (bool \<times> ini) res option" where
  "parse_source char_unsigned content i =
     (case content of
        None \<Rightarrow> Some (Inr (False, i))
      | Some text \<Rightarrow> map_option (\<lambda>r. and_then r (\<lambda>i'. Inr (True, i'))) (parse_stream char_unsigned i text))"

text \<open>\<open>Ini(filename, doParse)\<close>.\<close>

definition Ini_file :: "bool \<Rightarrow> string \<Rightarrow> string option \<Rightarrow> bool \<Rightarrow> ini res option" where
  "Ini_file char_unsigned filename content doParse =
     (if doParse
      then map_option (\<lambda>r. and_then r (\<lambda>(_, i). Inr i))
             (parse_source char_unsigned content (new_ini (source_file filename)))
      else Some (Inr (new_ini (source_file filename))))"

section \<open>Output\<close>

definition make_section :: "string \<Rightarrow> string" where
  "make_section section = ''['' @ section @ '']'' @ [LF]"

definition make_key_value :: "string \<Rightarrow> string \<Rightarrow> string" where
  "make_key_value key v = key @ ''='' @ v @ [LF]"

definition has_file_association :: "ini \<Rightarrow> string \<Rightarrow> bool" where
  "has_file_association i filename \<longleftrightarrow> \<not> (ini_source i = source_memory \<and> filename = [])"

text \<open>
  \<open>save\<close>: \<open>order\<close> lists the sections with their entries as the iteration over the tables
  meets them; the result is the text written, or \<open>None\<close> where \<open>save\<close> returns false.
\<close>

type_synonym table_order = "(string \<times> (string \<times> string) list) list"

definition save_section :: "string \<times> (string \<times> string) list \<Rightarrow> string" where
  "save_section e =
     (if snd e = [] then []
      else cstr (make_section (fst e)) @ concat (map (\<lambda>(k, v). cstr (make_key_value k v)) (snd e)))"

definition save_text :: "table_order \<Rightarrow> string" where
  "save_text order = concat (map save_section order)"

definition ini_save :: "table_order \<Rightarrow> ini \<Rightarrow> string \<Rightarrow> bool \<Rightarrow> string option" where
  "ini_save order i filename opens =
     (if \<not> has_file_association i filename then None
      else if \<not> opens then None
      else Some (save_text order))"

text \<open>\<open>operator<<\<close> prints every section, the empty ones too.\<close>

definition print_ini :: "table_order \<Rightarrow> string" where
  "print_ini order =
     concat (map (\<lambda>(s, kvs). ''['' @ s @ '']'' @ [LF]
       @ concat (map (\<lambda>(k, v). ''  '' @ k @ ''='' @ v @ [LF]) kvs)) order)"

section \<open>Merging\<close>

definition merge_key :: "bool \<Rightarrow> nat \<Rightarrow> ini \<Rightarrow> string \<Rightarrow> string \<Rightarrow> ini" where
  "merge_key retain a i k v =
     (case ini_heap i a k of
        None \<Rightarrow> i\<lparr>ini_heap := (ini_heap i)(a := (ini_heap i a)(k \<mapsto> v))\<rparr>
      | Some _ \<Rightarrow> (if \<not> retain then i\<lparr>ini_heap := (ini_heap i)(a := (ini_heap i a)(k \<mapsto> v))\<rparr> else i))"

fun merge_keys :: "bool \<Rightarrow> nat \<Rightarrow> ini \<Rightarrow> (string \<times> string) list \<Rightarrow> ini" where
  "merge_keys retain a i [] = i"
| "merge_keys retain a i ((k, v) # kvs) = merge_keys retain a (merge_key retain a i k v) kvs"

fun ini_merge :: "bool \<Rightarrow> ini \<Rightarrow> table_order \<Rightarrow> ini" where
  "ini_merge retain i [] = i"
| "ini_merge retain i ((s, kvs) # other) =
     (case ini_sections i s of
        None \<Rightarrow> (let (i', a) = new_keys i (map_of kvs)
                in ini_merge retain (i'\<lparr>ini_sections := (ini_sections i')(s \<mapsto> a)\<rparr>) other)
      | Some a \<Rightarrow> ini_merge retain (merge_keys retain a (i\<lparr>ini_current := Addr a\<rparr>) kvs) other)"

section \<open>Views and well-formedness\<close>

text \<open>What a reader of the object sees: the key table of each section.\<close>

definition ini_view :: "ini \<Rightarrow> string \<Rightarrow> keys option" where
  "ini_view i s = map_option (ini_heap i) (ini_sections i s)"

text \<open>
  Distinct sections have distinct tables, and every pointer in use was allocated. The
  cursor is one of them, null, or not yet set.
\<close>

definition wf_ini :: "ini \<Rightarrow> bool" where
  "wf_ini i \<longleftrightarrow> inj_on (ini_sections i) (dom (ini_sections i))
     \<and> (\<forall>a \<in> ran (ini_sections i). a < ini_next i)
     \<and> (\<forall>a. ini_current i = Addr a \<longrightarrow> a < ini_next i)"

text \<open>The lines of a text, as repeated \<open>getline\<close> calls deliver them.\<close>

fun lines_from :: "string \<Rightarrow> string \<Rightarrow> string list" where
  "lines_from acc [] = [rev acc]"
| "lines_from acc (c # s) = (if c = LF then rev acc # lines_from [] s else lines_from (c # acc) s)"

definition lines_of :: "string \<Rightarrow> string list" where
  "lines_of s = lines_from [] s"

fun parse_lines :: "ini \<Rightarrow> string list \<Rightarrow> ini res" where
  "parse_lines i [] = Inr i"
| "parse_lines i (l # ls) = and_then (parse_line i l) (\<lambda>i'. parse_lines i' ls)"

definition short_line :: "string \<Rightarrow> bool" where
  "short_line l \<longleftrightarrow> length l < FINI_BUFFER_SIZE"

section \<open>Well-formedness is kept\<close>

lemma wf_new_ini [simp]: "wf_ini (new_ini src)"
  by (simp add: wf_ini_def new_ini_def)

lemma wf_link_new:
  assumes "wf_ini i"
  shows "wf_ini (i\<lparr>ini_heap := h, ini_next := Suc (ini_next i), ini_current := c,
                    ini_sections := (ini_sections i)(s \<mapsto> ini_next i)\<rparr>)
     \<longleftrightarrow> (\<forall>a. c = Addr a \<longrightarrow> a \<le> ini_next i)"
proof -
  have "\<And>x. ini_sections i x \<noteq> Some (ini_next i)"
    using assms by (auto simp: wf_ini_def ran_def)
  then show ?thesis
    using assms unfolding wf_ini_def
    by (auto simp: inj_on_def ran_def less_Suc_eq less_Suc_eq_le dom_def split: if_splits)
qed

lemma wf_ini_select:
  assumes "wf_ini i"
  shows "wf_ini (fst (ini_select i s))"
  using assms by (auto simp: ini_select_def wf_ini_def ran_def split: option.splits)

lemma wf_ini_subscript:
  assumes "wf_ini i"
  shows "wf_ini (fst (ini_subscript i s))"
proof (cases "ini_sections i s")
  case None
  have "\<forall>a. ini_current i = Addr a \<longrightarrow> a \<le> ini_next i"
    using assms by (auto simp: wf_ini_def)
  with wf_link_new [OF assms, where h = "(ini_heap i)(ini_next i := Map.empty)" and c = "ini_current i" and s = s] None
  show ?thesis by (simp add: ini_subscript_def new_keys_def)
next
  case (Some a)
  with assms show ?thesis by (simp add: ini_subscript_def)
qed

lemma wf_ini_create:
  assumes "wf_ini i"
  shows "wf_ini (fst (ini_create i s))"
proof (cases "ini_sections i s")
  case None
  with wf_link_new [OF assms, where h = "(ini_heap i)(ini_next i := Map.empty)" and c = "Addr (ini_next i)" and s = s]
  show ?thesis by (simp add: ini_create_def ini_select_def new_keys_def)
next
  case (Some a)
  with wf_ini_select [OF assms, of s] show ?thesis by (simp add: ini_create_def ini_select_def)
qed

lemma wf_ini_heap_update [simp]: "wf_ini (i\<lparr>ini_heap := h\<rparr>) = wf_ini i"
  by (simp add: wf_ini_def)

lemma wf_assign: "wf_ini i \<Longrightarrow> assign i k v = Inr i' \<Longrightarrow> wf_ini i'"
  by (auto simp: assign_def and_then_Inr_iff)

lemma wf_clear: "wf_ini (ini_clear i)"
  by (simp add: wf_ini_def ini_clear_def)

lemma wf_parse_line:
  assumes "wf_ini i" "parse_line i l = Inr i'"
  shows "wf_ini i'"
proof -
  have sec: "wf_ini i'" if "parse_section i (cstr l) = Inr i'"
    using that wf_link_new [OF assms(1), where h = "(ini_heap i)(ini_next i := Map.empty)" and c = "Addr (ini_next i)"]
    by (auto simp: parse_section_def new_keys_def Let_def split: if_splits)
  have key: "wf_ini i'" if "parse_key i (cstr l) = Inr i'"
    using that assms(1) by (auto simp: parse_key_def split: option.splits prod.splits if_splits dest: wf_assign)
  show ?thesis
    using assms sec key by (auto simp: parse_line_def Let_def split: if_splits)
qed

lemma wf_parse_lines: "wf_ini i \<Longrightarrow> parse_lines i ls = Inr i' \<Longrightarrow> wf_ini i'"
  by (induction ls arbitrary: i) (auto simp: and_then_Inr_iff dest: wf_parse_line)

section \<open>The parsing loop\<close>

lemma open_text_good [simp]: "\<not> ist_eof (open_text s)" "\<not> ist_fail (open_text s)"
  by (simp_all add: open_text_def)

lemma parse_line_empty [simp]: "parse_line i [] = Inr i"
  by (simp add: parse_line_def cstr_def)

lemma lines_from_rev: "LF \<notin> set l \<Longrightarrow>
    lines_from acc (l @ s) = lines_from (rev l @ acc) s"
  by (induction l arbitrary: acc) auto

lemma lines_of_LF: "LF \<notin> set l \<Longrightarrow> lines_of (l @ LF # s) = l # lines_of s"
  by (simp add: lines_of_def lines_from_rev)

lemma lines_of_last: "LF \<notin> set l \<Longrightarrow> lines_of l = [l]"
  using lines_from_rev [of l "[]" "[]"] by (simp add: lines_of_def)

text \<open>Every text is a last line, or a line, a line feed and a shorter text.\<close>

lemma line_cases:
  obtains "LF \<notin> set s"
  | l r where "s = l @ LF # r" "LF \<notin> set l"
  using split_list_first [of LF s] by blast

lemma getline_line:
  assumes "LF \<notin> set l" "short_line l"
  shows "getline FINI_BUFFER_SIZE (open_text (l @ LF # r)) = (l, open_text r)"
proof -
  have "takeWhile (\<lambda>c. c \<noteq> LF) (l @ LF # r) = l" using assms(1) by (subst takeWhile_append2) auto
  with assms(2) show ?thesis
    by (simp add: getline_def open_text_def short_line_def Let_def FINI_BUFFER_SIZE_def)
qed

lemma getline_last:
  assumes "LF \<notin> set l" "short_line l"
  shows "getline FINI_BUFFER_SIZE (open_text l) = (l, \<lparr>ist_rest = [], ist_eof = True, ist_fail = (l = [])\<rparr>)"
proof -
  have tw: "takeWhile (\<lambda>c. c \<noteq> LF) l = l" using assms(1) by auto
  show ?thesis
    using assms(2) by (simp add: tw getline_def open_text_def short_line_def Let_def FINI_BUFFER_SIZE_def)
qed

lemma parse_loop_eof: "ist_eof st \<Longrightarrow> parse_loop uc st f i = Some (Inr i)"
  by (simp add: parse_loop.simps)

text \<open>
  On a text whose lines fit the buffer the loop returns, and its result is the fold of
  the line parser over the lines.
\<close>

lemma parse_loop_lines:
  assumes "list_all short_line (lines_of s)"
    and "first \<Longrightarrow> \<not> is_bom uc s"
  shows "parse_loop uc (open_text s) first i = Some (parse_lines i (lines_of s))"
  using assms
proof (induction s arbitrary: i first rule: length_induct)
  case (1 s)
  show ?case
  proof (cases rule: line_cases [of s])
    case 1
    then have short: "short_line s" and bom: "\<not> (first \<and> is_bom uc s)"
      using "1.prems" by (auto simp: lines_of_last)
    show ?thesis
      using bom
      by (subst parse_loop.simps, cases first)
         (simp_all add: getline_last [OF 1 short] lines_of_last [OF 1] parse_loop_eof split: sum.split)
  next
    case (2 l r)
    have short: "short_line l" and rest: "list_all short_line (lines_of r)"
      using "1.prems"(1) 2 by (simp_all add: lines_of_LF)
    have bom: "\<not> (first \<and> is_bom uc l)"
      using "1.prems"(2) 2 by (cases l) (auto simp: is_bom_def)
    have IH: "parse_loop uc (open_text r) False i' = Some (parse_lines i' (lines_of r))" for i'
      using "1.IH" rest 2 by simp
    show ?thesis
      using bom
      by (subst parse_loop.simps, cases first)
         (simp_all add: 2 getline_line [OF 2(2) short] lines_of_LF IH split: sum.split)
  qed
qed

text \<open>Once the stream has failed without reaching its end, the loop does not return.\<close>

lemma parse_loop_stuck:
  assumes "ist_fail st" "\<not> ist_eof st"
  shows "parse_loop uc st False i = None"
proof -
  have "\<not> (\<not> first \<and> ist_fail st \<and> \<not> ist_eof st)" if "parse_loop uc st first i = Some r" for first i r st
  proof (rule parse_loop.raw_induct [where P = "\<lambda>uc st first i r. \<not> (\<not> first \<and> ist_fail st \<and> \<not> ist_eof st)", OF _ that])
    fix f uc st first i r
    assume IH: "\<And>uc st first i r. f uc st first i = Some r \<Longrightarrow> \<not> (\<not> first \<and> ist_fail st \<and> \<not> ist_eof st)"
      and eq: "(if ist_eof st then Some (Inr i)
        else let (line, st') = getline FINI_BUFFER_SIZE st in
        if first \<and> is_bom uc line then Some (Inr i)
        else case parse_line i line of Inl e \<Rightarrow> Some (Inl e) | Inr i' \<Rightarrow> f uc st' False i') = Some r"
    show "\<not> (\<not> first \<and> ist_fail st \<and> \<not> ist_eof st)"
    proof
      assume st: "\<not> first \<and> ist_fail st \<and> \<not> ist_eof st"
      then have "getline FINI_BUFFER_SIZE st = ([], st\<lparr>ist_fail := True\<rparr>)" by (simp add: getline_def)
      with st eq have "f uc (st\<lparr>ist_fail := True\<rparr>) False i = Some r" by simp
      from IH [OF this] st show False by simp
    qed
  qed
  with assms show ?thesis by (cases "parse_loop uc st False i") auto
qed

definition unlines :: "string list \<Rightarrow> string" where
  "unlines ls = concat (map (\<lambda>l. l @ [LF]) ls)"

lemma unlines_simps [simp]:
  "unlines [] = []" "unlines (l # ls) = l @ LF # unlines ls" "unlines (as @ bs) = unlines as @ unlines bs"
  by (simp_all add: unlines_def)

definition no_lf :: "string \<Rightarrow> bool" where
  "no_lf l \<longleftrightarrow> LF \<notin> set l"

lemma lines_of_unlines: "list_all no_lf ls \<Longrightarrow> lines_of (unlines ls) = ls @ [[]]"
proof (induction ls)
  case Nil
  show ?case using lines_of_last [of "[]"] by simp
next
  case (Cons l ls)
  then show ?case by (simp add: no_lf_def lines_of_LF)
qed

lemma parse_lines_append:
  "parse_lines i (as @ bs) = and_then (parse_lines i as) (\<lambda>i'. parse_lines i' bs)"
proof (induction as arbitrary: i)
  case Nil
  then show ?case by simp
next
  case (Cons a as)
  then show ?case by (cases "parse_line i a") simp_all
qed

text \<open>Complete lines at the front of the input are parsed one by one.\<close>

lemma parse_loop_unlines:
  assumes "list_all no_lf ls" "list_all short_line ls" "parse_lines i ls = Inr i'"
    and "first \<Longrightarrow> \<not> is_bom uc (unlines ls @ s)"
  shows "parse_loop uc (open_text (unlines ls @ s)) first i
       = parse_loop uc (open_text s) (first \<and> ls = []) i'"
  using assms
proof (induction ls arbitrary: i first)
  case Nil
  then show ?case by simp
next
  case (Cons l ls)
  then obtain i1 where i1: "parse_line i l = Inr i1" "parse_lines i1 ls = Inr i'"
    by (auto simp: and_then_Inr_iff)
  have bom: "\<not> (first \<and> is_bom uc l)"
    using Cons.prems(4) by (cases l) (auto simp: is_bom_def)
  have l: "LF \<notin> set l" "short_line l" using Cons.prems by (auto simp: no_lf_def)
  have "parse_loop uc (open_text (l @ LF # (unlines ls @ s))) first i
      = parse_loop uc (open_text (unlines ls @ s)) False i1"
    using bom i1(1)
    by (subst parse_loop.simps, cases first)
       (simp_all add: getline_line [OF l])
  also have "\<dots> = parse_loop uc (open_text s) (False \<and> ls = []) i'"
    using Cons i1(2) by (intro Cons.IH) auto
  finally show ?case by simp
qed

lemma getline_long:
  assumes "LF \<notin> set l" "FINI_BUFFER_SIZE \<le> length l"
  shows "\<exists>st. getline FINI_BUFFER_SIZE (open_text (l @ r)) = (take (FINI_BUFFER_SIZE - 1) l, st)
           \<and> ist_fail st \<and> \<not> ist_eof st"
proof -
  have tw: "takeWhile (\<lambda>c. c \<noteq> LF) (l @ r) = l @ takeWhile (\<lambda>c. c \<noteq> LF) r"
    using assms(1) by (subst takeWhile_append2) auto
  show ?thesis
    using assms(2) by (simp add: tw getline_def open_text_def Let_def FINI_BUFFER_SIZE_def)
qed

lemma parse_loop_long:
  assumes "LF \<notin> set l" "FINI_BUFFER_SIZE \<le> length l"
    and "parse_line i (take (FINI_BUFFER_SIZE - 1) l) = Inr i'" and "first \<Longrightarrow> \<not> is_bom uc l"
  shows "parse_loop uc (open_text (l @ r)) first i = None"
proof -
  obtain st where st: "getline FINI_BUFFER_SIZE (open_text (l @ r)) = (take (FINI_BUFFER_SIZE - 1) l, st)"
    "ist_fail st" "\<not> ist_eof st"
    using getline_long [OF assms(1,2)] by blast
  have "\<not> (first \<and> is_bom uc (take (FINI_BUFFER_SIZE - 1) l))"
    using assms(4) by (auto simp: is_bom_def)
  then show ?thesis
    using st(1) assms(3) parse_loop_stuck [OF st(2,3)]
    by (subst parse_loop.simps, cases first) simp_all
qed

section \<open>Writing and reading back\<close>

definition good_name :: "string \<Rightarrow> bool" where
  "good_name s \<longleftrightarrow> LF \<notin> set s \<and> NUL \<notin> set s \<and> length s + 2 < FINI_BUFFER_SIZE"

text \<open>
  An entry that survives: non-empty key and value without line feeds or NULs, no equals
  sign in the key, and a key that does not start like a comment, a section or white space.
\<close>

definition good_entry :: "string \<times> string \<Rightarrow> bool" where
  "good_entry e \<longleftrightarrow> (case e of (k, v) \<Rightarrow>
     k \<noteq> [] \<and> v \<noteq> [] \<and> LF \<notin> set (k @ v) \<and> NUL \<notin> set (k @ v) \<and> CHR ''='' \<notin> set k
   \<and> \<not> isspace (hd k) \<and> hd k \<noteq> CHR ''['' \<and> hd k \<noteq> CHR ''#'' \<and> take 2 k \<noteq> ''//''
   \<and> length k + 1 + length v < FINI_BUFFER_SIZE)"

definition good_order :: "table_order \<Rightarrow> bool" where
  "good_order order \<longleftrightarrow> distinct (map fst order)
     \<and> (\<forall>(s, kvs) \<in> set order. good_name s \<and> distinct (map fst kvs) \<and> list_all good_entry kvs)"

text \<open>\<open>order\<close> is an iteration order of the tables of \<open>i\<close>.\<close>

definition enumerates :: "table_order \<Rightarrow> ini \<Rightarrow> bool" where
  "enumerates order i \<longleftrightarrow> (\<forall>s. ini_view i s = map_option map_of (map_of order s))"

definition entry_line :: "string \<times> string \<Rightarrow> string" where
  "entry_line e = fst e @ ''='' @ snd e"

definition section_lines :: "string \<times> (string \<times> string) list \<Rightarrow> string list" where
  "section_lines e =
     (if snd e = [] then [] else (''['' @ fst e @ '']'') # map entry_line (snd e))"

lemma save_section_lines:
  assumes "good_name s" "list_all good_entry kvs"
  shows "save_section (s, kvs) = unlines (section_lines (s, kvs))"
proof -
  have "concat (map (\<lambda>(k, v). cstr (make_key_value k v)) kvs) = unlines (map entry_line kvs)"
    using assms(2)
    by (induction kvs) (auto simp: make_key_value_def good_entry_def entry_line_def cstr_id)
  moreover have "cstr (make_section s) = (''['' @ s @ '']'') @ [LF]"
    using assms(1) by (simp add: make_section_def good_name_def cstr_id)
  ultimately show ?thesis by (simp add: save_section_def section_lines_def)
qed

lemma section_lines_ok:
  assumes "good_name s" "list_all good_entry kvs"
  shows "list_all no_lf (section_lines (s, kvs)) \<and> list_all short_line (section_lines (s, kvs))"
proof -
  have "list_all no_lf (map entry_line kvs) \<and> list_all short_line (map entry_line kvs)"
    using assms(2) by (induction kvs) (auto simp: no_lf_def short_line_def good_entry_def entry_line_def)
  with assms(1) show ?thesis
    by (simp add: section_lines_def no_lf_def short_line_def good_name_def)
qed

lemma parse_section_line:
  assumes "good_name s"
  shows "parse_line i (''['' @ s @ '']'') =
     Inr (i\<lparr>ini_heap := (ini_heap i)(ini_next i := Map.empty), ini_next := Suc (ini_next i),
            ini_current := Addr (ini_next i), ini_sections := (ini_sections i)(s \<mapsto> ini_next i)\<rparr>)"
proof -
  let ?l = "''['' @ s @ '']''"
  have c: "cstr ?l = ?l" using assms by (auto simp: good_name_def intro!: cstr_id)
  have "?l ! Suc (length s) = CHR '']''" by (simp add: nth_append)
  then have t: "trim_index ?l (Suc (length s)) = Suc (length s)" by (simp add: isspace_def)
  have "parse_line i ?l = parse_section i ?l"
    by (simp only: parse_line_def c Let_def) (simp add: is_comment_def)
  also have "\<dots> = Inr (i\<lparr>ini_heap := (ini_heap i)(ini_next i := Map.empty), ini_next := Suc (ini_next i),
            ini_current := Addr (ini_next i), ini_sections := (ini_sections i)(s \<mapsto> ini_next i)\<rparr>)"
    using t by (simp add: parse_section_def Let_def new_keys_def)
  finally show ?thesis .
qed

lemma parse_entry_line:
  assumes "good_entry (k, v)"
  shows "parse_line i (entry_line (k, v)) = assign i k v"
proof -
  let ?l = "k @ CHR ''='' # v"
  have g: "k \<noteq> []" "v \<noteq> []" "NUL \<notin> set ?l" "LF \<notin> set v" "CHR ''='' \<notin> set k" "\<not> isspace (hd k)"
    "hd k \<noteq> CHR ''[''" "hd k \<noteq> CHR ''#''" "take 2 k \<noteq> ''//''"
    using assms by (auto simp: good_entry_def)
  obtain c k' where k: "k = c # k'" using g(1) by (cases k) auto
  have cs: "cstr ?l = ?l" using g(3) by (rule cstr_id)
  have com: "\<not> is_comment ?l"
    using g(8,9) by (cases k') (auto simp: k is_comment_def numeral_2_eq_2)
  have dw: "dropWhile (\<lambda>c. c = CHR ''='') ?l = ?l" using g(5) by (auto simp: k)
  have tw: "takeWhile (\<lambda>c. c \<noteq> CHR ''='') ?l = k" using g(5) by (subst takeWhile_append2) auto
  have dv: "dropWhile (\<lambda>c. c = LF) v = v" using g(2,4) by (cases v) auto
  have tv: "takeWhile (\<lambda>c. c \<noteq> LF) v = v" using g(4) by auto
  have tok: "strtok_key ?l = (Some k, Some v)"
    using g(1,2) by (simp add: strtok_key_def Let_def dw tw dv tv)
  have strip: "strip_key k = k" using g(6) by (simp add: strip_key_def k)
  have "parse_line i ?l = parse_key i ?l"
    using com g(1,7) by (simp only: parse_line_def cs Let_def) (simp add: k)
  then show ?thesis using tok strip g(2) by (simp add: parse_key_def entry_line_def)
qed

lemma parse_entry_lines:
  "list_all good_entry kvs \<Longrightarrow> ini_current i = Addr a \<Longrightarrow>
   parse_lines i (map entry_line kvs) = Inr (i\<lparr>ini_heap := (ini_heap i)(a := ini_heap i a ++ map_of (rev kvs))\<rparr>)"
proof (induction kvs arbitrary: i)
  case Nil
  then show ?case by (simp add: fun_upd_idem)
next
  case (Cons e kvs)
  obtain k v where e: "e = (k, v)" by (cases e)
  let ?i = "i\<lparr>ini_heap := (ini_heap i)(a := (ini_heap i a)(k \<mapsto> v))\<rparr>"
  have "parse_line i (entry_line (k, v)) = Inr ?i"
    using Cons.prems by (simp add: e parse_entry_line assign_def)
  moreover have "parse_lines ?i (map entry_line kvs) =
      Inr (?i\<lparr>ini_heap := (ini_heap ?i)(a := ini_heap ?i a ++ map_of (rev kvs))\<rparr>)"
    using Cons.prems by (intro Cons.IH) auto
  moreover have "(\<lambda>b. if b = a then m else ini_heap i b) = (ini_heap i)(a := m)" for m
    by (simp add: fun_upd_def)
  ultimately show ?case by (simp add: e)
qed

text \<open>One saved section, read back, is that section's table and nothing else changes.\<close>

lemma parse_saved_section:
  assumes "wf_ini i" "good_name s" "distinct (map fst kvs)" "list_all good_entry kvs" "kvs \<noteq> []"
  shows "\<exists>i'. parse_lines i (section_lines (s, kvs)) = Inr i' \<and> wf_ini i'
     \<and> ini_view i' = (ini_view i)(s \<mapsto> map_of kvs)"
proof -
  let ?a = "ini_next i"
  let ?i1 = "i\<lparr>ini_heap := (ini_heap i)(?a := Map.empty), ini_next := Suc ?a,
                ini_current := Addr ?a, ini_sections := (ini_sections i)(s \<mapsto> ?a)\<rparr>"
  let ?i2 = "?i1\<lparr>ini_heap := (ini_heap ?i1)(?a := ini_heap ?i1 ?a ++ map_of (rev kvs))\<rparr>"
  have "parse_lines i (section_lines (s, kvs)) = parse_lines ?i1 (map entry_line kvs)"
    using parse_section_line [OF assms(2), of i] assms(5) by (simp add: section_lines_def)
  also have "\<dots> = Inr ?i2" by (rule parse_entry_lines [OF assms(4)]) simp
  finally have p: "parse_lines i (section_lines (s, kvs)) = Inr ?i2" .
  have fresh: "ini_sections i x \<noteq> Some ?a" for x
    using assms(1) by (auto simp: wf_ini_def ran_def)
  have "ini_view ?i2 = (ini_view i)(s \<mapsto> map_of kvs)"
  proof
    fix x
    show "ini_view ?i2 x = ((ini_view i)(s \<mapsto> map_of kvs)) x"
      using fresh [of x] map_of_rev_distinct [OF assms(3)]
      by (cases "ini_sections i x") (auto simp: ini_view_def)
  qed
  with p wf_parse_lines [OF assms(1) p] show ?thesis by blast
qed

lemma parse_saved_order:
  assumes "wf_ini i" "good_order order"
  shows "\<exists>i'. parse_lines i (concat (map section_lines order)) = Inr i' \<and> wf_ini i'
     \<and> (\<forall>s. ini_view i' s = (case map_of (filter (\<lambda>e. snd e \<noteq> []) order) s of
                               Some kvs \<Rightarrow> Some (map_of kvs) | None \<Rightarrow> ini_view i s))"
  using assms
proof (induction order arbitrary: i)
  case Nil
  then show ?case by simp
next
  case (Cons e order)
  obtain s kvs where e: "e = (s, kvs)" by (cases e)
  have good: "good_order order" "good_name s" "distinct (map fst kvs)" "list_all good_entry kvs"
    and s: "s \<notin> fst ` set order"
    using Cons.prems(2) by (auto simp: good_order_def e)
  have notin: "map_of (filter (\<lambda>e. snd e \<noteq> []) order) s = None"
    using s by (auto simp: map_of_eq_None_iff)
  show ?case
  proof (cases "kvs = []")
    case True
    with Cons.IH [OF Cons.prems(1) good(1)] show ?thesis
      by (simp add: e section_lines_def)
  next
    case False
    from parse_saved_section [OF Cons.prems(1) good(2-4) False] obtain i1 where
      i1: "parse_lines i (section_lines e) = Inr i1" "wf_ini i1"
        "ini_view i1 = (ini_view i)(s \<mapsto> map_of kvs)"
      by (auto simp: e)
    from Cons.IH [OF i1(2) good(1)] obtain i' where
      i': "parse_lines i1 (concat (map section_lines order)) = Inr i'" "wf_ini i'"
        "\<forall>x. ini_view i' x = (case map_of (filter (\<lambda>e. snd e \<noteq> []) order) x of
                 Some kvs \<Rightarrow> Some (map_of kvs) | None \<Rightarrow> ini_view i1 x)"
      by blast
    have "parse_lines i (concat (map section_lines (e # order))) = Inr i'"
      using i1(1) i'(1) by (simp add: parse_lines_append)
    moreover have "ini_view i' x = (case map_of (filter (\<lambda>e. snd e \<noteq> []) (e # order)) x of
                 Some kvs \<Rightarrow> Some (map_of kvs) | None \<Rightarrow> ini_view i x)" for x
      using i'(3) i1(3) notin False by (auto simp: e split: option.split)
    ultimately show ?thesis using i'(2) by blast
  qed
qed

lemma save_text_unlines:
  assumes "good_order order"
  shows "save_text order = unlines (concat (map section_lines order))"
    and "list_all no_lf (concat (map section_lines order))"
    and "list_all short_line (concat (map section_lines order))"
proof -
  have all: "\<forall>(s, kvs) \<in> set order. good_name s \<and> list_all good_entry kvs"
    using assms by (auto simp: good_order_def)
  show "save_text order = unlines (concat (map section_lines order))"
    using all
  proof (induction order)
    case (Cons e order)
    then show ?case by (cases e) (simp add: save_text_def save_section_lines)
  qed (simp add: save_text_def)
  show "list_all no_lf (concat (map section_lines order))"
    using all section_lines_ok by (fastforce simp: list_all_iff)
  show "list_all short_line (concat (map section_lines order))"
    using all section_lines_ok by (fastforce simp: list_all_iff)
qed

lemma section_lines_no_bom:
  assumes "good_order order"
  shows "\<not> is_bom uc (save_text order)"
proof -
  have "save_text order = [] \<or> hd (save_text order) = CHR ''[''"
    unfolding save_text_unlines(1) [OF assms]
    by (induction order) (auto simp: section_lines_def hd_append)
  then show ?thesis by (cases "save_text order") (auto simp: is_bom_def)
qed

section \<open>Merging\<close>

lemma merge_key_fields [simp]:
  "ini_sections (merge_key retain a i k v) = ini_sections i"
  "ini_next (merge_key retain a i k v) = ini_next i"
  "ini_current (merge_key retain a i k v) = ini_current i"
  by (auto simp: merge_key_def split: option.split)

lemma merge_key_heap:
  "ini_heap (merge_key retain a i k v) b =
     (if b \<noteq> a then ini_heap i b else if retain then [k \<mapsto> v] ++ ini_heap i a else (ini_heap i a)(k \<mapsto> v))"
  by (auto simp: merge_key_def fun_eq_iff map_add_def split: option.split)

lemma merge_keys_fields [simp]:
  "ini_sections (merge_keys retain a i kvs) = ini_sections i"
  "ini_next (merge_keys retain a i kvs) = ini_next i"
  "ini_current (merge_keys retain a i kvs) = ini_current i"
  by (induction kvs arbitrary: i) auto

lemma merge_keys_heap:
  "distinct (map fst kvs) \<Longrightarrow> ini_heap (merge_keys retain a i kvs) b =
      (if b \<noteq> a then ini_heap i b
       else if retain then map_of kvs ++ ini_heap i a else ini_heap i a ++ map_of kvs)"
proof (induction kvs arbitrary: i)
  case Nil
  then show ?case by simp
next
  case (Cons e kvs)
  obtain k v where e: "e = (k, v)" by (cases e)
  have k: "map_of kvs k = None" using Cons.prems by (simp add: e map_of_eq_None_iff)
  then have "map_of kvs ++ ([k \<mapsto> v] ++ m) = map_of (e # kvs) ++ m"
    "m(k \<mapsto> v) ++ map_of kvs = m ++ map_of (e # kvs)" for m
    by (auto simp: e fun_eq_iff map_add_def split: option.split)
  then show ?case
    using Cons.IH [of "merge_key retain a i k v"] Cons.prems by (simp only: e) (simp add: merge_key_heap)
qed

definition merged :: "bool \<Rightarrow> keys option \<Rightarrow> keys option \<Rightarrow> keys option" where
  "merged retain mine theirs =
     (case (mine, theirs) of
        (None, t) \<Rightarrow> t
      | (m, None) \<Rightarrow> m
      | (Some m, Some t) \<Rightarrow> Some (if retain then t ++ m else m ++ t))"

lemma merged_None [simp]: "merged retain m None = m"
  by (cases m) (simp_all add: merged_def)

lemma merge_view:
  assumes "wf_ini i" "distinct (map fst other)" "\<forall>(s, kvs) \<in> set other. distinct (map fst kvs)"
  shows "wf_ini (ini_merge retain i other)
    \<and> (\<forall>s. ini_view (ini_merge retain i other) s
           = merged retain (ini_view i s) (map_option map_of (map_of other s)))"
  using assms
proof (induction other arbitrary: i)
  case Nil
  then show ?case by (auto simp: merged_def split: option.split)
next
  case (Cons e other)
  obtain s kvs where e: "e = (s, kvs)" by (cases e)
  have d: "distinct (map fst kvs)" "distinct (map fst other)" "s \<notin> fst ` set other"
      "\<forall>(s, kvs) \<in> set other. distinct (map fst kvs)"
    using Cons.prems by (auto simp: e)
  have notin: "map_of other s = None" using d(3) by (simp add: map_of_eq_None_iff)
  obtain i1 where i1: "wf_ini i1" "ini_merge retain i (e # other) = ini_merge retain i1 other"
    "\<forall>x. ini_view i1 x = (if x = s then merged retain (ini_view i s) (Some (map_of kvs)) else ini_view i x)"
  proof (cases "ini_sections i s")
    case None
    let ?i1 = "i\<lparr>ini_heap := (ini_heap i)(ini_next i := map_of kvs), ini_next := Suc (ini_next i),
                 ini_sections := (ini_sections i)(s \<mapsto> ini_next i)\<rparr>"
    have fresh: "ini_sections i x \<noteq> Some (ini_next i)" for x
      using Cons.prems(1) by (auto simp: wf_ini_def ran_def)
    have "wf_ini ?i1"
      using wf_link_new [OF Cons.prems(1), where h = "(ini_heap i)(ini_next i := map_of kvs)"
          and c = "ini_current i" and s = s] Cons.prems(1)
      by (auto simp: wf_ini_def)
    moreover have "ini_merge retain i (e # other) = ini_merge retain ?i1 other"
      using None by (simp add: e new_keys_def)
    moreover have "ini_view ?i1 x = (if x = s then merged retain (ini_view i s) (Some (map_of kvs)) else ini_view i x)" for x
      using fresh [of x] None by (cases "ini_sections i x") (auto simp: ini_view_def merged_def)
    ultimately show ?thesis using that by blast
  next
    case (Some a)
    let ?c = "i\<lparr>ini_current := Addr a\<rparr>"
    let ?i1 = "merge_keys retain a ?c kvs"
    have wfc: "wf_ini ?c"
      using Cons.prems(1) Some by (auto simp: wf_ini_def ran_def)
    note mk = merge_keys_heap [OF d(1), of retain a ?c]
    have inj: "ini_sections i x = Some a \<Longrightarrow> x = s" for x
      using Cons.prems(1) Some by (auto simp: wf_ini_def inj_on_def dom_def)
    have "wf_ini ?i1" using wfc mk by (simp add: wf_ini_def)
    moreover have "ini_merge retain i (e # other) = ini_merge retain ?i1 other"
      using Some by (simp add: e)
    moreover have "ini_view ?i1 x = (if x = s then merged retain (ini_view i s) (Some (map_of kvs)) else ini_view i x)" for x
      using mk Some inj [of x] by (cases "ini_sections i x") (auto simp: ini_view_def merged_def)
    ultimately show ?thesis using that by blast
  qed
  from Cons.IH [OF i1(1) d(2,4)] i1(2,3) notin show ?case by (auto simp: e)
qed

section \<open>Malformed lines\<close>

lemma length_strip_key [simp]: "length (strip_key s) = length s"
proof -
  have "length (takeWhile isspace s) \<le> length s" by (rule length_takeWhile_le)
  then show ?thesis by (simp add: strip_key_def Let_def)
qed

lemma isspace_not:
  assumes "isspace c"
  shows "c \<noteq> NUL" and "c \<noteq> CHR ''=''" and "c \<noteq> CHR ''/''" and "c \<noteq> CHR ''#''" and "c \<noteq> CHR ''[''"
  using assms by (auto simp: isspace_def)

lemma blank_no_NUL: "list_all isspace ws \<Longrightarrow> NUL \<notin> set ws"
  using isspace_not(1) [of NUL] by (auto simp: list_all_iff)

lemma parse_indented_entry:
  assumes "good_entry (k, v)" and "list_all isspace ws" and "LF \<notin> set ws" and "ws \<noteq> []"
  shows "parse_line i (ws @ entry_line (k, v)) = assign i (strip_key (ws @ k)) v"
proof -
  let ?l = "ws @ k @ CHR ''='' # v"
  have g: "k \<noteq> []" "v \<noteq> []" "NUL \<notin> set k" "NUL \<notin> set v" "LF \<notin> set v" "CHR ''='' \<notin> set k"
    using assms(1) by (auto simp: good_entry_def)
  obtain w ws' where w: "ws = w # ws'" using assms(4) by (cases ws) auto
  have sp: "isspace w" using assms(2) by (simp add: w)
  have nw: "NUL \<notin> set ws" "CHR ''='' \<notin> set ws"
    using assms(2) blank_no_NUL isspace_not(2) [of "CHR ''=''"] by (auto simp: list_all_iff)
  have cs: "cstr ?l = ?l" using g(3,4) nw(1) by (intro cstr_id) simp
  have head: "w \<noteq> CHR ''/''" "w \<noteq> CHR ''#''" "w \<noteq> CHR ''[''" "w \<noteq> CHR ''=''"
    using isspace_not [OF sp] by simp_all
  have dw: "dropWhile (\<lambda>c. c = CHR ''='') ?l = ?l" using head(4) by (simp add: w)
  have tw: "takeWhile (\<lambda>c. c \<noteq> CHR ''='') ?l = ws @ k"
    using g(6) nw(2) by (subst append_assoc [symmetric], subst takeWhile_append2) auto
  have dv: "dropWhile (\<lambda>c. c = LF) v = v" using g(2,5) by (cases v) auto
  have tv: "takeWhile (\<lambda>c. c \<noteq> LF) v = v" using g(5) by auto
  have tok: "strtok_key ?l = (Some (ws @ k), Some v)"
    using g(1,2) by (simp add: strtok_key_def Let_def dw tw dv tv)
  have "parse_line i ?l = parse_key i ?l"
    using head by (simp only: parse_line_def cs Let_def) (simp add: w is_comment_def)
  then show ?thesis using tok g(2) by (simp add: parse_key_def entry_line_def)
qed

lemma parse_equals_only: "parse_line i (replicate (Suc n) (CHR ''='')) = Inl Null_Deref"
proof -
  have "cstr (replicate (Suc n) (CHR ''='')) = replicate (Suc n) (CHR ''='')"
    by (rule cstr_id) simp
  moreover have "dropWhile (\<lambda>c. c = CHR ''='') (replicate n (CHR ''='')) = []" by (induction n) auto
  ultimately show ?thesis
    by (simp add: parse_line_def is_comment_def parse_key_def strtok_key_def)
qed

lemma trim_index_blank:
  "list_all isspace ws \<Longrightarrow> n \<le> length ws \<Longrightarrow> trim_index (c # ws) n = 0"
  by (induction n) (auto simp: list_all_length)

lemma parse_blank_section:
  assumes "list_all isspace ws"
  shows "parse_line i (CHR ''['' # ws) = Inl Write_Overrun"
proof -
  let ?l = "CHR ''['' # ws"
  have c: "cstr ?l = ?l" using blank_no_NUL [OF assms] by (intro cstr_id) simp
  have "parse_line i ?l = parse_section i ?l"
    by (simp only: parse_line_def c Let_def) (simp add: is_comment_def)
  then show ?thesis
    using trim_index_blank [OF assms, of "length ws"] by (simp add: parse_section_def)
qed

lemma parse_comment: "parse_line i (CHR ''#'' # l) = Inr i"
  by (simp add: parse_line_def cstr_def is_comment_def)

section \<open>Properties\<close>

text \<open>
  C33: on a text whose lines all fit the 256-character buffer and that does not start with
  a byte order mark the target's \<open>char\<close> can express, parsing returns, and it returns what
  the line parser yields when applied to the lines in order; a well-formed object stays
  well-formed (section tables are never shared, no pointer dangles).
\<close>

theorem ini_parse_returns:
  assumes "list_all short_line (lines_of s)" and "\<not> is_bom uc s"
  shows "parse_stream uc i s = Some (parse_lines i (lines_of s))
     \<and> (\<forall>i'. wf_ini i \<longrightarrow> parse_lines i (lines_of s) = Inr i' \<longrightarrow> wf_ini i')"
  using parse_loop_lines [OF assms(1), of True uc i] assms(2) wf_parse_lines
  by (auto simp: parse_stream_def)

theorem ini_parse_returns_witness:
  "\<exists>i'. parse_stream True (new_ini (source_file ''f'')) ''[S]'' = Some (Inr i') \<and> wf_ini i'"
proof -
  have l: "lines_of ''[S]'' = [''[S]'']" by (simp add: lines_of_def)
  then have "list_all short_line (lines_of ''[S]'')" "\<not> is_bom True ''[S]''"
    by (simp_all add: short_line_def FINI_BUFFER_SIZE_def is_bom_def)
  from ini_parse_returns [OF this, where i = "new_ini (source_file ''f'')"]
  have "parse_stream True (new_ini (source_file ''f'')) ''[S]''
      = Some (parse_lines (new_ini (source_file ''f'')) (lines_of ''[S]''))"
    and "\<forall>i'. parse_lines (new_ini (source_file ''f'')) (lines_of ''[S]'') = Inr i' \<longrightarrow> wf_ini i'"
    by simp_all
  moreover have "\<exists>i'. parse_lines (new_ini (source_file ''f'')) (lines_of ''[S]'') = Inr i'"
    using parse_section_line [of "''S''" "new_ini (source_file ''f'')"]
    by (simp add: l good_name_def FINI_BUFFER_SIZE_def)
  ultimately show ?thesis by auto
qed

text \<open>
  A line of 256 characters or more, even a comment, makes the parser loop forever: if
  the lines before it and its first 255 characters parse without a fault, parsing does not
  return, whatever follows.
\<close>

theorem ini_long_line_diverges:
  assumes "list_all no_lf ls" and "list_all short_line ls" and "parse_lines i ls = Inr i1"
    and "LF \<notin> set long" and "FINI_BUFFER_SIZE \<le> length long"
    and "parse_line i1 (take (FINI_BUFFER_SIZE - 1) long) = Inr i2"
    and "\<not> is_bom uc (unlines ls @ long)"
  shows "parse_stream uc i (unlines ls @ long @ tail) = None"
proof -
  have "long \<noteq> []" using assms(5) by (auto simp: FINI_BUFFER_SIZE_def)
  then have bom: "\<not> is_bom uc (unlines ls @ long @ tail)"
    using assms(7) by (auto simp: is_bom_def nth_append)
  have "parse_loop uc (open_text (unlines ls @ long @ tail)) True i
      = parse_loop uc (open_text (long @ tail)) (True \<and> ls = []) i1"
    using bom by (intro parse_loop_unlines [OF assms(1,2,3)]) simp
  also have "\<dots> = None"
    using assms(7) by (intro parse_loop_long [OF assms(4,5,6)]) auto
  finally show ?thesis by (simp add: parse_stream_def)
qed

theorem ini_long_line_diverges_witness:
  "parse_stream False (new_ini (source_file ''f''))
     (unlines [] @ (CHR ''#'' # replicate 300 (CHR ''x'')) @ [LF]) = None"
proof (rule ini_long_line_diverges)
  show "parse_line (new_ini (source_file ''f''))
      (take (FINI_BUFFER_SIZE - 1) (CHR ''#'' # replicate 300 (CHR ''x''))) = Inr (new_ini (source_file ''f''))"
    by (simp add: FINI_BUFFER_SIZE_def take_Cons' parse_comment del: take_Cons_numeral)
qed (simp_all add: FINI_BUFFER_SIZE_def is_bom_def)

text \<open>
  C32: round trip of the configuration file. If the names and values are representable, the
  text that \<open>save\<close> writes, in any iteration order of the hash tables, parses into an
  object with the same non-empty sections and the same entries.
\<close>

theorem ini_save_parse_roundtrip:
  assumes "enumerates order i" and "good_order order" and "ini_save order i filename True = Some contents"
  shows "\<exists>i'. parse_stream uc (new_ini src) contents = Some (Inr i')
     \<and> (\<forall>s. ini_view i' s = (case ini_view i s of None \<Rightarrow> None
                             | Some m \<Rightarrow> if m = Map.empty then None else Some m))"
proof -
  have sv: "contents = save_text order"
    using assms(3) by (auto simp: ini_save_def split: if_splits)
  let ?ls = "concat (map section_lines order)"
  have lines: "lines_of contents = ?ls @ [[]]"
    unfolding sv save_text_unlines(1) [OF assms(2)]
    by (rule lines_of_unlines) (rule save_text_unlines(2) [OF assms(2)])
  have short: "list_all short_line (lines_of contents)"
    using save_text_unlines(3) [OF assms(2)] by (simp add: lines short_line_def FINI_BUFFER_SIZE_def)
  from parse_saved_order [OF wf_new_ini assms(2), of src] obtain i' where
    i': "parse_lines (new_ini src) ?ls = Inr i'"
      "\<forall>s. ini_view i' s = (case map_of (filter (\<lambda>e. snd e \<noteq> []) order) s of
             Some kvs \<Rightarrow> Some (map_of kvs) | None \<Rightarrow> ini_view (new_ini src) s)"
    by blast
  have "parse_stream uc (new_ini src) contents = Some (Inr i')"
    using parse_loop_lines [OF short, of True uc "new_ini src"] section_lines_no_bom [OF assms(2)] i'(1) lines
    by (simp add: parse_stream_def parse_lines_append sv)
  moreover have "ini_view i' s = (case ini_view i s of None \<Rightarrow> None
                             | Some m \<Rightarrow> if m = Map.empty then None else Some m)" for s
  proof -
    have "map_of (filter (\<lambda>e. snd e \<noteq> []) order) s
        = (case map_of order s of None \<Rightarrow> None | Some kvs \<Rightarrow> if kvs = [] then None else Some kvs)"
      using assms(2) unfolding good_order_def
      by (induction order) (auto simp: map_of_eq_None_iff split: option.split)
    then show ?thesis
      using i'(2) assms(1)
      by (auto simp: enumerates_def ini_view_def new_ini_def split: option.split)
  qed
  ultimately show ?thesis by blast
qed

theorem ini_save_parse_roundtrip_witness:
  "\<exists>i'. parse_stream True (new_ini source_memory) (save_text [(''S'', [(''k'', ''v'')])]) = Some (Inr i')
     \<and> ini_view i' ''S'' = Some [''k'' \<mapsto> ''v'']"
proof -
  let ?i = "\<lparr>ini_heap = (\<lambda>_. [''k'' \<mapsto> ''v'']), ini_next = 1, ini_current = Null,
      ini_sections = [''S'' \<mapsto> 0], ini_source = source_file ''f''\<rparr>"
  let ?o = "[(''S'', [(''k'', ''v'')])]"
  have "enumerates ?o ?i" by (simp add: enumerates_def ini_view_def)
  moreover have "good_order ?o"
    by (simp add: good_order_def good_name_def good_entry_def isspace_def FINI_BUFFER_SIZE_def)
  moreover have "ini_save ?o ?i ''f'' True = Some (save_text ?o)"
    by (simp add: ini_save_def has_file_association_def)
  ultimately have "\<exists>i'. parse_stream True (new_ini source_memory) (save_text ?o) = Some (Inr i')
     \<and> (\<forall>s. ini_view i' s = (case ini_view ?i s of None \<Rightarrow> None
                             | Some m \<Rightarrow> if m = Map.empty then None else Some m))"
    by (rule ini_save_parse_roundtrip)
  then obtain i' where "parse_stream True (new_ini source_memory) (save_text ?o) = Some (Inr i')"
    and "ini_view i' ''S'' = (case ini_view ?i ''S'' of None \<Rightarrow> None
                             | Some m \<Rightarrow> if m = Map.empty then None else Some m)" by blast
  moreover have "ini_view ?i ''S'' = Some [''k'' \<mapsto> ''v'']" by (simp add: ini_view_def)
  ultimately show ?thesis by auto
qed

text \<open>
  Merging keeps the object well-formed and gives exactly the union of the two
  configurations: sections only one side has are taken over, and in shared sections the
  target's values win when \<open>retain\<close> is set and the source's otherwise.
\<close>

theorem ini_merge_union:
  assumes "wf_ini i" and "distinct (map fst other)" and "list_all (\<lambda>(s, kvs). distinct (map fst kvs)) other"
  shows "wf_ini (ini_merge retain i other)
     \<and> ini_view (ini_merge retain i other) s
       = merged retain (ini_view i s) (map_option map_of (map_of other s))"
  using merge_view [OF assms(1,2), of retain] assms(3) by (auto simp: list_all_iff)

theorem ini_merge_union_witness:
  "ini_view (ini_merge True (new_ini source_memory) [(''S'', [(''k'', ''v'')])]) ''S'' = Some [''k'' \<mapsto> ''v'']"
proof -
  let ?o = "[(''S'', [(''k'', ''v'')])]"
  have "ini_view (ini_merge True (new_ini source_memory) ?o) ''S''
      = merged True (ini_view (new_ini source_memory) ''S'') (map_option map_of (map_of ?o ''S''))"
    by (rule ini_merge_union [THEN conjunct2]) simp_all
  then show ?thesis by (simp add: merged_def) (simp add: ini_view_def new_ini_def)
qed

text \<open>
  An entry line indented by white space is stored under a wrong key: the key has the
  indented length, so it differs from the key of the same line without the indentation
  (the tail of the name is repeated, as in \<open>IpAddrr\<close> for one blank before \<open>IpAddr\<close>).
\<close>

theorem ini_indented_key_corrupted:
  assumes "good_entry (k, v)" and "list_all isspace ws" and "LF \<notin> set ws" and "ws \<noteq> []"
  shows "\<exists>k'. parse_line i (ws @ entry_line (k, v)) = assign i k' v
     \<and> length k' = length ws + length k \<and> k' \<noteq> k"
proof -
  have "length (strip_key (ws @ k)) = length ws + length k" by simp
  moreover from this have "strip_key (ws @ k) \<noteq> k" using assms(4) by (metis add_cancel_left_left length_0_conv)
  ultimately show ?thesis using parse_indented_entry [OF assms, of i] by blast
qed

theorem ini_indented_key_corrupted_witness:
  "\<exists>k'. parse_line (new_ini source_memory) ('' '' @ entry_line (''IpAddr'', ''1''))
       = assign (new_ini source_memory) k' ''1'' \<and> length k' = Suc 6 \<and> k' \<noteq> ''IpAddr''"
  using ini_indented_key_corrupted [of "''IpAddr''" "''1''" "'' ''" "new_ini source_memory"]
  by (simp add: eval_nat_numeral good_entry_def isspace_def FINI_BUFFER_SIZE_def)

text \<open>
  The lines the parser does not survive. A line of equals signs dereferences the null
  pointer \<open>strtok\<close> returns; a section line with nothing but white space after the bracket
  writes past an empty allocation; an entry before any section uses the uninitialised
  cursor.
\<close>

theorem ini_malformed_lines_fault:
  assumes "list_all isspace ws" and "good_entry e"
  shows "parse_line i (replicate (Suc n) (CHR ''='')) = Inl Null_Deref
     \<and> parse_line i (CHR ''['' # ws) = Inl Write_Overrun
     \<and> parse_line (new_ini src) (entry_line e) = Inl Uninit_Pointer"
  using parse_equals_only parse_blank_section [OF assms(1)] parse_entry_line [of "fst e" "snd e"] assms(2)
  by (simp add: assign_def new_ini_def)

theorem ini_malformed_lines_fault_witness:
  "parse_line (new_ini source_memory) ''='' = Inl Null_Deref
   \<and> parse_line (new_ini source_memory) ''[ '' = Inl Write_Overrun
   \<and> parse_line (new_ini source_memory) ''a=1'' = Inl Uninit_Pointer"
  using ini_malformed_lines_fault [of "'' ''" "(''a'', ''1'')" "new_ini source_memory" 0 source_memory]
  by (simp add: good_entry_def isspace_def entry_line_def FINI_BUFFER_SIZE_def)

end
