(* ===== verification/Usbcan.thy ===== *)
theory Usbcan
  imports Prelude
begin

text \<open>
  The data model of include/usbcan.h: device types, error flags, return codes and the
  structures that cross the VCI interface, with their object representations. The
  representations are those of the supported targets (little-endian, natural alignment):
  the structures that the network protocol transports (VCI_CAN_OBJ, VCI_INIT_CONFIG,
  VCI_ERR_INFO) have no padding, and fixed-size array members are byte lists whose
  length is a well-formedness condition.
\<close>

section \<open>Device types, error flags and return codes\<close>

datatype vciDevType =
    VCI_PCI5121 | VCI_PCI9810 | VCI_USBCAN1 | VCI_USBCAN2 | VCI_USBCAN2A | VCI_PCI9820
  | VCI_CAN232 | VCI_PCI5110 | VCI_CANLITE | VCI_ISA9620 | VCI_ISA5420 | VCI_PC104CAN
  | VCI_CANETUDP | VCI_CANETE | VCI_DNP9810 | VCI_PCI9840 | VCI_PC104CAN2 | VCI_PCI9820I
  | VCI_CANETTCP | VCI_PEC9920 | VCI_PCIE_9220 | VCI_PCI5010U | VCI_USBCAN_E_U
  | VCI_USBCAN_2E_U | VCI_PCI5020U | VCI_EG20T_CAN | VCI_PCIE9221 | VCI_WIFICAN_TCP
  | VCI_WIFICAN_UDP | VCI_PCIe9120 | VCI_PCIe9110 | VCI_PCIe9140

fun devType_value :: "vciDevType \<Rightarrow> DWORD" where
  "devType_value VCI_PCI5121 = 1"
| "devType_value VCI_PCI9810 = 2"
| "devType_value VCI_USBCAN1 = 3"
| "devType_value VCI_USBCAN2 = 4"
| "devType_value VCI_USBCAN2A = 4"
| "devType_value VCI_PCI9820 = 5"
| "devType_value VCI_CAN232 = 6"
| "devType_value VCI_PCI5110 = 7"
| "devType_value VCI_CANLITE = 8"
| "devType_value VCI_ISA9620 = 9"
| "devType_value VCI_ISA5420 = 10"
| "devType_value VCI_PC104CAN = 11"
| "devType_value VCI_CANETUDP = 12"
| "devType_value VCI_CANETE = 12"
| "devType_value VCI_DNP9810 = 13"
| "devType_value VCI_PCI9840 = 14"
| "devType_value VCI_PC104CAN2 = 15"
| "devType_value VCI_PCI9820I = 16"
| "devType_value VCI_CANETTCP = 17"
| "devType_value VCI_PEC9920 = 18"
| "devType_value VCI_PCIE_9220 = 18"
| "devType_value VCI_PCI5010U = 19"
| "devType_value VCI_USBCAN_E_U = 20"
| "devType_value VCI_USBCAN_2E_U = 21"
| "devType_value VCI_PCI5020U = 22"
| "devType_value VCI_EG20T_CAN = 23"
| "devType_value VCI_PCIE9221 = 24"
| "devType_value VCI_WIFICAN_TCP = 25"
| "devType_value VCI_WIFICAN_UDP = 26"
| "devType_value VCI_PCIe9120 = 27"
| "devType_value VCI_PCIe9110 = 28"
| "devType_value VCI_PCIe9140 = 29"

text \<open>The error flags: the CAN errors, then the device errors.\<close>

definition can_error_flags :: "DWORD list" where
  "can_error_flags = [0x0001, 0x0002, 0x0004, 0x0008, 0x0010]"

definition device_error_flags :: "DWORD list" where
  "device_error_flags = [0x0100, 0x0200, 0x0400, 0x0800, 0x1000, 0x2000, 0x4000, 0x8000]"

text \<open>
  \<open>enum class vciReturnType\<close> has underlying type \<open>int\<close>, and the direct backends cast
  arbitrary driver results into it, so every 32-bit value is a value of the type.
\<close>

type_synonym vciReturnType = "32 word"

definition STATUS_OK :: vciReturnType where "STATUS_OK = 1"
definition STATUS_ERR :: vciReturnType where "STATUS_ERR = 0"
definition STATUS_NET_CONN_FAIL :: vciReturnType where "STATUS_NET_CONN_FAIL = - 1"

lemmas status_defs = STATUS_OK_def STATUS_ERR_def STATUS_NET_CONN_FAIL_def

text \<open>\<open>static_cast<DWORD>\<close> of a return code, and \<open>operator!=\<close> between the two types.\<close>

definition to_DWORD :: "vciReturnType \<Rightarrow> DWORD" where
  "to_DWORD e = e"

definition ret_neq :: "vciReturnType \<Rightarrow> DWORD \<Rightarrow> bool" where
  "ret_neq lhs rhs = (to_DWORD lhs \<noteq> rhs)"

section \<open>Structures\<close>

record VCI_BOARD_INFO =
  hw_Version :: USHORT
  fw_Version :: USHORT
  dr_Version :: USHORT
  in_Version :: USHORT
  irq_Num :: USHORT
  can_Num :: BYTE
  str_Serial_Num :: "BYTE list"
  str_hw_Type :: "BYTE list"
  board_Reserved :: "USHORT list"

record VCI_CAN_OBJ =
  ID :: UINT
  TimeStamp :: UINT
  TimeFlag :: BYTE
  SendType :: BYTE
  RemoteFlag :: BYTE
  ExternFlag :: BYTE
  DataLen :: BYTE
  Data :: "BYTE list"
  obj_Reserved :: "BYTE list"

record VCI_CAN_STATUS =
  ErrInterrupt :: UCHAR
  regMode :: UCHAR
  regStatus :: UCHAR
  regALCapture :: UCHAR
  regECCapture :: UCHAR
  regEWLimit :: UCHAR
  regRECounter :: UCHAR
  regTECounter :: UCHAR
  status_Reserved :: DWORD

record VCI_ERR_INFO =
  ErrCode :: UINT
  Passive_ErrData :: "BYTE list"
  ArLost_ErrData :: BYTE

record VCI_INIT_CONFIG =
  AccCode :: DWORD
  AccMask :: DWORD
  cfg_Reserved :: DWORD
  Filter :: UCHAR
  Timing0 :: UCHAR
  Timing1 :: UCHAR
  Mode :: UCHAR

definition wf_board_info :: "VCI_BOARD_INFO \<Rightarrow> bool" where
  "wf_board_info b \<longleftrightarrow> length (str_Serial_Num b) = 20 \<and> length (str_hw_Type b) = 40
     \<and> length (board_Reserved b) = 4"

definition wf_can_obj :: "VCI_CAN_OBJ \<Rightarrow> bool" where
  "wf_can_obj p \<longleftrightarrow> length (Data p) = 8 \<and> length (obj_Reserved p) = 3"

definition wf_err_info :: "VCI_ERR_INFO \<Rightarrow> bool" where
  "wf_err_info e \<longleftrightarrow> length (Passive_ErrData e) = 3"

text \<open>\<open>VCI_CAN_OBJ can_obj{}\<close> and \<open>VCI_INIT_CONFIG cfg{}\<close>: value initialisation.\<close>

definition zero_can_obj :: VCI_CAN_OBJ where
  "zero_can_obj = \<lparr>ID = 0, TimeStamp = 0, TimeFlag = 0, SendType = 0, RemoteFlag = 0,
     ExternFlag = 0, DataLen = 0, Data = replicate 8 0, obj_Reserved = replicate 3 0\<rparr>"

definition zero_init_config :: VCI_INIT_CONFIG where
  "zero_init_config = \<lparr>AccCode = 0, AccMask = 0, cfg_Reserved = 0, Filter = 0, Timing0 = 0,
     Timing1 = 0, Mode = 0\<rparr>"

section \<open>Object representations\<close>

definition sizeof_can_obj :: nat where "sizeof_can_obj = 24"
definition sizeof_init_config :: nat where "sizeof_init_config = 16"
definition sizeof_err_info :: nat where "sizeof_err_info = 8"

lemmas sizeof_defs [bytes_simps] = sizeof_can_obj_def sizeof_init_config_def sizeof_err_info_def

definition can_obj_bytes :: "VCI_CAN_OBJ \<Rightarrow> BYTE list" where
  "can_obj_bytes p = le_bytes 4 (ID p) @ le_bytes 4 (TimeStamp p)
     @ [TimeFlag p, SendType p, RemoteFlag p, ExternFlag p, DataLen p] @ Data p @ obj_Reserved p"

definition can_obj_of_bytes :: "BYTE list \<Rightarrow> VCI_CAN_OBJ" where
  "can_obj_of_bytes bs = \<lparr>ID = le_word (take 4 bs), TimeStamp = le_word (take 4 (drop 4 bs)),
     TimeFlag = bs ! 8, SendType = bs ! 9, RemoteFlag = bs ! 10, ExternFlag = bs ! 11,
     DataLen = bs ! 12, Data = take 8 (drop 13 bs), obj_Reserved = take 3 (drop 21 bs)\<rparr>"

definition init_config_bytes :: "VCI_INIT_CONFIG \<Rightarrow> BYTE list" where
  "init_config_bytes c = le_bytes 4 (AccCode c) @ le_bytes 4 (AccMask c)
     @ le_bytes 4 (cfg_Reserved c) @ [Filter c, Timing0 c, Timing1 c, Mode c]"

definition init_config_of_bytes :: "BYTE list \<Rightarrow> VCI_INIT_CONFIG" where
  "init_config_of_bytes bs = \<lparr>AccCode = le_word (take 4 bs), AccMask = le_word (take 4 (drop 4 bs)),
     cfg_Reserved = le_word (take 4 (drop 8 bs)), Filter = bs ! 12, Timing0 = bs ! 13,
     Timing1 = bs ! 14, Mode = bs ! 15\<rparr>"

definition err_info_bytes :: "VCI_ERR_INFO \<Rightarrow> BYTE list" where
  "err_info_bytes e = le_bytes 4 (ErrCode e) @ Passive_ErrData e @ [ArLost_ErrData e]"

lemma length_can_obj_bytes [bytes_simps]:
  "wf_can_obj p \<Longrightarrow> length (can_obj_bytes p) = 24"
  by (simp add: can_obj_bytes_def wf_can_obj_def)

lemma length_init_config_bytes [bytes_simps]: "length (init_config_bytes c) = 16"
  by (simp add: init_config_bytes_def)

lemma length_err_info_bytes [bytes_simps]:
  "wf_err_info e \<Longrightarrow> length (err_info_bytes e) = 8"
  by (simp add: err_info_bytes_def wf_err_info_def)

lemma wf_zero_can_obj [simp]: "wf_can_obj zero_can_obj"
  by (simp add: zero_can_obj_def wf_can_obj_def)

lemma wf_can_obj_of_bytes: "length bs = 24 \<Longrightarrow> wf_can_obj (can_obj_of_bytes bs)"
  by (simp add: wf_can_obj_def can_obj_of_bytes_def)

lemma can_obj_of_bytes_of_obj:
  assumes "wf_can_obj p"
  shows "can_obj_of_bytes (can_obj_bytes p) = p"
proof -
  have "length (Data p) = 8" "length (obj_Reserved p) = 3" using assms by (auto simp: wf_can_obj_def)
  then show ?thesis by (simp add: can_obj_of_bytes_def can_obj_bytes_def nth_append)
qed

lemma split_24:
  assumes "length (bs :: 'a list) = 24"
  shows "bs = take 4 bs @ take 4 (drop 4 bs) @ [bs ! 8, bs ! 9, bs ! 10, bs ! 11, bs ! 12]
           @ take 8 (drop 13 bs) @ take 3 (drop 21 bs)"
proof -
  have cons: "\<And>i. i < 24 \<Longrightarrow> drop i bs = bs ! i # drop (Suc i) bs"
    using assms by (simp add: Cons_nth_drop_Suc)
  have "drop 8 bs = [bs ! 8, bs ! 9, bs ! 10, bs ! 11, bs ! 12] @ drop 13 bs"
    using cons [of 8] cons [of 9] cons [of 10] cons [of 11] cons [of 12] by simp
  moreover have "drop 13 bs = take 8 (drop 13 bs) @ drop 21 bs"
    using append_take_drop_id [of 8 "drop 13 bs", symmetric] by simp
  moreover have "take 3 (drop 21 bs) = drop 21 bs" using assms by simp
  moreover have "bs = take 4 bs @ take 4 (drop 4 bs) @ drop 8 bs"
    using append_take_drop_id [of 4 bs, symmetric] append_take_drop_id [of 4 "drop 4 bs", symmetric]
    by simp
  ultimately show ?thesis by metis
qed

lemma can_obj_bytes_of_bytes:
  assumes "length bs = 24"
  shows "can_obj_bytes (can_obj_of_bytes bs) = bs"
proof -
  have "le_bytes 4 (le_word (take 4 bs) :: UINT) = take 4 bs"
    "le_bytes 4 (le_word (take 4 (drop 4 bs)) :: UINT) = take 4 (drop 4 bs)"
    using assms by (auto intro!: le_bytes_le_word)
  then show ?thesis
    using split_24 [OF assms] by (simp add: can_obj_bytes_def can_obj_of_bytes_def)
qed

lemma can_obj_bytes_inject:
  "wf_can_obj p \<Longrightarrow> wf_can_obj q \<Longrightarrow> can_obj_bytes p = can_obj_bytes q \<longleftrightarrow> p = q"
  by (metis can_obj_of_bytes_of_obj)

lemma init_config_roundtrip: "init_config_of_bytes (init_config_bytes c) = c"
  by (simp add: init_config_of_bytes_def init_config_bytes_def nth_append)

text \<open>
  The twenty-four bytes of a CAN object and its members determine each other: every
  block of that size is the image of exactly one well-formed object, and every well-formed
  object has such an image, from which it is read back.\<close>

theorem can_obj_image:
  "(length bs = 24 \<longrightarrow> wf_can_obj (can_obj_of_bytes bs) \<and> can_obj_bytes (can_obj_of_bytes bs) = bs)
   \<and> (wf_can_obj p \<longrightarrow> length (can_obj_bytes p) = 24 \<and> can_obj_of_bytes (can_obj_bytes p) = p)"
  using wf_can_obj_of_bytes can_obj_bytes_of_bytes length_can_obj_bytes can_obj_of_bytes_of_obj by blast

theorem can_obj_image_witness:
  "wf_can_obj (can_obj_of_bytes (replicate 24 7)) \<and> can_obj_bytes (can_obj_of_bytes (replicate 24 7)) = replicate 24 7
   \<and> length (can_obj_bytes zero_can_obj) = 24 \<and> can_obj_of_bytes (can_obj_bytes zero_can_obj) = zero_can_obj"
  using can_obj_image [of "replicate 24 7" zero_can_obj] by simp

end
