(* ===== verification/Vendor_Dll.thy ===== *)
theory Vendor_Dll
  imports Usbcan
begin

text \<open>
  libControlCAN/inc/lib_control_can_define.hpp: a vendor's driver library and the table of
  its fourteen entry points. The vendor code itself is outside the sources; it appears as
  the functions in the table, which act on a driver state of an arbitrary type \<open>'d\<close>.
  A pointer parameter is the object it points to (\<open>None\<close> for a null pointer), returned
  with what the driver wrote into it.

  The second half names the calls of the CanImpInterface (include/lib_control_can_imp.h)
  other than opening and closing as a datatype, so that the backends can be compared call
  by call and over whole call sequences.
\<close>

section \<open>The library and its symbols\<close>

text \<open>The types of the entry points.\<close>

type_synonym 'd vci_open_device_t = "DWORD \<Rightarrow> DWORD \<Rightarrow> DWORD \<Rightarrow> 'd \<Rightarrow> DWORD \<times> 'd"
type_synonym 'd vci_close_device_t = "DWORD \<Rightarrow> DWORD \<Rightarrow> 'd \<Rightarrow> DWORD \<times> 'd"
type_synonym 'd vci_reset_can_t = "DWORD \<Rightarrow> DWORD \<Rightarrow> DWORD \<Rightarrow> 'd \<Rightarrow> DWORD \<times> 'd"
type_synonym 'd vci_init_can_t = "DWORD \<Rightarrow> DWORD \<Rightarrow> DWORD \<Rightarrow> VCI_INIT_CONFIG option \<Rightarrow> 'd
    \<Rightarrow> DWORD \<times> VCI_INIT_CONFIG option \<times> 'd"
type_synonym 'd vci_read_board_info_t = "DWORD \<Rightarrow> DWORD \<Rightarrow> VCI_BOARD_INFO option \<Rightarrow> 'd
    \<Rightarrow> DWORD \<times> VCI_BOARD_INFO option \<times> 'd"
type_synonym 'd vci_read_err_info_t = "DWORD \<Rightarrow> DWORD \<Rightarrow> DWORD \<Rightarrow> VCI_ERR_INFO option \<Rightarrow> 'd
    \<Rightarrow> DWORD \<times> VCI_ERR_INFO option \<times> 'd"
type_synonym 'd vci_read_can_status_t = "DWORD \<Rightarrow> DWORD \<Rightarrow> DWORD \<Rightarrow> VCI_CAN_STATUS option \<Rightarrow> 'd
    \<Rightarrow> DWORD \<times> VCI_CAN_STATUS option \<times> 'd"
type_synonym 'd vci_get_reference_t = "DWORD \<Rightarrow> DWORD \<Rightarrow> DWORD \<Rightarrow> DWORD \<Rightarrow> BYTE list option \<Rightarrow> 'd
    \<Rightarrow> DWORD \<times> BYTE list option \<times> 'd"
type_synonym 'd vci_set_reference_t = "DWORD \<Rightarrow> DWORD \<Rightarrow> DWORD \<Rightarrow> DWORD \<Rightarrow> BYTE list option \<Rightarrow> 'd
    \<Rightarrow> DWORD \<times> BYTE list option \<times> 'd"
type_synonym 'd vci_get_receive_num_t = "DWORD \<Rightarrow> DWORD \<Rightarrow> DWORD \<Rightarrow> 'd \<Rightarrow> DWORD \<times> 'd"
type_synonym 'd vci_clear_buffer_t = "DWORD \<Rightarrow> DWORD \<Rightarrow> DWORD \<Rightarrow> 'd \<Rightarrow> DWORD \<times> 'd"
type_synonym 'd vci_start_can_t = "DWORD \<Rightarrow> DWORD \<Rightarrow> DWORD \<Rightarrow> 'd \<Rightarrow> DWORD \<times> 'd"
type_synonym 'd vci_transmit_t = "DWORD \<Rightarrow> DWORD \<Rightarrow> DWORD \<Rightarrow> VCI_CAN_OBJ list option \<Rightarrow> ULONG \<Rightarrow> 'd
    \<Rightarrow> DWORD \<times> VCI_CAN_OBJ list option \<times> 'd"
type_synonym 'd vci_receive_t = "DWORD \<Rightarrow> DWORD \<Rightarrow> DWORD \<Rightarrow> VCI_CAN_OBJ list option \<Rightarrow> ULONG \<Rightarrow> INT_t \<Rightarrow> 'd
    \<Rightarrow> DWORD \<times> VCI_CAN_OBJ list option \<times> 'd"

text \<open>What \<open>boost::dll::shared_library\<close> finds in a file: a symbol may be missing.\<close>

record 'd shared_library =
  sym_OpenDevice :: "'d vci_open_device_t option"
  sym_CloseDevice :: "'d vci_close_device_t option"
  sym_ResetCAN :: "'d vci_reset_can_t option"
  sym_InitCAN :: "'d vci_init_can_t option"
  sym_ReadBoardInfo :: "'d vci_read_board_info_t option"
  sym_ReadErrInfo :: "'d vci_read_err_info_t option"
  sym_ReadCANStatus :: "'d vci_read_can_status_t option"
  sym_GetReference :: "'d vci_get_reference_t option"
  sym_SetReference :: "'d vci_set_reference_t option"
  sym_GetReceiveNum :: "'d vci_get_receive_num_t option"
  sym_ClearBuffer :: "'d vci_clear_buffer_t option"
  sym_StartCAN :: "'d vci_start_can_t option"
  sym_Transmit :: "'d vci_transmit_t option"
  sym_Receive :: "'d vci_receive_t option"

record 'd dll_load_dll_type =
  dll_path :: string
  fOpenDevice :: "'d vci_open_device_t"
  fCloseDevice :: "'d vci_close_device_t"
  fResetCan :: "'d vci_reset_can_t"
  fInitCan :: "'d vci_init_can_t"
  fReadBoardInfo :: "'d vci_read_board_info_t"
  fReadErrInfo :: "'d vci_read_err_info_t"
  fReadCanStatus :: "'d vci_read_can_status_t"
  fGetReference :: "'d vci_get_reference_t"
  fSetReference :: "'d vci_set_reference_t"
  fGetReceiveNum :: "'d vci_get_receive_num_t"
  fClearBuffer :: "'d vci_clear_buffer_t"
  fStartCan :: "'d vci_start_can_t"
  fTransmit :: "'d vci_transmit_t"
  fReceive :: "'d vci_receive_t"

text \<open>\<open>import_symbol\<close> throws when the symbol is missing.\<close>

definition import_symbol :: "'f option \<Rightarrow> 'f res" where
  "import_symbol f0 = (case f0 of None \<Rightarrow> Inl Exception | Some f \<Rightarrow> Inr f)"

text \<open>
  The constructor: loading the file throws when it cannot be loaded, then the symbols are
  imported in order. \<open>load\<close> stands for the dynamic loader.
\<close>

definition dll_ctor :: "(string \<Rightarrow> 'd shared_library option) \<Rightarrow> string \<Rightarrow> 'd dll_load_dll_type res" where
  "dll_ctor load dsoPath =
     (case load dsoPath of
        None \<Rightarrow> Inl Exception
      | Some dll \<Rightarrow>
          and_then (import_symbol (sym_OpenDevice dll)) (\<lambda>openDevice.
          and_then (import_symbol (sym_CloseDevice dll)) (\<lambda>closeDevice.
          and_then (import_symbol (sym_ResetCAN dll)) (\<lambda>resetCAN.
          and_then (import_symbol (sym_InitCAN dll)) (\<lambda>initCAN.
          and_then (import_symbol (sym_ReadBoardInfo dll)) (\<lambda>readBoardInfo.
          and_then (import_symbol (sym_ReadErrInfo dll)) (\<lambda>readErrInfo.
          and_then (import_symbol (sym_ReadCANStatus dll)) (\<lambda>readCANStatus.
          and_then (import_symbol (sym_GetReference dll)) (\<lambda>getReference.
          and_then (import_symbol (sym_SetReference dll)) (\<lambda>setReference.
          and_then (import_symbol (sym_GetReceiveNum dll)) (\<lambda>getReceiveNum.
          and_then (import_symbol (sym_ClearBuffer dll)) (\<lambda>clearBuffer.
          and_then (import_symbol (sym_StartCAN dll)) (\<lambda>startCAN.
          and_then (import_symbol (sym_Transmit dll)) (\<lambda>transmit.
          and_then (import_symbol (sym_Receive dll)) (\<lambda>receive.
          Inr \<lparr>dll_path = dsoPath, fOpenDevice = openDevice, fCloseDevice = closeDevice,
               fResetCan = resetCAN, fInitCan = initCAN, fReadBoardInfo = readBoardInfo,
               fReadErrInfo = readErrInfo, fReadCanStatus = readCANStatus,
               fGetReference = getReference, fSetReference = setReference,
               fGetReceiveNum = getReceiveNum, fClearBuffer = clearBuffer, fStartCan = startCAN,
               fTransmit = transmit, fReceive = receive\<rparr>)))))))))))))))"

definition all_symbols :: "'d shared_library \<Rightarrow> bool" where
  "all_symbols dll \<longleftrightarrow>
     sym_OpenDevice dll \<noteq> None \<and> sym_CloseDevice dll \<noteq> None \<and> sym_ResetCAN dll \<noteq> None
   \<and> sym_InitCAN dll \<noteq> None \<and> sym_ReadBoardInfo dll \<noteq> None \<and> sym_ReadErrInfo dll \<noteq> None
   \<and> sym_ReadCANStatus dll \<noteq> None \<and> sym_GetReference dll \<noteq> None \<and> sym_SetReference dll \<noteq> None
   \<and> sym_GetReceiveNum dll \<noteq> None \<and> sym_ClearBuffer dll \<noteq> None \<and> sym_StartCAN dll \<noteq> None
   \<and> sym_Transmit dll \<noteq> None \<and> sym_Receive dll \<noteq> None"

lemma import_symbol_Inr [simp]: "import_symbol f0 = Inr f \<longleftrightarrow> f0 = Some f"
  by (cases f0) (auto simp: import_symbol_def)

lemma import_symbol_fails [simp]: "import_symbol None = Inl Exception"
  by (simp add: import_symbol_def)

lemma import_symbol_Some [simp]: "import_symbol (Some f) = Inr f"
  by (simp add: import_symbol_def)

text \<open>Loading succeeds exactly for a library that can be loaded and has every symbol.\<close>

lemma dll_load_ok_iff:
  "(\<exists>lib. dll_ctor load p = Inr lib) \<longleftrightarrow> (\<exists>dll. load p = Some dll \<and> all_symbols dll)"
  by (auto simp: dll_ctor_def all_symbols_def and_then_Inr_iff split: option.splits)

lemma import_symbol_cases: "import_symbol f0 = Inl Exception \<or> (\<exists>f. import_symbol f0 = Inr f)"
  by (cases f0) auto

lemma dll_load_cases:
  "dll_ctor load p = Inl Exception \<or> (\<exists>lib. dll_ctor load p = Inr lib)"
proof (cases "\<exists>lib. dll_ctor load p = Inr lib")
  case False
  then obtain e where e: "dll_ctor load p = Inl e" by (cases "dll_ctor load p") auto
  then have "e = Exception"
    unfolding dll_ctor_def
    by (auto simp: and_then_Inl_iff import_symbol_def split: option.splits)
  with e show ?thesis by simp
qed simp

section \<open>The calls of the interface\<close>

datatype vci_call =
    C_ReadBoardInfo DWORD DWORD "VCI_BOARD_INFO option"
  | C_InitCAN DWORD DWORD DWORD "VCI_INIT_CONFIG option"
  | C_ReadErrInfo DWORD DWORD DWORD "VCI_ERR_INFO option"
  | C_ReadCANStatus DWORD DWORD DWORD "VCI_CAN_STATUS option"
  | C_GetReference DWORD DWORD DWORD DWORD "BYTE list option"
  | C_SetReference DWORD DWORD DWORD DWORD "BYTE list option"
  | C_GetReceiveNum DWORD DWORD DWORD
  | C_ClearBuffer DWORD DWORD DWORD
  | C_StartCAN DWORD DWORD DWORD
  | C_ResetCAN DWORD DWORD DWORD
  | C_Transmit DWORD DWORD DWORD "VCI_CAN_OBJ list option" ULONG
  | C_Receive DWORD DWORD DWORD "VCI_CAN_OBJ list option" ULONG INT_t

text \<open>A reply: the returned number and the object behind the pointer afterwards.\<close>

datatype vci_reply =
    R_Plain DWORD
  | R_Board DWORD "VCI_BOARD_INFO option"
  | R_Config DWORD "VCI_INIT_CONFIG option"
  | R_Err DWORD "VCI_ERR_INFO option"
  | R_Status DWORD "VCI_CAN_STATUS option"
  | R_Ref DWORD "BYTE list option"
  | R_Objs DWORD "VCI_CAN_OBJ list option"

fun call_type :: "vci_call \<Rightarrow> DWORD" where
  "call_type (C_ReadBoardInfo t i p) = t"
| "call_type (C_InitCAN t i c p) = t"
| "call_type (C_ReadErrInfo t i c p) = t"
| "call_type (C_ReadCANStatus t i c p) = t"
| "call_type (C_GetReference t i c k p) = t"
| "call_type (C_SetReference t i c k p) = t"
| "call_type (C_GetReceiveNum t i c) = t"
| "call_type (C_ClearBuffer t i c) = t"
| "call_type (C_StartCAN t i c) = t"
| "call_type (C_ResetCAN t i c) = t"
| "call_type (C_Transmit t i c p n) = t"
| "call_type (C_Receive t i c p n w) = t"

text \<open>What the driver answers, and what a backend answers that has no driver for the device.\<close>

fun drv_call :: "'d dll_load_dll_type \<Rightarrow> vci_call \<Rightarrow> 'd \<Rightarrow> vci_reply \<times> 'd" where
  "drv_call lib (C_ReadBoardInfo t i p) d = (let (err, p', d') = fReadBoardInfo lib t i p d in (R_Board err p', d'))"
| "drv_call lib (C_InitCAN t i c p) d = (let (err, p', d') = fInitCan lib t i c p d in (R_Config err p', d'))"
| "drv_call lib (C_ReadErrInfo t i c p) d = (let (err, p', d') = fReadErrInfo lib t i c p d in (R_Err err p', d'))"
| "drv_call lib (C_ReadCANStatus t i c p) d = (let (err, p', d') = fReadCanStatus lib t i c p d in (R_Status err p', d'))"
| "drv_call lib (C_GetReference t i c k p) d = (let (err, p', d') = fGetReference lib t i c k p d in (R_Ref err p', d'))"
| "drv_call lib (C_SetReference t i c k p) d = (let (err, p', d') = fSetReference lib t i c k p d in (R_Ref err p', d'))"
| "drv_call lib (C_GetReceiveNum t i c) d = (let (err, d') = fGetReceiveNum lib t i c d in (R_Plain err, d'))"
| "drv_call lib (C_ClearBuffer t i c) d = (let (err, d') = fClearBuffer lib t i c d in (R_Plain err, d'))"
| "drv_call lib (C_StartCAN t i c) d = (let (err, d') = fStartCan lib t i c d in (R_Plain err, d'))"
| "drv_call lib (C_ResetCAN t i c) d = (let (err, d') = fResetCan lib t i c d in (R_Plain err, d'))"
| "drv_call lib (C_Transmit t i c p n) d = (let (err, p', d') = fTransmit lib t i c p n d in (R_Objs err p', d'))"
| "drv_call lib (C_Receive t i c p n w) d = (let (err, p', d') = fReceive lib t i c p n w d in (R_Objs err p', d'))"

fun refused :: "vci_call \<Rightarrow> vci_reply" where
  "refused (C_ReadBoardInfo t i p) = R_Board 0 p"
| "refused (C_InitCAN t i c p) = R_Config 0 p"
| "refused (C_ReadErrInfo t i c p) = R_Err 0 p"
| "refused (C_ReadCANStatus t i c p) = R_Status 0 p"
| "refused (C_GetReference t i c k p) = R_Ref 0 p"
| "refused (C_SetReference t i c k p) = R_Ref 0 p"
| "refused (C_GetReceiveNum t i c) = R_Plain 0"
| "refused (C_ClearBuffer t i c) = R_Plain 0"
| "refused (C_StartCAN t i c) = R_Plain 0"
| "refused (C_ResetCAN t i c) = R_Plain 0"
| "refused (C_Transmit t i c p n) = R_Objs 0 p"
| "refused (C_Receive t i c p n w) = R_Objs 0 p"

section \<open>Routing backends\<close>

text \<open>
  The contract of a backend that forwards calls to drivers: \<open>route\<close> says which library, if
  any, serves a device type; a routed call is the driver's, result and effect; any other
  call is refused and leaves the driver state alone.
\<close>

fun vci_run :: "(vci_call \<Rightarrow> 'd \<Rightarrow> vci_reply \<times> 'd) \<Rightarrow> vci_call list \<Rightarrow> 'd \<Rightarrow> vci_reply list \<times> 'd" where
  "vci_run call [] d = ([], d)"
| "vci_run call (c # cs) d =
     (let (r, d1) = call c d; (rs, d2) = vci_run call cs d1 in (r # rs, d2))"

lemma vci_run_cong:
  "(\<And>c d. c \<in> set cs \<Longrightarrow> f c d = g c d) \<Longrightarrow> vci_run f cs d = vci_run g cs d"
  by (induction cs arbitrary: d) (simp_all split: prod.split)

lemma vci_run_refused: "vci_run (\<lambda>c d. (refused c, d)) cs d = (map refused cs, d)"
  by (induction cs) simp_all

lemma vci_run_filter:
  "(\<And>c d. c \<in> set cs \<Longrightarrow> \<not> P c \<Longrightarrow> snd (f c d) = d) \<Longrightarrow>
   snd (vci_run f cs d) = snd (vci_run f (filter P cs) d)"
  by (induction cs arbitrary: d) (simp_all add: case_prod_beta Let_def)

locale vci_router =
  fixes route :: "'s \<Rightarrow> DWORD \<Rightarrow> 'd dll_load_dll_type option"
    and call :: "'s \<Rightarrow> vci_call \<Rightarrow> 'd \<Rightarrow> vci_reply \<times> 'd"
  assumes call_routed: "route s (call_type c) = Some lib \<Longrightarrow> call s c d = drv_call lib c d"
    and call_unrouted: "route s (call_type c) = None \<Longrightarrow> call s c d = (refused c, d)"
begin

lemma run_routed:
  "list_all (\<lambda>c. route s (call_type c) = Some lib) cs \<Longrightarrow>
   vci_run (call s) cs d = vci_run (drv_call lib) cs d"
  by (rule vci_run_cong) (simp add: call_routed list_all_iff)

lemma run_unrouted:
  assumes "list_all (\<lambda>c. route s (call_type c) = None) cs"
  shows "vci_run (call s) cs d = (map refused cs, d)"
proof -
  have "vci_run (call s) cs d = vci_run (\<lambda>c d. (refused c, d)) cs d"
    by (rule vci_run_cong) (use assms in \<open>simp add: call_unrouted list_all_iff\<close>)
  then show ?thesis by (simp add: vci_run_refused)
qed

text \<open>Calls for devices without a driver do not disturb the calls for the others.\<close>

lemma run_skips_unrouted:
  assumes "list_all (\<lambda>c. route s (call_type c) = None \<or> route s (call_type c) = Some lib) cs"
  shows "snd (vci_run (call s) cs d)
    = snd (vci_run (drv_call lib) (filter (\<lambda>c. route s (call_type c) \<noteq> None) cs) d)"
proof -
  have "snd (vci_run (call s) cs d) = snd (vci_run (call s) (filter (\<lambda>c. route s (call_type c) \<noteq> None) cs) d)"
    by (rule vci_run_filter) (simp add: call_unrouted)
  also have "vci_run (call s) (filter (\<lambda>c. route s (call_type c) \<noteq> None) cs) d
      = vci_run (drv_call lib) (filter (\<lambda>c. route s (call_type c) \<noteq> None) cs) d"
    by (rule vci_run_cong) (use assms in \<open>auto simp: call_routed list_all_iff\<close>)
  finally show ?thesis .
qed

end

end
