(* ===== verification/Host.thy ===== *)
theory Host
  imports Ini Vendor_Dll
begin

text \<open>
  The machine the library runs on, as far as the sources use it: the file system, the
  dynamic loader, \<open>boost::conversion::try_lexical_convert\<close>, the iteration order of
  \<open>std::unordered_map\<close>, and whether plain \<open>char\<close> is unsigned. They are fields of a record
  that is an argument of the operations that use them. \<open>getexepath\<close> is
  libControlCAN/inc/misc.hpp on Linux.
\<close>

record 'd host =
  host_readlink :: "string option"           \<comment> \<open>the link /proc/self/exe, \<open>None\<close> on error\<close>
  host_parent :: "string \<Rightarrow> string"
  host_join :: "string \<Rightarrow> string \<Rightarrow> string"
  host_exists :: "string \<Rightarrow> bool"
  host_text :: "string \<Rightarrow> string option"       \<comment> \<open>the content of a file that can be opened\<close>
  host_load :: "string \<Rightarrow> 'd shared_library option"
  host_lex :: "string \<Rightarrow> DWORD option"
  host_order :: "keys \<Rightarrow> (string \<times> string) list"
  host_uchar :: bool                         \<comment> \<open>plain \<open>char\<close> is unsigned\<close>

definition getexepath :: "'d host \<Rightarrow> string" where
  "getexepath h = (case host_readlink h of Some result \<Rightarrow> result | None \<Rightarrow> [])"

end
