(* ===== verification/Hex_Dump.thy ===== *)
theory Hex_Dump
  imports Usbcan
begin

text \<open>
  include/hex_dump.hpp: binary to hexadecimal text and back. The stream-based printers
  (\<open>bin2hex_dump\<close>, \<open>bin2hex\<close>) are the reference, \<open>bin2hex_fast\<close> and
  \<open>bin2hex_fast2\<close> the table-driven versions that the protocol uses;
  \<open>hex_string_to_bin\<close> and \<open>hex_string_to_bin_fastest\<close> read the text back. All buffers
  are bounded, so writing or reading outside them is a fault of the model.
\<close>

section \<open>The stream-based printers\<close>

text \<open>The part of a \<open>std::ostringstream\<close> that the printers use.\<close>

record ostringstream =
  oss_str :: string
  oss_hex :: bool
  oss_upper :: bool
  oss_fill :: char

definition fresh_oss :: ostringstream where
  "fresh_oss = \<lparr>oss_str = [], oss_hex = False, oss_upper = False, oss_fill = CHR '' ''\<rparr>"

definition digit_char :: "bool \<Rightarrow> nat \<Rightarrow> char" where
  "digit_char up n = (if up then ''0123456789ABCDEF'' else ''0123456789abcdef'') ! n"

text \<open>\<open>oss << std::setw(2) << v\<close> for an unsigned value below 256, in the stream's base.\<close>

definition show_int :: "bool \<Rightarrow> bool \<Rightarrow> nat \<Rightarrow> string" where
  "show_int hex up v =
     (if hex then (if v < 16 then [digit_char up v] else [digit_char up (v div 16), digit_char up (v mod 16)])
      else (if v < 10 then [digit_char up v]
            else if v < 100 then [digit_char up (v div 10), digit_char up (v mod 10)]
            else [digit_char up (v div 100), digit_char up (v div 10 mod 10), digit_char up (v mod 10)]))"

definition put_w2 :: "ostringstream \<Rightarrow> nat \<Rightarrow> ostringstream" where
  "put_w2 oss v =
     (let t = show_int (oss_hex oss) (oss_upper oss) v
      in oss\<lparr>oss_str := oss_str oss @ replicate (2 - length t) (oss_fill oss) @ t\<rparr>)"

definition put_char :: "ostringstream \<Rightarrow> char \<Rightarrow> ostringstream" where
  "put_char oss c = oss\<lparr>oss_str := oss_str oss @ [c]\<rparr>"

fun dump_loop :: "ostringstream \<Rightarrow> BYTE list \<Rightarrow> ostringstream" where
  "dump_loop oss [] = oss"
| "dump_loop oss (b # bs) =
     dump_loop (put_char (put_w2 (oss\<lparr>oss_fill := CHR ''0''\<rparr>) (unat b)) (CHR '' '')) bs"

definition bin2hex_dump :: "ostringstream \<Rightarrow> BYTE list \<Rightarrow> ostringstream \<times> string" where
  "bin2hex_dump oss pbin =
     (let o1 = dump_loop (oss\<lparr>oss_hex := True, oss_upper := False\<rparr>) pbin;
          o2 = o1\<lparr>oss_hex := False, oss_fill := CHR '' ''\<rparr>
      in (o2, oss_str o2))"

fun bin2hex_loop :: "ostringstream \<Rightarrow> BYTE list \<Rightarrow> ostringstream" where
  "bin2hex_loop oss [] = oss"
| "bin2hex_loop oss (b # bs) = bin2hex_loop (put_w2 (oss\<lparr>oss_fill := CHR ''0''\<rparr>) (unat b)) bs"

definition bin2hex_oss :: "ostringstream \<Rightarrow> BYTE list \<Rightarrow> ostringstream \<times> string" where
  "bin2hex_oss oss pbin =
     (let o1 = bin2hex_loop (oss\<lparr>oss_hex := True, oss_upper := False\<rparr>) pbin;
          o2 = o1\<lparr>oss_hex := False, oss_fill := CHR '' ''\<rparr>
      in (o2, oss_str o2))"

text \<open>The overloads on a container or on a pointer and a length create the stream.\<close>

definition bin2hex_dump_of :: "BYTE list \<Rightarrow> string" where
  "bin2hex_dump_of bin = snd (bin2hex_dump fresh_oss bin)"

definition bin2hex_of :: "BYTE list \<Rightarrow> string" where
  "bin2hex_of pbin = snd (bin2hex_oss fresh_oss pbin)"

section \<open>Table-driven printing\<close>

definition hexmap :: string where
  "hexmap = ''0123456789abcdef''"

definition hex_hi :: "BYTE \<Rightarrow> char" where
  "hex_hi b = hexmap ! unat (drop_bit 4 (b AND 0xF0))"

definition hex_lo :: "BYTE \<Rightarrow> char" where
  "hex_lo b = hexmap ! unat (b AND 0x0F)"

fun do_conv :: "string \<Rightarrow> nat \<Rightarrow> BYTE list \<Rightarrow> string res" where
  "do_conv buf pdst [] = Inr buf"
| "do_conv buf pdst (b # psrc) =
     and_then (store buf pdst [hex_hi b]) (\<lambda>buf1.
     and_then (store buf1 (pdst + 1) [hex_lo b]) (\<lambda>buf2.
     do_conv buf2 (pdst + 2) psrc))"

text \<open>
  An argument of the variadic \<open>bin2hex_fast\<close> is a C string or a POD object (given by value
  or through a pointer), whose object representation is printed.
\<close>

datatype hexarg = CStr string | Pod "BYTE list"

fun bin2hex_fast :: "string \<Rightarrow> nat \<Rightarrow> hexarg list \<Rightarrow> (string \<times> nat) res" where
  "bin2hex_fast buf dst [] = and_then (store buf dst [NUL]) (\<lambda>b. Inr (b, 0))"
| "bin2hex_fast buf dst (CStr src # rest) =
     (let src_bytes = strlen src in
      and_then (store buf dst (take src_bytes src)) (\<lambda>b.
      and_then (bin2hex_fast b (dst + src_bytes) rest) (\<lambda>(b', rest_size).
      Inr (b', src_bytes + rest_size))))"
| "bin2hex_fast buf dst (Pod psrc # rest) =
     (let bytes = length psrc in
      and_then (do_conv buf dst psrc) (\<lambda>b.
      and_then (bin2hex_fast b (dst + bytes * 2) rest) (\<lambda>(b', rest_size).
      Inr (b', bytes * 2 + rest_size))))"

definition bin2hex_fast2 :: "BYTE list \<Rightarrow> string res" where
  "bin2hex_fast2 p = do_conv (replicate (length p * 2) (CHR '' '')) 0 p"

section \<open>Reading hexadecimal text\<close>

definition hashmap32 :: "BYTE list" where
  "hashmap32 = [0x00, 0x01, 0x02, 0x03, 0x04, 0x05, 0x06, 0x07,
                0x08, 0x09, 0x00, 0x00, 0x00, 0x00, 0x00, 0x00,
                0x00, 0x0a, 0x0b, 0x0c, 0x0d, 0x0e, 0x0f, 0x00,
                0x00, 0x00, 0x00, 0x00, 0x00, 0x00, 0x00, 0x00]"

definition idx32 :: "char \<Rightarrow> nat" where
  "idx32 c = unat (((of_char c :: BYTE) AND 0x1F) XOR 0x10)"

text \<open>
  The loop reads two characters per byte; on a string of odd length the second read of the
  last round is \<open>str[str.length()]\<close>, which is NUL.
\<close>

fun hex_string_to_bin :: "string \<Rightarrow> BYTE list" where
  "hex_string_to_bin [] = []"
| "hex_string_to_bin [c0] =
     [push_bit 4 (hashmap32 ! idx32 c0) OR hashmap32 ! idx32 NUL]"
| "hex_string_to_bin (c0 # c1 # str) =
     (push_bit 4 (hashmap32 ! idx32 c0) OR hashmap32 ! idx32 c1) # hex_string_to_bin str"

definition hashmap103 :: "BYTE list" where
  "hashmap103 = replicate 16 0 @ replicate 21 0
     @ replicate 11 0 @ [0, 1, 2, 3, 4, 5, 6, 7, 8, 9]
     @ replicate 7 0
     @ [10, 11, 12, 13, 14, 15]
     @ replicate 13 0
     @ replicate 13 0
     @ [10, 11, 12, 13, 14, 15]"

text \<open>
  \<open>hex_string_to_bin_fastest\<close>: \<open>src\<close> is the readable memory at the source pointer,
  \<open>out\<close> the writable memory and \<open>off\<close> the position of the destination pointer in it.
\<close>

function hex_to_bin_loop :: "string \<Rightarrow> nat \<Rightarrow> nat \<Rightarrow> BYTE list \<Rightarrow> nat \<Rightarrow> BYTE list res" where
  "hex_to_bin_loop src srcLen pos out off =
     (if pos < srcLen then
        and_then (fetch src (pos + 0)) (\<lambda>c0.
        and_then (fetch src (pos + 1)) (\<lambda>c1.
        and_then (fetch hashmap103 (of_char c0)) (\<lambda>h0.
        and_then (fetch hashmap103 (of_char c1)) (\<lambda>h1.
        and_then (store out (off + pos div 2) [push_bit 4 h0 OR h1]) (\<lambda>out'.
        hex_to_bin_loop src srcLen (pos + 2) out' off)))))
      else Inr out)"
  by pat_completeness auto
termination
  by (relation "measure (\<lambda>(src, srcLen, pos, out, off). srcLen - pos)") auto

declare hex_to_bin_loop.simps [simp del]

definition hex_string_to_bin_fastest :: "string \<Rightarrow> nat \<Rightarrow> BYTE list \<Rightarrow> nat \<Rightarrow> BYTE list res" where
  "hex_string_to_bin_fastest src srcLen out off = hex_to_bin_loop src srcLen 0 out off"

text \<open>The overloads on \<open>std::string\<close>: the readable memory includes the terminator.\<close>

definition hex_string_to_bin_fastest_into :: "string \<Rightarrow> BYTE list \<Rightarrow> BYTE list res" where
  "hex_string_to_bin_fastest_into str out =
     hex_string_to_bin_fastest (str @ [NUL]) (length str) out 0"

definition hex_string_to_bin_fastest_vec :: "string \<Rightarrow> BYTE list res" where
  "hex_string_to_bin_fastest_vec str =
     hex_string_to_bin_fastest_into str (replicate (length str div 2) 0)"

section \<open>Specification vocabulary\<close>

definition hex_byte :: "BYTE \<Rightarrow> string" where
  "hex_byte b = [hex_hi b, hex_lo b]"

definition hex_text :: "BYTE list \<Rightarrow> string" where
  "hex_text bs = concat (map hex_byte bs)"

fun arg_text :: "hexarg \<Rightarrow> string" where
  "arg_text (CStr s) = cstr s"
| "arg_text (Pod bs) = hex_text bs"

definition wire_text :: "hexarg list \<Rightarrow> string" where
  "wire_text args = concat (map arg_text args)"

definition is_hex :: "char \<Rightarrow> bool" where
  "is_hex c \<longleftrightarrow> c \<in> set ''0123456789abcdefABCDEF''"

section \<open>The printers\<close>

lemma hex_text_simps [simp]:
  "hex_text [] = []" "hex_text (b # bs) = hex_hi b # hex_lo b # hex_text bs"
  "hex_text (as @ bs) = hex_text as @ hex_text bs"
  by (simp_all add: hex_text_def hex_byte_def)

lemma length_hex_text [simp]: "length (hex_text bs) = 2 * length bs"
  by (induction bs) auto

lemma wire_text_simps [simp]:
  "wire_text [] = []" "wire_text (a # as) = arg_text a @ wire_text as"
  by (simp_all add: wire_text_def)

lemma nibble_bounds:
  "unat (drop_bit 4 ((b :: BYTE) AND 0xF0)) = unat b div 16" "unat ((b :: BYTE) AND 0x0F) = unat b mod 16"
proof -
  have m: "(b AND 0x0F) = take_bit 4 b"
    by (simp add: take_bit_eq_mask mask_eq_exp_minus_1)
  then show "unat (b AND 0x0F) = unat b mod 16"
    by (simp add: unsigned_take_bit_eq take_bit_eq_mod unat_mod)
  have "drop_bit 4 (b AND 0xF0) = drop_bit 4 b"
  proof (rule bit_word_eqI)
    fix n
    assume "n < LENGTH(8)"
    then have "n \<in> {0, 1, 2, 3, 4, 5, 6, 7}" by auto
    then show "bit (drop_bit 4 (b AND 0xF0)) n = bit (drop_bit 4 b) n"
      by (auto simp: bit_drop_bit_eq bit_and_iff dest: bit_imp_le_length)
  qed
  then show "unat (drop_bit 4 (b AND 0xF0)) = unat b div 16"
    by (simp add: drop_bit_eq_div unat_div)
qed

lemma unat_byte_bounds: "unat (b :: BYTE) div 16 < 16" "unat (b :: BYTE) mod 16 < 16"
  using unsigned_less [of b, where ?'a = nat] by auto

lemma hex_chars: "hex_hi b = hexmap ! (unat b div 16)" "hex_lo b = hexmap ! (unat b mod 16)"
  by (simp_all only: hex_hi_def hex_lo_def nibble_bounds)

lemma hexmap_digit: "n < 16 \<Longrightarrow> digit_char False n = hexmap ! n"
  by (simp add: digit_char_def hexmap_def)

lemma hexmap_0: "hexmap ! 0 = CHR ''0''"
  by (simp add: hexmap_def)

text \<open>With width 2 and fill 0 the stream prints exactly the two table characters.\<close>

lemma put_w2_hex:
  assumes "oss_hex oss" "\<not> oss_upper oss" "oss_fill oss = CHR ''0''"
  shows "put_w2 oss (unat (b :: BYTE)) = oss\<lparr>oss_str := oss_str oss @ hex_byte b\<rparr>"
proof -
  have "replicate (2 - length (show_int True False (unat b))) (CHR ''0'') @ show_int True False (unat b)
      = hex_byte b"
    using unat_byte_bounds [of b]
    by (auto simp: show_int_def hex_byte_def hex_chars hexmap_digit hexmap_0 numeral_2_eq_2)
  then show ?thesis using assms by (simp add: put_w2_def Let_def)
qed

lemma bin2hex_loop_spec:
  "oss_hex oss \<Longrightarrow> \<not> oss_upper oss \<Longrightarrow> bs \<noteq> [] \<Longrightarrow>
   bin2hex_loop oss bs = oss\<lparr>oss_fill := CHR ''0'', oss_str := oss_str oss @ hex_text bs\<rparr>"
proof (induction bs arbitrary: oss)
  case Nil
  then show ?case by simp
next
  case (Cons b bs)
  then show ?case
    by (cases "bs = []") (simp_all add: put_w2_hex hex_byte_def)
qed

lemma bin2hex_oss_spec: "snd (bin2hex_oss oss bs) = oss_str oss @ hex_text bs"
  by (cases "bs = []") (simp_all add: bin2hex_oss_def Let_def bin2hex_loop_spec)

lemma dump_loop_spec:
  "oss_hex oss \<Longrightarrow> \<not> oss_upper oss \<Longrightarrow>
   oss_str (dump_loop oss bs) = oss_str oss @ concat (map (\<lambda>b. hex_byte b @ '' '') bs)"
  by (induction bs arbitrary: oss) (simp_all add: put_w2_hex put_char_def)

lemma bin2hex_dump_spec:
  "snd (bin2hex_dump oss bs) = oss_str oss @ concat (map (\<lambda>b. hex_byte b @ '' '') bs)"
  by (simp add: bin2hex_dump_def Let_def dump_loop_spec)

section \<open>Table-driven printing writes the same text\<close>

lemma do_conv_eq: "pdst \<le> length buf \<Longrightarrow> do_conv buf pdst bs = store buf pdst (hex_text bs)"
proof (induction bs arbitrary: buf pdst)
  case Nil
  then show ?case by simp
next
  case (Cons b bs)
  have two: "and_then (store buf pdst [hex_hi b]) (\<lambda>b1. store b1 (pdst + 1) [hex_lo b])
      = store buf pdst [hex_hi b, hex_lo b]"
    using store_append [of buf pdst "[hex_hi b]" "[hex_lo b]"] by simp
  show ?case
  proof (cases "pdst + 2 \<le> length buf")
    case True
    then obtain b2 where b2: "store buf pdst [hex_hi b, hex_lo b] = Inr b2"
      by (simp add: store_def)
    then have len: "length b2 = length buf" by (rule store_length)
    have "do_conv buf pdst (b # bs) = do_conv b2 (pdst + 2) bs"
      using two b2 by (auto simp: and_then_Inr_iff)
    also have "\<dots> = store b2 (pdst + 2) (hex_text bs)"
      using Cons.IH True len by simp
    also have "\<dots> = store buf pdst (hex_text (b # bs))"
      using store_append [of buf pdst "[hex_hi b, hex_lo b]" "hex_text bs"] b2 by simp
    finally show ?thesis .
  next
    case False
    then have "store buf pdst [hex_hi b, hex_lo b] = Inl Write_Overrun"
      by (simp add: store_def)
    with two have "do_conv buf pdst (b # bs) = Inl Write_Overrun"
      by (auto simp: and_then_Inl_iff)
    with False show ?thesis by (simp add: store_def)
  qed
qed

lemma take_strlen: "take (strlen s) s = cstr s" "take (length (cstr s)) s = cstr s"
  by (simp_all add: strlen_def cstr_def takeWhile_eq_take [symmetric])

lemma bin2hex_fast_store:
  "dst \<le> length buf \<Longrightarrow>
   bin2hex_fast buf dst args =
     and_then (store buf dst (wire_text args @ [NUL])) (\<lambda>b. Inr (b, length (wire_text args)))"
proof (induction args arbitrary: buf dst)
  case Nil
  then show ?case by simp
next
  case (Cons a rest)
  let ?t = "arg_text a"
  have step: "bin2hex_fast buf dst (a # rest) =
      and_then (store buf dst ?t) (\<lambda>b.
      and_then (bin2hex_fast b (dst + length ?t) rest) (\<lambda>(b', n). Inr (b', length ?t + n)))"
    using Cons.prems
    by (cases a) (simp_all add: Let_def take_strlen do_conv_eq strlen_def mult.commute)
  show ?case
  proof (cases "store buf dst ?t")
    case (Inl e)
    then have "e = Write_Overrun" "length buf < dst + length ?t"
      by (auto simp: store_def split: if_splits)
    with Inl step show ?thesis by (simp add: store_def)
  next
    case (Inr b)
    then have len: "length b = length buf" "dst + length ?t \<le> length b"
      by (auto dest: store_length simp: store_def split: if_splits)
    have "store buf dst (?t @ wire_text rest @ [NUL]) = store b (dst + length ?t) (wire_text rest @ [NUL])"
      using store_append [of buf dst ?t "wire_text rest @ [NUL]"] Inr by simp
    then show ?thesis
      using step Inr Cons.IH [OF len(2)]
      by (cases "store b (dst + length ?t) (wire_text rest @ [NUL])") simp_all
  qed
qed

section \<open>Reading back\<close>

definition hex_val :: "char \<Rightarrow> BYTE" where
  "hex_val c = hashmap103 ! of_char c"

fun unhex :: "string \<Rightarrow> BYTE list" where
  "unhex (c0 # c1 # s) = (push_bit 4 (hex_val c0) OR hex_val c1) # unhex s"
| "unhex _ = []"

lemma length_unhex [simp]: "length (unhex s) = length s div 2"
  by (induction s rule: unhex.induct) auto

lemma length_hashmap103 [simp]: "length hashmap103 = 103"
  by (simp add: hashmap103_def)

text \<open>Both tables agree on every hexadecimal digit, and the large one is not overrun.\<close>

lemma hex_digit_tables:
  "\<forall>c \<in> set ''0123456789abcdefABCDEF''.
     of_char c < (103 :: nat) \<and> hashmap32 ! idx32 c = hashmap103 ! of_char c"
  by (simp add: hashmap103_def hashmap32_def idx32_def nth_append)

lemma is_hex_index: "is_hex c \<Longrightarrow> of_char c < (103 :: nat)"
  using hex_digit_tables by (auto simp: is_hex_def)

lemma is_hex_tables: "is_hex c \<Longrightarrow> hashmap32 ! idx32 c = hex_val c"
  using hex_digit_tables by (auto simp: is_hex_def hex_val_def)

lemma is_hex_hexmap: "n < 16 \<Longrightarrow> is_hex (hexmap ! n)"
  by (auto simp: is_hex_def hexmap_def nth_Cons' split: if_splits)

lemma hex_val_hexmap:
  assumes "n < 16"
  shows "hex_val (hexmap ! n) = of_nat n"
proof -
  have "\<forall>m \<in> set [0..<16]. hex_val (hexmap ! m) = of_nat m"
    by (simp add: upt_rec hexmap_def hex_val_def hashmap103_def nth_append)
  with assms show ?thesis by auto
qed

lemma hex_val_byte: "push_bit 4 (hex_val (hex_hi b)) OR hex_val (hex_lo b) = b"
proof -
  have "hex_val (hex_hi b) = drop_bit 4 b"
    using unat_byte_bounds [of b]
    by (simp add: hex_chars hex_val_hexmap word_unat_eq_iff drop_bit_eq_div unat_div unat_of_nat)
  moreover have "hex_val (hex_lo b) = take_bit 4 b"
    using unat_byte_bounds [of b]
    by (simp add: hex_chars hex_val_hexmap word_unat_eq_iff take_bit_eq_mod unat_mod unat_of_nat)
  moreover have "push_bit 4 (drop_bit 4 b) OR take_bit 4 b = b"
    by (rule bit_eqI) (auto simp: bit_or_iff bit_push_bit_iff bit_drop_bit_eq bit_take_bit_iff not_less)
  ultimately show ?thesis by simp
qed

lemma is_hex_hi_lo [simp]: "is_hex (hex_hi b)" "is_hex (hex_lo b)"
  using unat_byte_bounds [of b] by (simp_all add: hex_chars is_hex_hexmap)

lemma is_hex_text: "list_all is_hex (hex_text bs)"
  by (induction bs) auto

lemma unhex_hex_text [simp]: "unhex (hex_text bs) = bs"
  by (induction bs) (simp_all add: hex_val_byte)

lemma unhex_append: "even (length s) \<Longrightarrow> unhex (s @ t) = unhex s @ unhex t"
  by (induction s rule: unhex.induct) auto

lemma hex_string_to_bin_unhex:
  "list_all is_hex s \<Longrightarrow> even (length s) \<Longrightarrow> hex_string_to_bin s = unhex s"
  by (induction s rule: hex_string_to_bin.induct) (auto simp: is_hex_tables)

text \<open>
  From an even position, the decoding loop writes the bytes of a run of digit pairs in one
  run, faults exactly when they do not fit, and goes on behind them.
\<close>

lemma hex_to_bin_loop_run:
  assumes "list_all is_hex s" and "even (length s)" and "even pos"
    and "length pre = pos" and "off + pos div 2 \<le> length out" and "pos + length s \<le> n"
  shows "hex_to_bin_loop (pre @ s @ post) n pos out off
       = and_then (store out (off + pos div 2) (unhex s)) (\<lambda>o'.
           hex_to_bin_loop (pre @ s @ post) n (pos + length s) o' off)"
  using assms
proof (induction s arbitrary: pre pos out rule: unhex.induct)
  case (1 c0 c1 s)
  let ?v = "push_bit 4 (hex_val c0) OR hex_val c1"
  let ?src = "pre @ (c0 # c1 # s) @ post"
  have hex: "of_char c0 < (103 :: nat)" "of_char c1 < (103 :: nat)"
    using 1(2) by (auto intro: is_hex_index)
  have rec: "hex_to_bin_loop ?src n pos out off =
     and_then (store out (off + pos div 2) [?v]) (\<lambda>out'. hex_to_bin_loop ?src n (pos + 2) out' off)"
    using hex 1(5,7)
    by (subst hex_to_bin_loop.simps) (simp add: nth_append hex_val_def)
  show ?case
  proof (cases "store out (off + pos div 2) [?v]")
    case (Inl e)
    then have "e = Write_Overrun" "length out < off + pos div 2 + 1"
      by (auto simp: store_def split: if_splits)
    then show ?thesis using rec Inl by (simp add: store_def)
  next
    case (Inr out')
    then have len: "length out' = length out" "off + pos div 2 + 1 \<le> length out"
      by (auto dest: store_length simp: store_def split: if_splits)
    have "hex_to_bin_loop ((pre @ [c0, c1]) @ s @ post) n (pos + 2) out' off
        = and_then (store out' (off + (pos + 2) div 2) (unhex s)) (\<lambda>o'.
            hex_to_bin_loop ((pre @ [c0, c1]) @ s @ post) n ((pos + 2) + length s) o' off)"
      using 1(2,3,4,5,7) len by (intro 1(1)) auto
    then show ?thesis
      using rec Inr store_append [of out "off + pos div 2" "[?v]" "unhex s"]
      by (simp add: add.commute add.left_commute)
  qed
qed auto

lemma hex_string_to_bin_fastest_store:
  assumes "list_all is_hex s" and "even (length s)" and "off \<le> length out"
  shows "hex_string_to_bin_fastest (s @ post) (length s) out off = store out off (unhex s)"
proof -
  have "hex_to_bin_loop (s @ post) (length s) (length s) o' off = Inr o'" for o'
    by (simp add: hex_to_bin_loop.simps)
  then have "hex_to_bin_loop (s @ post) (length s) 0 out off = and_then (store out off (unhex s)) Inr"
    using hex_to_bin_loop_run [OF assms(1,2), of 0 "[]" off out "length s" post] assms(3) by simp
  then show ?thesis by (cases "store out off (unhex s)") (simp_all add: hex_string_to_bin_fastest_def)
qed

lemma hex_fastest_vec_even:
  assumes "list_all is_hex s" and "even (length s)"
  shows "hex_string_to_bin_fastest_vec s = Inr (unhex s)"
  using hex_string_to_bin_fastest_store [OF assms, of 0 "replicate (length s div 2) 0" "[NUL]"]
  by (simp add: hex_string_to_bin_fastest_vec_def hex_string_to_bin_fastest_into_def store_def)

lemma hex_fastest_vec_odd:
  assumes "list_all is_hex s" and "odd (length s)"
  shows "hex_string_to_bin_fastest_vec s = Inl Write_Overrun"
proof -
  from assms(2) obtain t c where s: "s = t @ [c]"
    by (metis append_butlast_last_id even_zero list.size(3))
  have t: "list_all is_hex t" "even (length t)" and c: "of_char c < (103 :: nat)"
    using assms by (auto simp: s intro: is_hex_index)
  let ?out = "replicate (length s div 2) 0"
  have half: "length s div 2 = length t div 2" using t(2) by (simp add: s)
  have st: "store ?out 0 (unhex t) = Inr (unhex t)" by (simp add: store_def half)
  have tail: "hex_to_bin_loop (t @ [c, NUL]) (length s) (length t) (unhex t) 0 = Inl Write_Overrun"
    using c by (subst hex_to_bin_loop.simps) (simp add: s store_def nth_append)
  show ?thesis
    using hex_to_bin_loop_run [OF t, of 0 "[]" 0 ?out "length s" "[c, NUL]"] st tail
    by (simp add: hex_string_to_bin_fastest_vec_def hex_string_to_bin_fastest_into_def
        hex_string_to_bin_fastest_def s)
qed

lemma do_conv_beyond: "length buf < pdst \<Longrightarrow> bs \<noteq> [] \<Longrightarrow> do_conv buf pdst bs = Inl Write_Overrun"
  by (cases bs) (simp_all add: store_def)

lemma bin2hex_fast_beyond: "length buf < dst \<Longrightarrow> bin2hex_fast buf dst args = Inl Write_Overrun"
proof (induction args arbitrary: dst)
  case Nil
  then show ?case by (simp add: store_def)
next
  case (Cons a args)
  show ?case
  proof (cases a)
    case (CStr s)
    with Cons show ?thesis by (simp add: store_def Let_def)
  next
    case (Pod bs)
    with Cons show ?thesis by (cases "bs = []") (simp_all add: do_conv_beyond Let_def)
  qed
qed

lemma is_hex_facts: "is_hex c \<Longrightarrow> c \<noteq> LF \<and> c \<noteq> NUL \<and> c \<noteq> CHR '',''"
  by (auto simp: is_hex_def)

lemma hex_text_no_ctrl: "LF \<notin> set (hex_text bs)" "NUL \<notin> set (hex_text bs)"
  using is_hex_text [of bs] is_hex_facts by (auto simp: list_all_iff)

section \<open>Properties\<close>

text \<open>
  C34: the variadic table-driven printer \<open>bin2hex_fast\<close> is exact. For every buffer, every
  destination and every sequence of arguments it writes the concatenated text of the
  arguments followed by one NUL in a single contiguous run, changes nothing else, returns
  the length of the text, and runs out of the buffer exactly when text and NUL do not fit.
\<close>

theorem bin2hex_fast_exact:
  "bin2hex_fast buf dst args =
     (if dst + length (wire_text args) + 1 \<le> length buf
      then Inr (take dst buf @ wire_text args @ NUL # drop (dst + length (wire_text args) + 1) buf,
                length (wire_text args))
      else Inl Write_Overrun)"
proof (cases "dst \<le> length buf")
  case True
  then show ?thesis by (simp add: bin2hex_fast_store store_def add.assoc)
next
  case False
  then show ?thesis by (simp add: bin2hex_fast_beyond)
qed

text \<open>
  C35: the optimised printer agrees with the stream-based reference on every input:
  \<open>bin2hex_fast2\<close> stays inside the string it allocates and produces what
  \<open>bin2hex\<close> prints through a string stream.
\<close>

theorem bin2hex_fast2_equals_reference: "bin2hex_fast2 p = Inr (bin2hex_of p)"
  by (simp add: bin2hex_fast2_def do_conv_eq store_def bin2hex_of_def bin2hex_oss_spec fresh_oss_def)

text \<open>
  C36: round trip. Printing any bytes and reading the text back yields the bytes, through
  either reader, with no access outside the buffers.
\<close>

theorem hex_roundtrip:
  "hex_string_to_bin_fastest_vec (bin2hex_of bs) = Inr bs \<and> hex_string_to_bin (bin2hex_of bs) = bs"
  by (simp add: bin2hex_of_def bin2hex_oss_spec fresh_oss_def hex_fastest_vec_even is_hex_text
      hex_string_to_bin_unhex)

text \<open>
  The two readers agree on every hexadecimal text of even length, upper and lower case
  mixed, and the fast one stays in bounds there.
\<close>

theorem hex_readers_agree:
  assumes "list_all is_hex s" and "even (length s)"
  shows "hex_string_to_bin_fastest_vec s = Inr (hex_string_to_bin s)"
  using assms by (simp add: hex_fastest_vec_even hex_string_to_bin_unhex)

theorem hex_readers_agree_witness:
  "hex_string_to_bin_fastest_vec ''1cFf'' = Inr (hex_string_to_bin ''1cFf'')"
  by (rule hex_readers_agree) (simp_all add: is_hex_def)

text \<open>
  On a hexadecimal text of odd length the vector-returning overload of
  \<open>hex_string_to_bin_fastest\<close> always writes one byte past the vector it allocated.
\<close>

theorem hex_fastest_odd_overrun:
  assumes "list_all is_hex s" and "odd (length s)"
  shows "hex_string_to_bin_fastest_vec s = Inl Write_Overrun"
  using assms by (rule hex_fastest_vec_odd)

theorem hex_fastest_odd_overrun_witness:
  "hex_string_to_bin_fastest_vec ''abc'' = Inl Write_Overrun"
  by (rule hex_fastest_odd_overrun) (simp_all add: is_hex_def)

end
