(* ===== verification/Can_Net.thy ===== *)
theory Can_Net
  imports Host Hex_Dump
begin

text \<open>
  libControlCAN/src/lib_control_can_imp_net.cc (CanImpCanNet), the backend that talks to
  the agent over TCP in lines of text.

  Every network operation starts one asynchronous operation and a deadline timer and runs
  the io context until no handler is left. The library boost::asio is not part of the
  sources: the order in which it calls the handlers and their arguments are an argument
  of the operation, a list of events, and what asio guarantees about such a list is the
  predicate \<open>admissible\<close> (and \<open>rx_admissible\<close> for reading): a handler runs once for
  each operation that was started, a timer reports an error only after it was cancelled,
  and the run ends when nothing is pending. The handlers themselves are the lambdas of
  the source.

  Regular expressions follow the ECMAScript grammar without multiline matching, as in
  libstdc++: the anchors match the two ends of the line only.
\<close>

section \<open>State\<close>

record can_net =
  net_connected :: bool       \<comment> \<open>\<open>_connected\<close>\<close>
  net_addr :: string          \<comment> \<open>\<open>_str_sock_addr\<close>\<close>
  net_port :: string          \<comment> \<open>\<open>_str_sock_port\<close>\<close>
  net_rx :: string            \<comment> \<open>the unread content of \<open>rx_buff_\<close>\<close>
  net_open :: bool            \<comment> \<open>\<open>client_socket_\<close> holds an established connection\<close>
  net_tx :: string            \<comment> \<open>what was written to the current connection\<close>

definition CanImpCanNet :: "'d host \<Rightarrow> can_net res option" where
  "CanImpCanNet h =
     (let s = \<lparr>net_connected = False, net_addr = [], net_port = [], net_rx = [], net_open = False, net_tx = []\<rparr>;
          ini_path = host_join h (host_parent h (getexepath h)) ''control_can.ini''
      in if host_exists h ini_path then
           map_option (\<lambda>r. and_then r (\<lambda>ini.
             let (ini1, addr) = lookup2 ini ''Server'' ''IpAddr'';
                 (ini2, port) = lookup2 ini1 ''Server'' ''IpPort''
             in Inr (s\<lparr>net_addr := addr, net_port := port\<rparr>)))
           (Ini_file (host_uchar h) ini_path (host_text h ini_path) True)
         else Some (Inr s))"

definition close_socket :: "can_net \<Rightarrow> can_net" where
  "close_socket s = s\<lparr>net_open := False\<rparr>"

definition CanImpCanNet_dtor :: "can_net \<Rightarrow> can_net" where
  "CanImpCanNet_dtor s = (if net_connected s then close_socket s else s)"

section \<open>Operations with a deadline\<close>

text \<open>\<open>errc::operation_canceled\<close> is also asio's \<open>operation_aborted\<close>; both values are those of Linux.\<close>

definition operation_canceled :: int where "operation_canceled = 125"
definition timed_out :: int where "timed_out = 110"

lemmas errc_defs = operation_canceled_def timed_out_def

datatype net_event = IoDone int nat | ReadDone int string | TimerDone int

text \<open>One operation and its timer: what is pending, whether the timer was cancelled while
  pending, the variable \<open>ec\<close> (or \<open>error\<close>) the handlers assign, the result of the operation.\<close>

record asio_op =
  op_io :: bool
  op_timer :: bool
  op_tcancel :: bool
  op_ec :: int
  op_sent :: nat
  op_result :: int

definition start_op :: asio_op where
  "start_op = \<lparr>op_io = True, op_timer = True, op_tcancel = False, op_ec = 0, op_sent = 0, op_result = 0\<rparr>"

definition cancel_timer :: "asio_op \<Rightarrow> asio_op" where
  "cancel_timer p = (if op_timer p then p\<lparr>op_tcancel := True\<rparr> else p)"

text \<open>The handlers of \<open>connect\<close>.\<close>

fun connect_event :: "net_event \<Rightarrow> asio_op \<Rightarrow> asio_op" where
  "connect_event (IoDone r n) p =
     (let p1 = p\<lparr>op_io := False, op_result := r, op_ec := r\<rparr>
      in if r \<noteq> operation_canceled then cancel_timer p1 else p1)"
| "connect_event (TimerDone t) p =
     (if t = 0 then p\<lparr>op_timer := False, op_ec := timed_out\<rparr> else p\<lparr>op_timer := False\<rparr>)"
| "connect_event (ReadDone r data) p = p"

text \<open>The handlers of \<open>write_line\<close>.\<close>

fun write_event :: "net_event \<Rightarrow> asio_op \<Rightarrow> asio_op" where
  "write_event (IoDone r n) p =
     (if r = 0 then cancel_timer p else p)\<lparr>op_io := False, op_result := r, op_sent := n, op_ec := r\<rparr>"
| "write_event (TimerDone t) p =
     (if t = 0 then p\<lparr>op_timer := False, op_ec := operation_canceled\<rparr> else p\<lparr>op_timer := False\<rparr>)"
| "write_event (ReadDone r data) p = p"

text \<open>
  What asio guarantees about a run; \<open>ok\<close> relates the result of the operation to the
  number of bytes transferred.
\<close>

fun admissible ::
  "(net_event \<Rightarrow> asio_op \<Rightarrow> asio_op) \<Rightarrow> (int \<Rightarrow> nat \<Rightarrow> bool) \<Rightarrow> asio_op \<Rightarrow> net_event list \<Rightarrow> bool" where
  "admissible h ok p [] \<longleftrightarrow> \<not> op_io p \<and> \<not> op_timer p"
| "admissible h ok p (IoDone r n # es) \<longleftrightarrow> op_io p \<and> ok r n \<and> admissible h ok (h (IoDone r n) p) es"
| "admissible h ok p (TimerDone t # es) \<longleftrightarrow>
     op_timer p \<and> (t = 0 \<or> t = operation_canceled \<and> op_tcancel p) \<and> admissible h ok (h (TimerDone t) p) es"
| "admissible h ok p (ReadDone r data # es) \<longleftrightarrow> False"

text \<open>A write transfers everything or reports an error; the value of an error is an \<open>int\<close>.\<close>

definition written :: "nat \<Rightarrow> int \<Rightarrow> nat \<Rightarrow> bool" where
  "written len r n \<longleftrightarrow> n \<le> len \<and> (r = 0 \<longrightarrow> n = len) \<and> \<bar>r\<bar> < 2 ^ 31"

text \<open>\<open>connect\<close>: resolving throws when the name is not known.\<close>

definition connect :: "(string \<Rightarrow> string \<Rightarrow> bool) \<Rightarrow> can_net \<Rightarrow> net_event list \<Rightarrow> (int \<times> can_net) res" where
  "connect resolve s es =
     (if resolve (net_addr s) (net_port s) then
        let p = fold connect_event es start_op
        in Inr (op_ec p, s\<lparr>net_open := (op_result p = 0), net_tx := []\<rparr>)
      else Inl Exception)"

text \<open>\<open>static_cast<int>(len)\<close>, and the comparison of a \<open>size_t\<close> with an \<open>int\<close>.\<close>

definition int_of_size :: "nat \<Rightarrow> int" where
  "int_of_size len = sint (of_nat len :: 32 word)"

definition size_neq :: "nat \<Rightarrow> int \<Rightarrow> bool" where
  "size_neq sz i \<longleftrightarrow> (of_nat sz :: 64 word) \<noteq> word_of_int i"

definition write_line :: "can_net \<Rightarrow> string \<Rightarrow> nat \<Rightarrow> net_event list \<Rightarrow> int \<times> int \<times> can_net" where
  "write_line s p len es =
     (let q = fold write_event es start_op;
          s' = s\<lparr>net_tx := net_tx s @ take (op_sent q) p\<rparr>
      in if op_ec q = 0 then (int_of_size len, op_ec q, s')
         else if op_ec q \<noteq> operation_canceled then (- \<bar>op_ec q\<bar>, op_ec q, s')
         else (0, op_ec q, s'))"

section \<open>Requests\<close>

abbreviation dword :: "DWORD \<Rightarrow> hexarg" where
  "dword w \<equiv> Pod (le_bytes 4 w)"

text \<open>
  The body the requests share: format the line into a local array of \<open>cap\<close> characters,
  write it, and drop the connection when an error was reported.
\<close>

definition disconnect :: "can_net \<Rightarrow> can_net" where
  "disconnect s = close_socket (s\<lparr>net_connected := False\<rparr>)"

definition net_request :: "nat \<Rightarrow> hexarg list \<Rightarrow> can_net \<Rightarrow> net_event list \<Rightarrow> (vciReturnType \<times> can_net) res" where
  "net_request cap args s es =
     and_then (bin2hex_fast (replicate cap NUL) 0 args) (\<lambda>(buff, size).
       let (ierror, ec, s1) = write_line s buff size es;
           s2 = (if ec \<noteq> 0 then disconnect s1 else s1)
       in Inr (if size_neq size ierror then STATUS_ERR else STATUS_OK, s2))"

definition net_VCI_OpenDevice ::
  "(string \<Rightarrow> string \<Rightarrow> bool) \<Rightarrow> can_net \<Rightarrow> DWORD \<Rightarrow> DWORD \<Rightarrow> DWORD \<Rightarrow> net_event list \<Rightarrow> net_event list
   \<Rightarrow> (vciReturnType \<times> can_net) res" where
  "net_VCI_OpenDevice resolve s deviceType deviceInd reserved ces wes =
     (if net_addr s = [] \<or> net_port s = [] then Inr (STATUS_NET_CONN_FAIL, s)
      else and_then
        (if \<not> net_connected s then
           and_then (connect resolve s ces) (\<lambda>(ec, s1). Inr (ec, if ec \<noteq> 0 then s1 else s1\<lparr>net_connected := True\<rparr>))
         else Inr (0, s)) (\<lambda>(ec, s1).
        if ec \<noteq> 0 then Inr (STATUS_NET_CONN_FAIL, s1)
        else net_request 128
               [CStr ''VCI_OpenDevice,'', dword deviceType, dword deviceInd, dword reserved, CStr [LF]] s1 wes))"

definition net_VCI_CloseDevice ::
  "can_net \<Rightarrow> DWORD \<Rightarrow> DWORD \<Rightarrow> net_event list \<Rightarrow> (vciReturnType \<times> can_net) res" where
  "net_VCI_CloseDevice s deviceType deviceInd es =
     (if \<not> net_connected s then Inr (STATUS_ERR, s)
      else and_then (net_request 128 [CStr ''VCI_CloseDevice,'', dword deviceType, dword deviceInd, CStr [LF]] s es)
        (\<lambda>(ret, s1). if ret = STATUS_ERR then Inr (STATUS_ERR, s1)
                     else Inr (STATUS_OK, (close_socket s1)\<lparr>net_connected := False\<rparr>)))"

definition net_VCI_ReadBoardInfo ::
  "can_net \<Rightarrow> DWORD \<Rightarrow> DWORD \<Rightarrow> VCI_BOARD_INFO option \<Rightarrow> vciReturnType" where
  "net_VCI_ReadBoardInfo s deviceType deviceInd pInfo = STATUS_ERR"

definition net_VCI_InitCAN ::
  "can_net \<Rightarrow> DWORD \<Rightarrow> DWORD \<Rightarrow> DWORD \<Rightarrow> VCI_INIT_CONFIG option \<Rightarrow> net_event list \<Rightarrow> (vciReturnType \<times> can_net) res" where
  "net_VCI_InitCAN s deviceType deviceInd canInd pInitConfig es =
     (if \<not> net_connected s then Inr (STATUS_ERR, s)
      else case pInitConfig of
        None \<Rightarrow> Inl Null_Deref
      | Some cfg \<Rightarrow> net_request 256 [CStr ''VCI_InitCAN,'', dword deviceType, dword deviceInd, dword canInd,
                      Pod (init_config_bytes cfg), CStr [LF]] s es)"

definition net_VCI_ReadErrInfo ::
  "can_net \<Rightarrow> DWORD \<Rightarrow> DWORD \<Rightarrow> DWORD \<Rightarrow> VCI_ERR_INFO option \<Rightarrow> net_event list \<Rightarrow> (vciReturnType \<times> can_net) res" where
  "net_VCI_ReadErrInfo s deviceType deviceInd canInd pErrInfo es =
     (if \<not> net_connected s then Inr (STATUS_ERR, s)
      else case pErrInfo of
        None \<Rightarrow> Inr (STATUS_ERR, s)
      | Some err \<Rightarrow> net_request 256 [CStr ''VCI_ReadErrInfo,'', dword deviceType, dword deviceInd, dword canInd,
                      Pod (err_info_bytes err), CStr [LF]] s es)"

definition net_VCI_ReadCANStatus ::
  "can_net \<Rightarrow> DWORD \<Rightarrow> DWORD \<Rightarrow> DWORD \<Rightarrow> VCI_CAN_STATUS option \<Rightarrow> vciReturnType" where
  "net_VCI_ReadCANStatus s deviceType deviceInd canInd pCANStatus = STATUS_ERR"

definition net_VCI_GetReference ::
  "can_net \<Rightarrow> DWORD \<Rightarrow> DWORD \<Rightarrow> DWORD \<Rightarrow> DWORD \<Rightarrow> BYTE list option \<Rightarrow> vciReturnType" where
  "net_VCI_GetReference s deviceType deviceInd canInd refType pData = STATUS_ERR"

definition net_VCI_SetReference ::
  "can_net \<Rightarrow> DWORD \<Rightarrow> DWORD \<Rightarrow> DWORD \<Rightarrow> DWORD \<Rightarrow> BYTE list option \<Rightarrow> vciReturnType" where
  "net_VCI_SetReference s deviceType deviceInd canInd refType pData = STATUS_ERR"

definition net_VCI_GetReceiveNum :: "can_net \<Rightarrow> DWORD \<Rightarrow> DWORD \<Rightarrow> DWORD \<Rightarrow> DWORD" where
  "net_VCI_GetReceiveNum s deviceType deviceInd canInd = 1"

definition net_VCI_ClearBuffer ::
  "can_net \<Rightarrow> DWORD \<Rightarrow> DWORD \<Rightarrow> DWORD \<Rightarrow> net_event list \<Rightarrow> (vciReturnType \<times> can_net) res" where
  "net_VCI_ClearBuffer s deviceType deviceInd canInd es =
     (if \<not> net_connected s then Inr (STATUS_ERR, s)
      else net_request 256 [CStr ''VCI_ClearBuffer,'', dword deviceType, dword deviceInd, dword canInd, CStr [LF]] s es)"

definition net_VCI_StartCAN ::
  "can_net \<Rightarrow> DWORD \<Rightarrow> DWORD \<Rightarrow> DWORD \<Rightarrow> net_event list \<Rightarrow> (vciReturnType \<times> can_net) res" where
  "net_VCI_StartCAN s deviceType deviceInd canInd es =
     (if \<not> net_connected s then Inr (STATUS_ERR, s)
      else net_request 256 [CStr ''VCI_StartCAN,'', dword deviceType, dword deviceInd, dword canInd, CStr [LF]] s es)"

definition net_VCI_ResetCAN ::
  "can_net \<Rightarrow> DWORD \<Rightarrow> DWORD \<Rightarrow> DWORD \<Rightarrow> net_event list \<Rightarrow> (vciReturnType \<times> can_net) res" where
  "net_VCI_ResetCAN s deviceType deviceInd canInd es =
     (if \<not> net_connected s then Inr (STATUS_ERR, s)
      else net_request 256 [CStr ''VCI_ResetCAN,'', dword deviceType, dword deviceInd, dword canInd, CStr [LF]] s es)"

section \<open>Transmit\<close>

text \<open>
  The loop from index \<open>i\<close> with \<open>n\<close> rounds left; \<open>sched i\<close> are the events of the
  \<open>i\<close>-th write. Only a reported error together with a negative result drops the connection.
\<close>

fun transmit_loop ::
  "DWORD \<Rightarrow> DWORD \<Rightarrow> DWORD \<Rightarrow> VCI_CAN_OBJ list option \<Rightarrow> (nat \<Rightarrow> net_event list) \<Rightarrow> nat \<Rightarrow> nat \<Rightarrow> can_net
   \<Rightarrow> (vciReturnType \<times> can_net) res" where
  "transmit_loop t ind c pSend sched i 0 s = Inr (STATUS_OK, s)"
| "transmit_loop t ind c pSend sched i (Suc n) s =
     (case pSend of
        None \<Rightarrow> Inl Null_Deref
      | Some objs \<Rightarrow>
          and_then (fetch objs i) (\<lambda>p.
          and_then (bin2hex_fast (replicate 256 NUL) 0
            [CStr ''VCI_Transmit,'', dword t, dword ind, dword c, Pod (can_obj_bytes p), CStr [LF]]) (\<lambda>(line_buff, write_len).
          let (ret, ec, s1) = write_line s line_buff write_len (sched i);
              s2 = (if ec \<noteq> 0 \<and> ret < 0 then disconnect s1 else s1)
          in if size_neq write_len ret then Inr (STATUS_ERR, s2)
             else transmit_loop t ind c pSend sched (Suc i) n s2)))"

definition net_VCI_Transmit ::
  "can_net \<Rightarrow> DWORD \<Rightarrow> DWORD \<Rightarrow> DWORD \<Rightarrow> VCI_CAN_OBJ list option \<Rightarrow> ULONG \<Rightarrow> (nat \<Rightarrow> net_event list)
   \<Rightarrow> (vciReturnType \<times> can_net) res" where
  "net_VCI_Transmit s deviceType deviceInd canInd pSend len sched =
     (if \<not> net_connected s then Inr (STATUS_ERR, s)
      else transmit_loop deviceType deviceInd canInd pSend sched 0 (unat len) s)"

section \<open>Receive\<close>

text \<open>The end of the match of \<open>_receive_pattern2\<close>, and the test with \<open>_hex_str_pattern2\<close>.\<close>

definition head_match :: "string \<Rightarrow> string \<Rightarrow> bool" where
  "head_match head str \<longleftrightarrow> take (length head) str = head
     \<and> length head + 32 \<le> length str \<and> list_all is_hex (take 32 (drop (length head) str))"

definition receive_pattern :: "string \<Rightarrow> nat option" where
  "receive_pattern str =
     (if head_match ''VCI_Receive,'' str then Some 44
      else if head_match ''VCI_Transmit,'' str then Some 45 else None)"

definition hex_str_pattern :: "string \<Rightarrow> bool" where
  "hex_str_pattern pl \<longleftrightarrow> pl \<noteq> [] \<and> even (length pl) \<and> list_all is_hex pl"

text \<open>
  The receiving array is its bytes \<open>mem\<close>; \<open>off\<close> is the offset of the object pointed to.
  The decoder writes as many bytes as the line has, not the size of an object.
\<close>

definition line_process :: "string \<Rightarrow> BYTE list \<Rightarrow> nat \<Rightarrow> (int \<times> BYTE list) res" where
  "line_process str mem off =
     (case receive_pattern str of
        None \<Rightarrow> Inr (- 1, mem)
      | Some e \<Rightarrow>
          if e = length str then Inr (- 1, mem)
          else let pl = drop e str in
            if \<not> hex_str_pattern pl \<or> length pl < sizeof_can_obj * 2 then Inr (- 1, mem)
            else and_then (hex_string_to_bin_fastest pl (length pl) mem off) (\<lambda>mem'. Inr (0, mem')))"

record rx_op =
  rx_io :: bool
  rx_timer :: bool
  rx_tcancel :: bool
  rx_ec :: int
  rx_buf :: string
  rx_mem :: "BYTE list"
  rx_obj :: nat      \<comment> \<open>\<open>can_objs_ - pReceive\<close>\<close>
  rx_len :: nat
  rx_cnt :: nat

definition rx_cancel_timer :: "rx_op \<Rightarrow> rx_op" where
  "rx_cancel_timer p = (if rx_timer p then p\<lparr>rx_tcancel := True\<rparr> else p)"

definition async_read :: "rx_op \<Rightarrow> rx_op" where
  "async_read p = (if rx_cnt p \<ge> rx_len p then rx_cancel_timer p else p\<lparr>rx_io := True\<rparr>)"

text \<open>The handler of \<open>async_read_until\<close>; \<open>data\<close> is what the operation appended to \<open>rx_buff_\<close>.\<close>

definition read_handler :: "int \<Rightarrow> string \<Rightarrow> rx_op \<Rightarrow> rx_op res" where
  "read_handler resultError data p =
     (let p1 = p\<lparr>rx_io := False, rx_buf := rx_buf p @ data, rx_ec := resultError\<rparr> in
      case find_lf (rx_buf p1) of
        Some pos \<Rightarrow>
          if resultError = 0 then
            and_then (line_process (take pos (rx_buf p1)) (rx_mem p1) (sizeof_can_obj * rx_obj p1)) (\<lambda>(_, m).
              let p2 = p1\<lparr>rx_mem := m, rx_buf := drop (pos + 1) (rx_buf p1)\<rparr> in
              if rx_cnt p2 < rx_len p2
              then Inr (async_read (p2\<lparr>rx_cnt := rx_cnt p2 + 1, rx_obj := rx_obj p2 + 1\<rparr>))
              else Inr (rx_cancel_timer p2))
          else Inr p1
      | None \<Rightarrow> Inr p1)"

fun rx_event :: "net_event \<Rightarrow> rx_op \<Rightarrow> rx_op res" where
  "rx_event (ReadDone r data) p = read_handler r data p"
| "rx_event (TimerDone t) p = Inr (p\<lparr>rx_timer := False\<rparr>)"
| "rx_event (IoDone r n) p = Inr p"

fun rx_run :: "net_event list \<Rightarrow> rx_op \<Rightarrow> rx_op res" where
  "rx_run [] p = Inr p"
| "rx_run (e # es) p = and_then (rx_event e p) (rx_run es)"

fun rx_admissible :: "rx_op \<Rightarrow> net_event list \<Rightarrow> bool" where
  "rx_admissible p [] \<longleftrightarrow> \<not> rx_io p \<and> \<not> rx_timer p"
| "rx_admissible p (ReadDone r data # es) \<longleftrightarrow>
     rx_io p \<and> (r = 0 \<longrightarrow> LF \<in> set (rx_buf p @ data))
   \<and> (case read_handler r data p of Inl _ \<Rightarrow> True | Inr p' \<Rightarrow> rx_admissible p' es)"
| "rx_admissible p (TimerDone t # es) \<longleftrightarrow>
     rx_timer p \<and> (t = 0 \<or> t = operation_canceled \<and> rx_tcancel p) \<and> rx_admissible (p\<lparr>rx_timer := False\<rparr>) es"
| "rx_admissible p (IoDone r n # es) \<longleftrightarrow> False"

text \<open>The loop that serves further lines from what is already in \<open>rx_buff_\<close>.\<close>

function post_process :: "bool \<Rightarrow> nat \<Rightarrow> string \<Rightarrow> BYTE list \<Rightarrow> nat \<Rightarrow> (string \<times> BYTE list \<times> nat) res" where
  "post_process connected len buf mem read_num =
     (if connected \<and> length buf > 0 \<and> read_num < len then
        (case find_lf buf of
           None \<Rightarrow> Inr (buf, mem, read_num)
         | Some pos \<Rightarrow>
             and_then (line_process (take pos buf) mem (sizeof_can_obj * read_num)) (\<lambda>(_, m).
             post_process connected len (drop (pos + 1) buf) m (read_num + 1)))
      else Inr (buf, mem, read_num))"
  by pat_completeness auto
termination
  by (relation "measure (\<lambda>(_, len, _, _, n). len - n)") auto

definition rx_start :: "can_net \<Rightarrow> BYTE list \<Rightarrow> nat \<Rightarrow> rx_op" where
  "rx_start s mem len =
     (async_read \<lparr>rx_io = False, rx_timer = False, rx_tcancel = False, rx_ec = 0, rx_buf = net_rx s,
        rx_mem = mem, rx_obj = 0, rx_len = len, rx_cnt = 0\<rparr>)\<lparr>rx_timer := True\<rparr>"

definition net_VCI_Receive ::
  "can_net \<Rightarrow> DWORD \<Rightarrow> DWORD \<Rightarrow> DWORD \<Rightarrow> BYTE list option \<Rightarrow> ULONG \<Rightarrow> INT_t \<Rightarrow> net_event list
   \<Rightarrow> (ULONG \<times> BYTE list option \<times> can_net) res" where
  "net_VCI_Receive s deviceType deviceInd canInd pReceive len waitTime es =
     (case pReceive of
        None \<Rightarrow> Inr (0, None, s)
      | Some mem \<Rightarrow>
          if \<not> net_connected s \<or> len = 0 then Inr (0, Some mem, s)
          else and_then (rx_run es (rx_start s mem (unat len))) (\<lambda>p.
            let s1 = (if rx_ec p \<noteq> 0 \<and> rx_ec p \<noteq> operation_canceled then disconnect s else s)
            in and_then (post_process (net_connected s1) (unat len) (rx_buf p) (rx_mem p) (rx_cnt p))
                 (\<lambda>(buf, mem', read_num). Inr (of_nat read_num, Some mem', s1\<lparr>net_rx := buf\<rparr>))))"

section \<open>The shape of a run\<close>

text \<open>
  The contract of an operation with a deadline: its completion handler does not restart
  anything and cancels the timer for the results in \<open>cancels\<close>, and its timer handler ends
  the timer. Every run of such an operation has one of two shapes.
\<close>

locale deadline_op =
  fixes handler :: "net_event \<Rightarrow> asio_op \<Rightarrow> asio_op"
    and cancels :: "int \<Rightarrow> bool"
  assumes io_io: "\<not> op_io (handler (IoDone r n) p)"
    and io_timer: "op_timer (handler (IoDone r n) p) = op_timer p"
    and io_tcancel: "op_timer p \<Longrightarrow> op_tcancel (handler (IoDone r n) p) = (op_tcancel p \<or> cancels r)"
    and timer_io: "op_io (handler (TimerDone t) p) = op_io p"
    and timer_timer: "\<not> op_timer (handler (TimerDone t) p)"
begin

lemma run_after_io:
  assumes "\<not> op_io p" and "op_timer p"
  shows "admissible handler ok p es \<longleftrightarrow>
    (\<exists>t. es = [TimerDone t] \<and> (t = 0 \<or> t = operation_canceled \<and> op_tcancel p))"
proof (cases es)
  case (Cons e es')
  have "admissible handler ok (handler (TimerDone t) p) es' \<longleftrightarrow> es' = []" for t
    using assms timer_io timer_timer
    by (cases es'; cases "hd es'") (auto simp: timer_io timer_timer)
  then show ?thesis using Cons assms by (cases e) auto
qed (use assms in auto)

lemma run_after_timer:
  assumes "op_io p" and "\<not> op_timer p"
  shows "admissible handler ok p es \<longleftrightarrow> (\<exists>r n. es = [IoDone r n] \<and> ok r n)"
proof (cases es)
  case (Cons e es')
  have "admissible handler ok (handler (IoDone r n) p) es' \<longleftrightarrow> es' = []" for r n
    using assms io_io io_timer
    by (cases es'; cases "hd es'") (auto simp: io_io io_timer)
  then show ?thesis using Cons assms by (cases e) auto
qed (use assms in auto)

lemma runs:
  "admissible handler ok start_op es \<longleftrightarrow>
     (\<exists>r n t. es = [IoDone r n, TimerDone t] \<and> ok r n \<and> (t = 0 \<or> t = operation_canceled \<and> cancels r))
   \<or> (\<exists>r n. es = [TimerDone 0, IoDone r n] \<and> ok r n)"
proof (cases es)
  case (Cons e es')
  show ?thesis
  proof (cases e)
    case (IoDone r n)
    have "admissible handler ok (handler (IoDone r n) start_op) es' \<longleftrightarrow>
        (\<exists>t. es' = [TimerDone t] \<and> (t = 0 \<or> t = operation_canceled \<and> cancels r))"
      using run_after_io [of "handler (IoDone r n) start_op" ok es'] io_tcancel [of start_op r n]
      by (simp add: io_io io_timer start_op_def)
    then show ?thesis using Cons IoDone by (auto simp: start_op_def)
  next
    case (TimerDone t)
    have "admissible handler ok (handler (TimerDone t) start_op) es' \<longleftrightarrow> (\<exists>r n. es' = [IoDone r n] \<and> ok r n)"
      using run_after_timer [of "handler (TimerDone t) start_op" ok es']
      by (simp add: timer_io timer_timer start_op_def)
    then show ?thesis using Cons TimerDone by (auto simp: start_op_def)
  qed (use Cons in auto)
qed (simp add: start_op_def)

end

interpretation conn: deadline_op connect_event "\<lambda>r. r \<noteq> operation_canceled"
  by unfold_locales (auto simp: cancel_timer_def Let_def)

interpretation wr: deadline_op write_event "\<lambda>r. r = 0"
  by unfold_locales (auto simp: cancel_timer_def)

section \<open>Writing a line\<close>

lemma int_of_size: "len < 2 ^ 31 \<Longrightarrow> int_of_size len = int len"
  by (simp add: int_of_size_def signed_of_nat signed_take_bit_int_eq_self)

lemma size_neq_iff:
  assumes "\<bar>i\<bar> < 2 ^ 31" and "len < 2 ^ 31"
  shows "size_neq len i \<longleftrightarrow> int len \<noteq> i"
proof -
  have "(of_nat len :: 64 word) = word_of_int i \<longleftrightarrow> take_bit 64 (int len) = take_bit 64 i"
    using word_of_int_eq_iff [of "int len" i, where ?'a = 64] by simp
  also have "take_bit 64 (int len) = int len"
    by (rule take_bit_int_eq_self) (use assms(2) in simp_all)
  also have "take_bit 64 i = (if 0 \<le> i then i else i + 2 ^ 64)"
  proof (cases "0 \<le> i")
    case True
    then show ?thesis using assms(1) by (simp add: take_bit_int_eq_self)
  next
    case False
    have "take_bit 64 (i + 2 ^ 64) = i + 2 ^ 64"
      by (rule take_bit_int_eq_self) (use False assms(1) in simp_all)
    moreover have "take_bit 64 (i + 2 ^ 64) = take_bit 64 i" by (simp add: take_bit_eq_mod)
    ultimately show ?thesis using False by simp
  qed
  also have "int len = (if 0 \<le> i then i else i + 2 ^ 64) \<longleftrightarrow> int len = i"
    using assms by auto
  finally show ?thesis by (simp add: size_neq_def)
qed

lemma write_line_cases:
  assumes "admissible write_event (written len) start_op es" and "len < 2 ^ 31"
  obtains (ok) "write_line s p len es = (int len, 0, s\<lparr>net_tx := net_tx s @ take len p\<rparr>)"
  | (err) ret ec n where "write_line s p len es = (ret, ec, s\<lparr>net_tx := net_tx s @ take n p\<rparr>)"
      "ec \<noteq> 0" "ret \<le> 0" "\<bar>ret\<bar> < 2 ^ 31" "n \<le> len"
proof -
  consider (io) r n t where "es = [IoDone r n, TimerDone t]" "written len r n"
      "t = 0 \<or> t = operation_canceled \<and> r = 0"
    | (timer) r n where "es = [TimerDone 0, IoDone r n]" "written len r n"
    using assms(1) unfolding wr.runs by blast
  then show ?thesis
  proof cases
    case io
    show ?thesis
    proof (cases "t = 0")
      case True
      with io show ?thesis
        by (intro err [of 0 operation_canceled n])
          (simp_all add: write_line_def cancel_timer_def start_op_def written_def errc_defs)
    next
      case False
      with io show ?thesis
        using int_of_size [OF assms(2)]
        by (intro ok) (simp add: write_line_def cancel_timer_def start_op_def written_def errc_defs)
    qed
  next
    case timer
    let ?ret = "if r = operation_canceled then 0 else - \<bar>r\<bar>"
    show ?thesis
    proof (cases "r = 0")
      case True
      then show ?thesis
        using timer int_of_size [OF assms(2)]
        by (intro ok) (auto simp: write_line_def cancel_timer_def start_op_def written_def)
    next
      case False
      then show ?thesis
        using timer
        by (intro err [of ?ret r n])
          (auto simp: write_line_def cancel_timer_def start_op_def written_def errc_defs)
    qed
  qed
qed

section \<open>Requests\<close>

text \<open>
  The two outcomes of a request on a connection: the line was sent and the state is
  otherwise unchanged, or part of it was sent and the connection is gone.
\<close>

definition outcome :: "can_net \<Rightarrow> string \<Rightarrow> vciReturnType \<times> can_net \<Rightarrow> bool" where
  "outcome s line r \<longleftrightarrow>
     r = (STATUS_OK, s\<lparr>net_tx := net_tx s @ line\<rparr>)
   \<or> (\<exists>n \<le> length line.
        r = (STATUS_ERR, s\<lparr>net_tx := net_tx s @ take n line, net_connected := False, net_open := False\<rparr>))"

lemma bin2hex_fast_line:
  assumes "length (wire_text args) < cap"
  obtains buff where "bin2hex_fast (replicate cap NUL) 0 args = Inr (buff, length (wire_text args))"
    "\<And>n. n \<le> length (wire_text args) \<Longrightarrow> take n buff = take n (wire_text args)"
proof -
  let ?w = "wire_text args"
  let ?b = "?w @ NUL # replicate (cap - Suc (length ?w)) NUL"
  have "store (replicate cap NUL) 0 (?w @ [NUL]) = Inr ?b"
    using assms by (simp add: store_def)
  then have "bin2hex_fast (replicate cap NUL) 0 args = Inr (?b, length ?w)"
    by (simp add: bin2hex_fast_store)
  then show ?thesis by (rule that) simp
qed

lemma net_request_outcome:
  assumes "0 < length (wire_text args)" and "length (wire_text args) < cap" and "cap < 2 ^ 31"
    and "admissible write_event (written (length (wire_text args))) start_op es"
  shows "\<exists>r. net_request cap args s es = Inr r \<and> outcome s (wire_text args) r"
proof -
  let ?w = "wire_text args"
  obtain buff where b: "bin2hex_fast (replicate cap NUL) 0 args = Inr (buff, length ?w)"
    and tk: "\<And>n. n \<le> length ?w \<Longrightarrow> take n buff = take n ?w"
    using bin2hex_fast_line [OF assms(2)] by blast
  have len: "length ?w < 2 ^ 31" using assms(2,3) by linarith
  show ?thesis
  proof (rule write_line_cases [OF assms(4) len, of s buff])
    assume "write_line s buff (length ?w) es = (int (length ?w), 0, s\<lparr>net_tx := net_tx s @ take (length ?w) buff\<rparr>)"
    then show ?thesis
      using b len tk [of "length ?w"] by (simp add: net_request_def size_neq_iff outcome_def)
  next
    fix ret ec n
    assume *: "write_line s buff (length ?w) es = (ret, ec, s\<lparr>net_tx := net_tx s @ take n buff\<rparr>)"
      "ec \<noteq> 0" "ret \<le> 0" "\<bar>ret\<bar> < 2 ^ 31" "n \<le> length ?w"
    have "int (length ?w) \<noteq> ret" using assms(1) *(3) by linarith
    then have "size_neq (length ?w) ret" by (simp add: size_neq_iff [OF *(4) len])
    with * show ?thesis
      using b tk [of n] by (auto simp: net_request_def outcome_def disconnect_def close_socket_def)
  qed
qed

lemma length_request_parts [wire_simps]:
  "length (arg_text (Pod bs)) = 2 * length bs" "NUL \<notin> set s \<Longrightarrow> length (arg_text (CStr s)) = length s"
  by (simp_all add: cstr_id)

section \<open>Transmit\<close>

declare bin2hex_fast.simps [simp del]

definition tx_line :: "DWORD \<Rightarrow> DWORD \<Rightarrow> DWORD \<Rightarrow> VCI_CAN_OBJ \<Rightarrow> string" where
  "tx_line t ind c p = ''VCI_Transmit,'' @ hex_text (le_bytes 4 t @ le_bytes 4 ind @ le_bytes 4 c @ can_obj_bytes p) @ [LF]"

lemma wire_text_tx:
  "wire_text [CStr ''VCI_Transmit,'', dword t, dword ind, dword c, Pod (can_obj_bytes p), CStr [LF]] = tx_line t ind c p"
  by (simp add: tx_line_def cstr_def)

lemma length_tx_line: "wf_can_obj p \<Longrightarrow> length (tx_line t ind c p) = 86"
  by (simp add: tx_line_def length_can_obj_bytes)

lemma tx_line_buffer:
  assumes "wf_can_obj p"
  obtains buff where "bin2hex_fast (replicate 256 NUL) 0
      [CStr ''VCI_Transmit,'', dword t, dword ind, dword c, Pod (can_obj_bytes p), CStr [LF]] = Inr (buff, 86)"
    "\<And>n. n \<le> 86 \<Longrightarrow> take n buff = take n (tx_line t ind c p)"
  using bin2hex_fast_line [of "[CStr ''VCI_Transmit,'', dword t, dword ind, dword c, Pod (can_obj_bytes p), CStr [LF]]" 256]
    length_tx_line [OF assms, of t ind c] that
  unfolding wire_text_tx by auto

text \<open>How far the loop got: \<open>k\<close> whole lines, and \<open>n\<close> characters of the next one on failure.\<close>

definition transmitted ::
  "DWORD \<Rightarrow> DWORD \<Rightarrow> DWORD \<Rightarrow> VCI_CAN_OBJ list \<Rightarrow> can_net \<Rightarrow> vciReturnType \<times> can_net \<Rightarrow> bool" where
  "transmitted t ind c objs s r \<longleftrightarrow>
     r = (STATUS_OK, s\<lparr>net_tx := net_tx s @ concat (map (tx_line t ind c) objs)\<rparr>)
   \<or> (\<exists>k < length objs. \<exists>n \<le> 86. fst r = STATUS_ERR
        \<and> net_tx (snd r) = net_tx s @ concat (map (tx_line t ind c) (take k objs)) @ take n (tx_line t ind c (objs ! k))
        \<and> net_rx (snd r) = net_rx s)"

lemma transmitted_Cons:
  assumes "transmitted t ind c ps (s\<lparr>net_tx := net_tx s @ tx_line t ind c p\<rparr>) r"
  shows "transmitted t ind c (p # ps) s r"
proof -
  consider "r = (STATUS_OK, s\<lparr>net_tx := net_tx s @ concat (map (tx_line t ind c) (p # ps))\<rparr>)"
    | k n where "k < length ps" "n \<le> 86" "fst r = STATUS_ERR" "net_rx (snd r) = net_rx s"
      "net_tx (snd r) = net_tx s @ concat (map (tx_line t ind c) (take (Suc k) (p # ps)))
         @ take n (tx_line t ind c ((p # ps) ! Suc k))"
    using assms by (auto simp: transmitted_def)
  then show ?thesis
  proof cases
    case 1
    then show ?thesis by (simp add: transmitted_def)
  next
    case 2
    then have "Suc k < length (p # ps)" by simp
    with 2 show ?thesis unfolding transmitted_def by blast
  qed
qed

lemma transmit_loop_spec:
  assumes "list_all wf_can_obj objs" and "i + n = length objs"
    and "\<And>j. admissible write_event (written 86) start_op (sched j)"
  shows "\<exists>r. transmit_loop t ind c (Some objs) sched i n s = Inr r \<and> transmitted t ind c (drop i objs) s r"
  using assms(2)
proof (induction n arbitrary: i s)
  case 0
  then show ?case by (simp add: transmitted_def)
next
  case (Suc n)
  have i: "i < length objs" using Suc.prems by simp
  let ?p = "objs ! i" and ?args = "[CStr ''VCI_Transmit,'', dword t, dword ind, dword c, Pod (can_obj_bytes (objs ! i)), CStr [LF]]"
  have wf: "wf_can_obj ?p" using assms(1) i by (simp add: list_all_length)
  obtain buff where b: "bin2hex_fast (replicate 256 NUL) 0 ?args = Inr (buff, 86)"
    and tk: "\<And>n. n \<le> 86 \<Longrightarrow> take n buff = take n (tx_line t ind c ?p)"
    using tx_line_buffer [OF wf, of t ind c] by blast
  have d: "drop i objs = ?p # drop (Suc i) objs" by (rule Cons_nth_drop_Suc [OF i, symmetric])
  show ?case
  proof (rule write_line_cases [OF assms(3) [of i], of s buff])
    assume w: "write_line s buff 86 (sched i) = (int 86, 0, s\<lparr>net_tx := net_tx s @ take 86 buff\<rparr>)"
    let ?s = "s\<lparr>net_tx := net_tx s @ tx_line t ind c ?p\<rparr>"
    have t86: "take 86 buff = tx_line t ind c ?p" using tk [of 86] length_tx_line [OF wf, of t ind c] by simp
    have eq: "transmit_loop t ind c (Some objs) sched i (Suc n) s = transmit_loop t ind c (Some objs) sched (Suc i) n ?s"
      using i b w t86 by (simp add: size_neq_iff)
    show ?thesis using Suc.IH [of "Suc i" ?s] Suc.prems transmitted_Cons unfolding eq d by auto
  next
    fix ret ec m
    assume *: "write_line s buff 86 (sched i) = (ret, ec, s\<lparr>net_tx := net_tx s @ take m buff\<rparr>)"
      "ec \<noteq> 0" "ret \<le> 0" "\<bar>ret\<bar> < 2 ^ 31" "m \<le> 86"
    have "size_neq 86 ret" using *(3) by (simp add: size_neq_iff [OF *(4)])
    then have "transmit_loop t ind c (Some objs) sched i (Suc n) s = Inr (STATUS_ERR,
        if ret < 0 then disconnect (s\<lparr>net_tx := net_tx s @ take m buff\<rparr>) else s\<lparr>net_tx := net_tx s @ take m buff\<rparr>)"
      using i b * by simp
    moreover have "transmitted t ind c (drop i objs) s (STATUS_ERR,
        if ret < 0 then disconnect (s\<lparr>net_tx := net_tx s @ take m buff\<rparr>) else s\<lparr>net_tx := net_tx s @ take m buff\<rparr>)"
      unfolding transmitted_def
      by (intro disjI2 exI [of _ 0] exI [of _ m] conjI)
        (use i d *(5) tk [OF *(5)] in \<open>auto simp: disconnect_def close_socket_def\<close>)
    ultimately show ?thesis by blast
  qed simp
qed

section \<open>Decoding lines\<close>

text \<open>A line that carries at most one object's worth of digits, or is not accepted at all.\<close>

definition line_ok :: "string \<Rightarrow> bool" where
  "line_ok l \<longleftrightarrow> (case receive_pattern l of None \<Rightarrow> True | Some e \<Rightarrow> length l \<le> e + sizeof_can_obj * 2)"

text \<open>The line of an object: sixteen bytes of counters, then the object.\<close>

definition rx_line :: "BYTE list \<Rightarrow> VCI_CAN_OBJ \<Rightarrow> string" where
  "rx_line counters obj = ''VCI_Receive,'' @ hex_text counters @ hex_text (can_obj_bytes obj)"

text \<open>Decoding the lines one after the other into consecutive objects.\<close>

fun process_lines :: "nat \<Rightarrow> string list \<Rightarrow> BYTE list \<Rightarrow> BYTE list res" where
  "process_lines k [] mem = Inr mem"
| "process_lines k (l # ls) mem =
     and_then (line_process l mem (sizeof_can_obj * k)) (\<lambda>(_, m). process_lines (Suc k) ls m)"

lemma line_process_decode:
  assumes "receive_pattern l = Some e" and "e < length l" and "hex_str_pattern (drop e l)"
    and "48 \<le> length (drop e l)" and "off \<le> length mem"
  shows "line_process l mem off = and_then (store mem off (unhex (drop e l))) (\<lambda>m. Inr (0, m))"
  using assms hex_string_to_bin_fastest_store [of "drop e l" off mem "[]"]
  by (simp add: line_process_def hex_str_pattern_def sizeof_can_obj_def)

lemma line_process_cases:
  assumes "off \<le> length mem"
  obtains (rejected) "line_process l mem off = Inr (- 1, mem)"
  | (decoded) e where "receive_pattern l = Some e" "48 \<le> length (drop e l)" "hex_str_pattern (drop e l)"
      "line_process l mem off = and_then (store mem off (unhex (drop e l))) (\<lambda>m. Inr (0, m))"
proof (cases "receive_pattern l")
  case None
  then show ?thesis by (intro rejected) (simp add: line_process_def)
next
  case (Some e)
  show ?thesis
  proof (cases "e = length l \<or> \<not> hex_str_pattern (drop e l) \<or> length (drop e l) < 48")
    case True
    then show ?thesis
      using Some by (intro rejected) (auto simp: line_process_def sizeof_can_obj_def Let_def)
  next
    case False
    moreover from this have "e < length l" by auto
    ultimately show ?thesis
      using Some line_process_decode [OF Some _ _ _ assms] by (intro decoded) auto
  qed
qed

lemma line_process_ok:
  assumes "line_ok l" and "off + 24 \<le> length mem"
  shows "\<exists>r m. line_process l mem off = Inr (r, m) \<and> length m = length mem"
proof -
  have "off \<le> length mem" using assms(2) by simp
  then show ?thesis
  proof (cases rule: line_process_cases [where l = l])
    case (decoded e)
    then have "length (unhex (drop e l)) = 24"
      using assms(1) by (simp add: line_ok_def sizeof_can_obj_def)
    then show ?thesis using decoded(4) assms(2) by (simp add: store_def)
  qed simp
qed

lemma receive_pattern_rx_line: "length counters = 16 \<Longrightarrow> receive_pattern (rx_line counters obj) = Some 44"
  using is_hex_text [of counters] by (simp add: receive_pattern_def head_match_def rx_line_def)

lemma drop_rx_line: "length counters = 16 \<Longrightarrow> drop 44 (rx_line counters obj) = hex_text (can_obj_bytes obj)"
  by (simp add: rx_line_def)

lemma rx_line_ok: "length counters = 16 \<Longrightarrow> wf_can_obj obj \<Longrightarrow> line_ok (rx_line counters obj)"
  by (simp add: line_ok_def receive_pattern_rx_line, simp add: rx_line_def length_can_obj_bytes sizeof_can_obj_def)

lemma line_process_rx_line:
  assumes "length counters = 16" and "wf_can_obj obj" and "off + 24 \<le> length mem"
  shows "line_process (rx_line counters obj) mem off
    = Inr (0, take off mem @ can_obj_bytes obj @ drop (off + 24) mem)"
proof -
  have len: "length (hex_text (can_obj_bytes obj)) = 48" using assms(2) by (simp add: length_can_obj_bytes)
  then have ne: "hex_text (can_obj_bytes obj) \<noteq> []" by (metis list.size(3) zero_neq_numeral)
  have "line_process (rx_line counters obj) mem off
      = and_then (store mem off (unhex (drop 44 (rx_line counters obj)))) (\<lambda>m. Inr (0, m))"
    using assms is_hex_text [of "can_obj_bytes obj"] len ne
    by (intro line_process_decode receive_pattern_rx_line)
      (simp_all add: drop_rx_line hex_str_pattern_def length_can_obj_bytes, simp add: rx_line_def length_can_obj_bytes)
  then show ?thesis
    using assms by (simp add: drop_rx_line store_def length_can_obj_bytes)
qed

lemma process_lines_rx:
  assumes "list_all (\<lambda>(cs, obj). length cs = 16 \<and> wf_can_obj obj) ps" and "24 * (k + length ps) \<le> length mem"
  shows "process_lines k (map (\<lambda>(cs, obj). rx_line cs obj) ps) mem
    = Inr (take (24 * k) mem @ concat (map (\<lambda>(_, obj). can_obj_bytes obj) ps) @ drop (24 * (k + length ps)) mem)"
  using assms
proof (induction ps arbitrary: k mem)
  case (Cons p ps)
  obtain cs obj where p: "p = (cs, obj)" by (cases p)
  have ok: "length cs = 16" "wf_can_obj obj" "24 * k + 24 \<le> length mem" using Cons.prems by (simp_all add: p)
  let ?m = "take (24 * k) mem @ can_obj_bytes obj @ drop (24 * k + 24) mem"
  have len: "length (can_obj_bytes obj) = 24" using ok(2) by (rule length_can_obj_bytes)
  have k: "length (take (24 * k) mem) = 24 * k" using ok(3) by simp
  have "process_lines k (map (\<lambda>(cs, obj). rx_line cs obj) (p # ps)) mem
      = process_lines (Suc k) (map (\<lambda>(cs, obj). rx_line cs obj) ps) ?m"
    using line_process_rx_line [OF ok] by (simp add: p sizeof_can_obj_def)
  also have "\<dots> = Inr (take (24 * Suc k) ?m @ concat (map (\<lambda>(_, obj). can_obj_bytes obj) ps)
      @ drop (24 * (Suc k + length ps)) ?m)"
    using Cons.prems ok(3) len by (intro Cons.IH) (simp_all add: p)
  also have "take (24 * Suc k) ?m = take (24 * k) mem @ can_obj_bytes obj"
    using k len by simp
  also have "drop (24 * (Suc k + length ps)) ?m = drop (24 * (k + length (p # ps))) mem"
    using k len by (simp add: algebra_simps)
  finally show ?case by (simp add: p)
qed simp

section \<open>Reading from the connection\<close>

fun data_of :: "net_event list \<Rightarrow> string" where
  "data_of [] = []"
| "data_of (ReadDone r data # es) = data @ data_of es"
| "data_of (e # es) = data_of es"

text \<open>
  The invariant of the run: the bytes of the connection seen so far are the lines consumed,
  each with its line feed, followed by what is in the buffer; the lines were decoded into
  consecutive objects; and a read is pending only while objects are missing.
\<close>

definition rx_inv :: "string \<Rightarrow> BYTE list \<Rightarrow> rx_op \<Rightarrow> bool" where
  "rx_inv stream mem0 p \<longleftrightarrow>
     (\<exists>ls. list_all no_lf ls \<and> stream = unlines ls @ rx_buf p \<and> length ls = rx_cnt p
        \<and> process_lines 0 ls mem0 = Inr (rx_mem p))
   \<and> rx_obj p = rx_cnt p \<and> rx_cnt p \<le> rx_len p \<and> (rx_io p \<longrightarrow> rx_cnt p < rx_len p)"

lemma process_lines_snoc:
  "process_lines k (ls @ [l]) mem =
     and_then (process_lines k ls mem) (\<lambda>m.
     and_then (line_process l m (sizeof_can_obj * (k + length ls))) (\<lambda>(_, m'). Inr m'))"
proof (induction ls arbitrary: k mem)
  case Nil
  then show ?case by (cases "line_process l mem (sizeof_can_obj * k)") (auto split: prod.split)
next
  case (Cons x ls)
  then show ?case
    by (cases "line_process x mem (sizeof_can_obj * k)") (auto split: prod.split)
qed

lemma unlines_snoc: "unlines (ls @ [l]) = unlines ls @ l @ [LF]"
  by (simp add: unlines_def)

lemma async_read_fields [simp]:
  "rx_buf (async_read p) = rx_buf p" "rx_mem (async_read p) = rx_mem p" "rx_obj (async_read p) = rx_obj p"
  "rx_len (async_read p) = rx_len p" "rx_cnt (async_read p) = rx_cnt p" "rx_ec (async_read p) = rx_ec p"
  "rx_timer (async_read p) = rx_timer p"
  by (simp_all add: async_read_def rx_cancel_timer_def)

lemma async_read_io: "\<not> rx_io p \<Longrightarrow> rx_io (async_read p) \<longleftrightarrow> rx_cnt p < rx_len p"
  by (auto simp: async_read_def rx_cancel_timer_def)

text \<open>A completion either only extends the buffer or consumes its first line.\<close>

lemma read_handler_cases:
  assumes "rx_cnt p < rx_len p"
  obtains (more) "read_handler r data p = Inr (p\<lparr>rx_io := False, rx_buf := rx_buf p @ data, rx_ec := r\<rparr>)"
      "r \<noteq> 0 \<or> LF \<notin> set (rx_buf p @ data)"
  | (line) l rest where "rx_buf p @ data = l @ LF # rest" "LF \<notin> set l" "r = 0"
      "read_handler r data p = and_then (line_process l (rx_mem p) (sizeof_can_obj * rx_obj p)) (\<lambda>(_, m).
         Inr (async_read (p\<lparr>rx_io := False, rx_ec := 0, rx_mem := m, rx_buf := rest,
                            rx_cnt := rx_cnt p + 1, rx_obj := rx_obj p + 1\<rparr>)))"
proof (cases "find_lf (rx_buf p @ data)")
  case None
  then have "LF \<notin> set (rx_buf p @ data)" by (simp add: find_lf_None_iff)
  with None show ?thesis by (intro more) (simp_all add: read_handler_def)
next
  case (Some pos)
  note lf = find_lf_SomeD [OF Some]
  show ?thesis
  proof (cases "r = 0")
    case True
    show ?thesis
      by (rule line [OF lf(4) lf(3) True]) (use Some True assms in \<open>simp add: read_handler_def Let_def\<close>)
  next
    case False
    then show ?thesis using Some by (intro more) (simp_all add: read_handler_def)
  qed
qed

lemma rx_step_inv:
  assumes "rx_inv stream mem0 p" and "rx_io p" and "read_handler r data p = Inr p'"
  shows "rx_inv (stream @ data) mem0 p' \<and> rx_len p' = rx_len p"
proof -
  from assms(1) obtain ls where ls: "list_all no_lf ls" "stream = unlines ls @ rx_buf p"
      "length ls = rx_cnt p" "process_lines 0 ls mem0 = Inr (rx_mem p)"
    and p: "rx_obj p = rx_cnt p" "rx_cnt p < rx_len p"
    using assms(2) by (auto simp: rx_inv_def)
  from p(2) show ?thesis
  proof (cases rule: read_handler_cases [where r = r and data = data])
    case more
    then have "p' = p\<lparr>rx_io := False, rx_buf := rx_buf p @ data, rx_ec := r\<rparr>" using assms(3) by simp
    then show ?thesis using ls p by (auto simp: rx_inv_def)
  next
    case (line l rest)
    then obtain x m where m: "line_process l (rx_mem p) (sizeof_can_obj * rx_obj p) = Inr (x, m)"
      and p': "p' = async_read (p\<lparr>rx_io := False, rx_ec := 0, rx_mem := m, rx_buf := rest,
                            rx_cnt := rx_cnt p + 1, rx_obj := rx_obj p + 1\<rparr>)"
      using assms(3) by (auto simp: and_then_Inr_iff)
    have "process_lines 0 (ls @ [l]) mem0 = Inr m" using ls m p by (simp add: process_lines_snoc)
    moreover have "stream @ data = unlines (ls @ [l]) @ rest" using ls(2) line(1) by (simp add: unlines_snoc)
    moreover have "list_all no_lf (ls @ [l])" using ls(1) line(2) by (simp add: no_lf_def)
    ultimately show ?thesis using ls(3) p p'
      by (auto simp: rx_inv_def async_read_io intro!: exI [of _ "ls @ [l]"])
  qed
qed

lemma rx_run_inv:
  assumes "rx_inv stream mem0 p" and "rx_admissible p es" and "rx_run es p = Inr p'"
  shows "rx_inv (stream @ data_of es) mem0 p' \<and> rx_len p' = rx_len p"
  using assms
proof (induction es arbitrary: p stream)
  case (Cons e es)
  show ?case
  proof (cases e)
    case (ReadDone r data)
    then obtain p1 where p1: "read_handler r data p = Inr p1" using Cons.prems(3) by (auto simp: and_then_Inr_iff)
    note st = rx_step_inv [OF Cons.prems(1) _ p1]
    have "rx_io p" using Cons.prems(2) ReadDone by simp
    then show ?thesis
      using st Cons.IH [of "stream @ data" p1] Cons.prems ReadDone p1 by simp
  next
    case (TimerDone t)
    have "rx_inv stream mem0 (p\<lparr>rx_timer := False\<rparr>)" using Cons.prems(1) by (simp add: rx_inv_def)
    from Cons.IH [OF this] show ?thesis using Cons.prems TimerDone by simp
  qed (use Cons.prems in auto)
qed simp

lemma lines_of_unlines_app: "list_all no_lf ls \<Longrightarrow> lines_of (unlines ls @ s) = ls @ lines_of s"
  by (induction ls) (simp_all add: lines_of_LF no_lf_def)

text \<open>If no line is too long, the run does not fault.\<close>

lemma rx_run_total:
  assumes "rx_admissible p es" and "list_all line_ok (lines_of (rx_buf p @ data_of es))"
    and "24 * rx_len p \<le> length (rx_mem p)" and "rx_obj p = rx_cnt p" and "rx_io p \<longrightarrow> rx_cnt p < rx_len p"
  shows "\<exists>p'. rx_run es p = Inr p' \<and> length (rx_mem p') = length (rx_mem p)"
  using assms
proof (induction es arbitrary: p)
  case (Cons e es)
  show ?case
  proof (cases e)
    case (ReadDone r data)
    have io: "rx_cnt p < rx_len p" using Cons.prems ReadDone by simp
    then show ?thesis
    proof (cases rule: read_handler_cases [where r = r and data = data])
      case more
      then show ?thesis
        using Cons.IH [of "p\<lparr>rx_io := False, rx_buf := rx_buf p @ data, rx_ec := r\<rparr>"] Cons.prems ReadDone
        by simp
    next
      case (line l rest)
      have app: "rx_buf p @ data @ data_of es = l @ LF # rest @ data_of es"
        using line(1) by (metis append_Cons append_assoc)
      have "line_ok l" "list_all line_ok (lines_of (rest @ data_of es))"
        using Cons.prems(2) ReadDone lines_of_LF [OF line(2), of "rest @ data_of es"] app by simp_all
      moreover from this(1) obtain x m where
        m: "line_process l (rx_mem p) (sizeof_can_obj * rx_obj p) = Inr (x, m)" "length m = length (rx_mem p)"
        using line_process_ok [of l "24 * rx_obj p" "rx_mem p"] Cons.prems(3,4) io
        by (auto simp: sizeof_can_obj_def)
      ultimately show ?thesis
        using Cons.IH [of "async_read (p\<lparr>rx_io := False, rx_ec := 0, rx_mem := m, rx_buf := rest,
                            rx_cnt := rx_cnt p + 1, rx_obj := rx_obj p + 1\<rparr>)"] Cons.prems line m ReadDone
        by (simp add: async_read_io)
    qed
  next
    case (TimerDone t)
    then show ?thesis using Cons.IH [of "p\<lparr>rx_timer := False\<rparr>"] Cons.prems by simp
  qed (use Cons.prems in auto)
qed simp

declare post_process.simps [simp del]

lemma post_process_stop:
  "\<not> (con \<and> length buf > 0 \<and> n < len) \<Longrightarrow> post_process con len buf mem n = Inr (buf, mem, n)"
  "find_lf buf = None \<Longrightarrow> post_process con len buf mem n = Inr (buf, mem, n)"
  by (simp_all only: post_process.simps [of con len buf mem n] if_False option.case if_cancel)

lemma post_process_line:
  "con \<and> length buf > 0 \<and> n < len \<Longrightarrow> find_lf buf = Some pos \<Longrightarrow> post_process con len buf mem n =
     and_then (line_process (take pos buf) mem (sizeof_can_obj * n)) (\<lambda>(_, m).
       post_process con len (drop (pos + 1) buf) m (n + 1))"
  by (subst post_process.simps) simp

lemma post_process_spec:
  assumes "post_process con len buf mem n = Inr (buf', mem', n')" and "n \<le> len"
  shows "\<exists>ls. list_all no_lf ls \<and> buf = unlines ls @ buf' \<and> n' = n + length ls
     \<and> process_lines n ls mem = Inr mem' \<and> n' \<le> len \<and> (con \<longrightarrow> n' = len \<or> LF \<notin> set buf')"
  using assms
proof (induction con len buf mem n rule: post_process.induct)
  case (1 con len buf mem n)
  show ?case
  proof (cases "con \<and> length buf > 0 \<and> n < len")
    case False
    then have "buf' = buf" "mem' = mem" "n' = n"
      using 1(2) post_process_stop(1) [OF False, of mem] by simp_all
    with False 1(3) show ?thesis by (intro exI [of _ "[]"]) auto
  next
    case True
    show ?thesis
    proof (cases "find_lf buf")
      case None
      then have "buf' = buf" "mem' = mem" "n' = n"
        using 1(2) post_process_stop(2) [OF None, of con len mem n] by simp_all
      with None True show ?thesis by (intro exI [of _ "[]"]) (auto simp: find_lf_None_iff)
    next
      case (Some pos)
      note lf = find_lf_SomeD [OF Some]
      obtain x m where m: "line_process (take pos buf) mem (sizeof_can_obj * n) = Inr (x, m)"
        and rec: "post_process con len (drop (pos + 1) buf) m (n + 1) = Inr (buf', mem', n')"
        using 1(2) post_process_line [OF True Some, of mem] by (auto simp: and_then_Inr_iff)
      obtain ls where ls: "list_all no_lf ls" "drop (pos + 1) buf = unlines ls @ buf'" "n' = n + 1 + length ls"
        "process_lines (n + 1) ls m = Inr mem'" "n' \<le> len" "con \<longrightarrow> n' = len \<or> LF \<notin> set buf'"
        using 1(1) [OF True Some, of m] rec True by auto
      have "buf = unlines (take pos buf # ls) @ buf'" using lf(4) ls(2) by simp
      moreover have "list_all no_lf (take pos buf # ls)" using lf(3) ls(1) by (simp add: no_lf_def)
      ultimately show ?thesis using ls(3-6) m by (intro exI [of _ "take pos buf # ls"]) simp
    qed
  qed
qed

lemma post_process_total:
  assumes "list_all line_ok (lines_of buf)" and "24 * len \<le> length mem"
  shows "\<exists>r. post_process con len buf mem n = Inr r"
  using assms
proof (induction con len buf mem n rule: post_process.induct)
  case (1 con len buf mem n)
  show ?case
  proof (cases "con \<and> length buf > 0 \<and> n < len")
    case True
    show ?thesis
    proof (cases "find_lf buf")
      case (Some pos)
      note lf = find_lf_SomeD [OF Some]
      have ok: "line_ok (take pos buf)" "list_all line_ok (lines_of (drop (pos + 1) buf))"
        using 1(2) lines_of_LF [OF lf(3), of "drop (Suc pos) buf"] unfolding lf(4) [symmetric] by auto
      obtain x m where m: "line_process (take pos buf) mem (sizeof_can_obj * n) = Inr (x, m)" "length m = length mem"
        using line_process_ok [OF ok(1), of "24 * n" mem] 1(3) True by (auto simp: sizeof_can_obj_def)
      then show ?thesis
        using 1(1) [OF True Some, of m] ok(2) 1(3) post_process_line [OF True Some, of mem] by simp
    qed (auto dest: post_process_stop(2))
  qed (use post_process_stop(1) in blast)
qed

lemma process_lines_append:
  "process_lines k (ls @ ls') mem = and_then (process_lines k ls mem) (process_lines (k + length ls) ls')"
proof (induction ls arbitrary: k mem)
  case (Cons l ls)
  then show ?case by (cases "line_process l mem (sizeof_can_obj * k)") (auto split: prod.split)
qed simp

lemma rx_start_fields [simp]:
  "rx_buf (rx_start s mem len) = net_rx s" "rx_mem (rx_start s mem len) = mem" "rx_obj (rx_start s mem len) = 0"
  "rx_len (rx_start s mem len) = len" "rx_cnt (rx_start s mem len) = 0"
  by (simp_all add: rx_start_def)

lemma rx_start_inv: "rx_inv (net_rx s) mem (rx_start s mem len)"
  by (auto simp: rx_inv_def) (simp add: rx_start_def async_read_io)

text \<open>What a call of \<open>VCI_Receive\<close> does to the stream.\<close>

definition received :: "can_net \<Rightarrow> string \<Rightarrow> BYTE list \<Rightarrow> nat \<Rightarrow> ULONG \<times> BYTE list option \<times> can_net \<Rightarrow> bool" where
  "received s data mem len r \<longleftrightarrow>
     (case r of (n, pmem, s') \<Rightarrow> \<exists>ls mem'.
        list_all no_lf ls \<and> net_rx s @ data = unlines ls @ net_rx s'
      \<and> n = of_nat (length ls) \<and> length ls \<le> len
      \<and> pmem = Some mem' \<and> process_lines 0 ls mem = Inr mem'
      \<and> net_tx s' = net_tx s
      \<and> (net_connected s' \<longrightarrow> length ls = len \<or> LF \<notin> set (net_rx s')))"

lemma receive_result:
  assumes "net_connected s" and "len \<noteq> 0" and "rx_admissible (rx_start s mem (unat len)) es"
    and "net_VCI_Receive s t i c (Some mem) len w es = Inr r"
  shows "received s (data_of es) mem (unat len) r"
proof -
  obtain p buf mem' n s1 where p: "rx_run es (rx_start s mem (unat len)) = Inr p"
    and s1: "s1 = (if rx_ec p \<noteq> 0 \<and> rx_ec p \<noteq> operation_canceled then disconnect s else s)"
    and post: "post_process (net_connected s1) (unat len) (rx_buf p) (rx_mem p) (rx_cnt p) = Inr (buf, mem', n)"
    and r: "r = (of_nat n, Some mem', s1\<lparr>net_rx := buf\<rparr>)"
    using assms(1,2,4) by (auto simp: net_VCI_Receive_def and_then_Inr_iff Let_def)
  have inv: "rx_inv (net_rx s @ data_of es) mem p" "rx_len p = unat len"
    using rx_run_inv [OF rx_start_inv assms(3) p] by simp_all
  then obtain ls where ls: "list_all no_lf ls" "net_rx s @ data_of es = unlines ls @ rx_buf p"
      "length ls = rx_cnt p" "process_lines 0 ls mem = Inr (rx_mem p)" "rx_cnt p \<le> unat len"
    by (auto simp: rx_inv_def)
  obtain ls' where ls': "list_all no_lf ls'" "rx_buf p = unlines ls' @ buf" "n = rx_cnt p + length ls'"
      "process_lines (rx_cnt p) ls' (rx_mem p) = Inr mem'" "n \<le> unat len"
      "net_connected s1 \<longrightarrow> n = unat len \<or> LF \<notin> set buf"
    using post_process_spec [OF post ls(5)] by blast
  have "process_lines 0 (ls @ ls') mem = Inr mem'" using ls(3,4) ls'(4) by (simp add: process_lines_append)
  moreover have "net_rx s @ data_of es = unlines (ls @ ls') @ buf" using ls(2) ls'(2) by (simp add: unlines_def)
  moreover have "net_tx (s1\<lparr>net_rx := buf\<rparr>) = net_tx s" by (simp add: s1 disconnect_def close_socket_def)
  ultimately show ?thesis
    unfolding received_def r prod.case using ls(1,3) ls'(1,3,5,6)
    by (intro exI [of _ "ls @ ls'"] exI [of _ mem'] conjI) simp_all
qed

lemma receive_total:
  assumes "net_connected s" and "len \<noteq> 0" and "rx_admissible (rx_start s mem (unat len)) es"
    and "24 * unat len \<le> length mem" and "list_all line_ok (lines_of (net_rx s @ data_of es))"
  shows "\<exists>r. net_VCI_Receive s t i c (Some mem) len w es = Inr r"
proof -
  have io: "rx_io (rx_start s mem (unat len)) \<longrightarrow> 0 < unat len"
    by (simp add: rx_start_def async_read_io)
  obtain p where p: "rx_run es (rx_start s mem (unat len)) = Inr p" "length (rx_mem p) = length mem"
    using rx_run_total [OF assms(3)] assms(4,5) io by auto
  obtain ls where "list_all no_lf ls" "net_rx s @ data_of es = unlines ls @ rx_buf p"
    using rx_run_inv [OF rx_start_inv assms(3) p(1)] by (auto simp: rx_inv_def)
  then have "list_all line_ok (lines_of (rx_buf p))"
    using assms(5) by (simp add: lines_of_unlines_app)
  from post_process_total [OF this, of "unat len" "rx_mem p"]
  have "\<exists>r. post_process con (unat len) (rx_buf p) (rx_mem p) (rx_cnt p) = Inr r" for con
    using assms(4) p(2) by simp
  then obtain buf m n where "post_process
      (net_connected (if rx_ec p \<noteq> 0 \<and> rx_ec p \<noteq> operation_canceled then disconnect s else s))
      (unat len) (rx_buf p) (rx_mem p) (rx_cnt p) = Inr (buf, m, n)"
    by (metis prod_cases3)
  then show ?thesis
    using assms(1,2) p(1) by (simp add: net_VCI_Receive_def Let_def)
qed

section \<open>Connection states\<close>

text \<open>
  The operations of the class as steps, each with a run asio can produce; \<open>VCI_Transmit\<close>
  is treated separately below.
\<close>

inductive net_step :: "can_net \<Rightarrow> can_net \<Rightarrow> bool" where
  open_device: "net_VCI_OpenDevice resolve s t i r ces wes = Inr (ret, s') \<Longrightarrow>
    admissible connect_event (\<lambda>_ _. True) start_op ces \<Longrightarrow>
    admissible write_event (written 40) start_op wes \<Longrightarrow> net_step s s'"
| close_device: "net_VCI_CloseDevice s t i es = Inr (ret, s') \<Longrightarrow>
    admissible write_event (written 33) start_op es \<Longrightarrow> net_step s s'"
| init_can: "net_VCI_InitCAN s t i c (Some cfg) es = Inr (ret, s') \<Longrightarrow>
    admissible write_event (written 69) start_op es \<Longrightarrow> net_step s s'"
| read_err: "net_VCI_ReadErrInfo s t i c (Some err) es = Inr (ret, s') \<Longrightarrow> wf_err_info err \<Longrightarrow>
    admissible write_event (written 57) start_op es \<Longrightarrow> net_step s s'"
| clear_buffer: "net_VCI_ClearBuffer s t i c es = Inr (ret, s') \<Longrightarrow>
    admissible write_event (written 41) start_op es \<Longrightarrow> net_step s s'"
| start_can: "net_VCI_StartCAN s t i c es = Inr (ret, s') \<Longrightarrow>
    admissible write_event (written 38) start_op es \<Longrightarrow> net_step s s'"
| reset_can: "net_VCI_ResetCAN s t i c es = Inr (ret, s') \<Longrightarrow>
    admissible write_event (written 38) start_op es \<Longrightarrow> net_step s s'"
| receive: "net_VCI_Receive s t i c (Some mem) len w es = Inr (n, m, s') \<Longrightarrow>
    rx_admissible (rx_start s mem (unat len)) es \<Longrightarrow> net_step s s'"

text \<open>On a connection the client has written whole lines, and the socket is open.\<close>

definition net_ok :: "can_net \<Rightarrow> bool" where
  "net_ok s \<longleftrightarrow> (net_connected s \<longrightarrow> net_open s \<and> (\<exists>ls. list_all no_lf ls \<and> net_tx s = unlines ls))"

definition request_line :: "string \<Rightarrow> DWORD list \<Rightarrow> BYTE list \<Rightarrow> string" where
  "request_line head ws payload = head @ hex_text (concat (map (le_bytes 4) ws) @ payload) @ [LF]"

lemma wire_text_request:
  assumes "NUL \<notin> set head"
  shows "wire_text [CStr head, dword a, dword b, CStr [LF]] = request_line head [a, b] []"
    and "wire_text [CStr head, dword a, dword b, dword c, CStr [LF]] = request_line head [a, b, c] []"
    and "wire_text [CStr head, dword a, dword b, dword c, Pod bs, CStr [LF]] = request_line head [a, b, c] bs"
  using assms by (simp_all add: request_line_def cstr_id)

lemma length_request_line [wire_simps]:
  "length (request_line head ws payload) = length head + 8 * length ws + 2 * length payload + 1"
  by (induction ws) (simp_all add: request_line_def)

lemma request_line_LF: "LF \<notin> set head \<Longrightarrow> \<exists>l. no_lf l \<and> request_line head ws payload = l @ [LF]"
  using is_hex_text [of "concat (map (le_bytes 4) ws) @ payload"] is_hex_facts
  by (auto simp: request_line_def no_lf_def list_all_iff)

lemma outcome_ok:
  assumes "outcome s (request_line head ws payload) (ret, s')" and "net_ok s" and "net_connected s" and "LF \<notin> set head"
  shows "net_ok s'"
proof -
  obtain l where "no_lf l" "request_line head ws payload = l @ [LF]"
    using request_line_LF [OF assms(4)] by blast
  moreover obtain ls where "list_all no_lf ls" "net_tx s = unlines ls" "net_open s"
    using assms(2,3) by (auto simp: net_ok_def)
  moreover from calculation have "net_tx s @ request_line head ws payload = unlines (ls @ [l])"
    by (simp add: unlines_snoc)
  moreover from calculation have "list_all no_lf (ls @ [l])" by simp
  ultimately show ?thesis using assms(1) by (auto simp: outcome_def net_ok_def simp del: list_all_append)
qed

text \<open>The requests on a connection, with their lines.\<close>

lemma requests_outcome:
  assumes "net_connected s"
  shows "admissible write_event (written 69) start_op es \<Longrightarrow>
      \<exists>r. net_VCI_InitCAN s t i c (Some cfg) es = Inr r
        \<and> outcome s (request_line ''VCI_InitCAN,'' [t, i, c] (init_config_bytes cfg)) r"
    and "admissible write_event (written 57) start_op es \<Longrightarrow> wf_err_info err \<Longrightarrow>
      \<exists>r. net_VCI_ReadErrInfo s t i c (Some err) es = Inr r
        \<and> outcome s (request_line ''VCI_ReadErrInfo,'' [t, i, c] (err_info_bytes err)) r"
    and "admissible write_event (written 41) start_op es \<Longrightarrow>
      \<exists>r. net_VCI_ClearBuffer s t i c es = Inr r \<and> outcome s (request_line ''VCI_ClearBuffer,'' [t, i, c] []) r"
    and "admissible write_event (written 38) start_op es \<Longrightarrow>
      \<exists>r. net_VCI_StartCAN s t i c es = Inr r \<and> outcome s (request_line ''VCI_StartCAN,'' [t, i, c] []) r"
    and "admissible write_event (written 38) start_op es \<Longrightarrow>
      \<exists>r. net_VCI_ResetCAN s t i c es = Inr r \<and> outcome s (request_line ''VCI_ResetCAN,'' [t, i, c] []) r"
  using assms
    net_request_outcome [of "[CStr ''VCI_InitCAN,'', dword t, dword i, dword c, Pod (init_config_bytes cfg), CStr [LF]]" 256 es s]
    net_request_outcome [of "[CStr ''VCI_ReadErrInfo,'', dword t, dword i, dword c, Pod (err_info_bytes err), CStr [LF]]" 256 es s]
    net_request_outcome [of "[CStr ''VCI_ClearBuffer,'', dword t, dword i, dword c, CStr [LF]]" 256 es s]
    net_request_outcome [of "[CStr ''VCI_StartCAN,'', dword t, dword i, dword c, CStr [LF]]" 256 es s]
    net_request_outcome [of "[CStr ''VCI_ResetCAN,'', dword t, dword i, dword c, CStr [LF]]" 256 es s]
  by (simp_all add: net_VCI_InitCAN_def net_VCI_ReadErrInfo_def net_VCI_ClearBuffer_def net_VCI_StartCAN_def
      net_VCI_ResetCAN_def wire_text_request length_request_line length_init_config_bytes length_err_info_bytes
      del: wire_text_simps)

lemma close_outcome:
  assumes "net_connected s" and "admissible write_event (written 33) start_op es"
  shows "\<exists>r. net_VCI_CloseDevice s t i es = Inr r \<and> \<not> net_connected (snd r) \<and> \<not> net_open (snd r)"
proof -
  obtain r where "net_request 128 [CStr ''VCI_CloseDevice,'', dword t, dword i, CStr [LF]] s es = Inr r"
    "outcome s (request_line ''VCI_CloseDevice,'' [t, i] []) r"
    using net_request_outcome [of "[CStr ''VCI_CloseDevice,'', dword t, dword i, CStr [LF]]" 128 es s] assms(2)
    by (auto simp: wire_text_request length_request_line simp del: wire_text_simps)
  then show ?thesis
    using assms(1) by (auto simp: net_VCI_CloseDevice_def outcome_def close_socket_def status_defs)
qed

lemma connect_outcome:
  assumes "admissible connect_event (\<lambda>_ _. True) start_op ces" and "connect resolve s ces = Inr (ec, s1)"
  shows "\<exists>op. s1 = s\<lparr>net_open := op, net_tx := []\<rparr> \<and> (ec = 0 \<longrightarrow> op)"
  using assms conn.runs
  by (auto simp: connect_def Let_def cancel_timer_def start_op_def errc_defs split: if_splits)

lemma open_outcome:
  assumes "net_VCI_OpenDevice resolve s t i r ces wes = Inr (ret, s')"
    and "admissible connect_event (\<lambda>_ _. True) start_op ces"
    and "admissible write_event (written 40) start_op wes"
  shows "(ret = STATUS_NET_CONN_FAIL \<and> net_connected s' = net_connected s \<and> (net_connected s \<longrightarrow> s' = s))
    \<or> (\<exists>s1. (if net_connected s then s1 = s
             else s1 = s\<lparr>net_open := True, net_tx := [], net_connected := True\<rparr>)
         \<and> outcome s1 (request_line ''VCI_OpenDevice,'' [t, i, r] []) (ret, s'))"
proof -
  have req: "\<exists>x. net_request 128 [CStr ''VCI_OpenDevice,'', dword t, dword i, dword r, CStr [LF]] s1 wes = Inr x
      \<and> outcome s1 (request_line ''VCI_OpenDevice,'' [t, i, r] []) x" for s1
    using net_request_outcome [of "[CStr ''VCI_OpenDevice,'', dword t, dword i, dword r, CStr [LF]]" 128 wes s1] assms(3)
    by (simp add: wire_text_request length_request_line del: wire_text_simps)
  show ?thesis
  proof (cases "net_addr s = [] \<or> net_port s = [] \<or> net_connected s")
    case True
    then show ?thesis
      using assms(1) req [of s] by (auto simp: net_VCI_OpenDevice_def split: if_splits)
  next
    case False
    then obtain ec s1 where c: "connect resolve s ces = Inr (ec, s1)"
      and rest: "let s2 = (if ec \<noteq> 0 then s1 else s1\<lparr>net_connected := True\<rparr>) in
        (if ec \<noteq> 0 then Inr (STATUS_NET_CONN_FAIL, s2)
         else net_request 128 [CStr ''VCI_OpenDevice,'', dword t, dword i, dword r, CStr [LF]] s2 wes) = Inr (ret, s')"
      using assms(1) by (auto simp: net_VCI_OpenDevice_def and_then_Inr_iff)
    then show ?thesis
      using connect_outcome [OF assms(2) c] req [of "s1\<lparr>net_connected := True\<rparr>"] False
      by (auto split: if_splits)
  qed
qed

lemma net_step_ok:
  assumes "net_step s s'" and "net_ok s"
  shows "net_ok s'"
  using assms
proof (induction rule: net_step.induct)
  case (open_device resolve s t i r ces wes ret s')
  have new: "net_ok (s\<lparr>net_open := True, net_tx := [], net_connected := True\<rparr>)"
    by (auto simp: net_ok_def intro!: exI [of _ "[]"])
  show ?case
    using open_outcome [OF open_device(1-3)] open_device(4) new
      outcome_ok [of s "''VCI_OpenDevice,''" "[t, i, r]" "[]" ret s']
      outcome_ok [of "s\<lparr>net_open := True, net_tx := [], net_connected := True\<rparr>" "''VCI_OpenDevice,''" "[t, i, r]" "[]" ret s']
    by (cases "net_connected s") (auto simp: net_ok_def)
next
  case (close_device s t i es ret s')
  then show ?case
    using close_outcome [of s es t i] by (cases "net_connected s") (auto simp: net_ok_def net_VCI_CloseDevice_def)
next
  case (init_can s t i c cfg es ret s')
  then show ?case
    using requests_outcome(1) [of s es t i c cfg] outcome_ok [of s "''VCI_InitCAN,''"]
    by (cases "net_connected s") (auto simp: net_VCI_InitCAN_def)
next
  case (read_err s t i c err es ret s')
  then show ?case
    using requests_outcome(2) [of s es err t i c] outcome_ok [of s "''VCI_ReadErrInfo,''"]
    by (cases "net_connected s") (auto simp: net_VCI_ReadErrInfo_def)
next
  case (clear_buffer s t i c es ret s')
  then show ?case
    using requests_outcome(3) [of s es t i c] outcome_ok [of s "''VCI_ClearBuffer,''"]
    by (cases "net_connected s") (auto simp: net_VCI_ClearBuffer_def)
next
  case (start_can s t i c es ret s')
  then show ?case
    using requests_outcome(4) [of s es t i c] outcome_ok [of s "''VCI_StartCAN,''"]
    by (cases "net_connected s") (auto simp: net_VCI_StartCAN_def)
next
  case (reset_can s t i c es ret s')
  then show ?case
    using requests_outcome(5) [of s es t i c] outcome_ok [of s "''VCI_ResetCAN,''"]
    by (cases "net_connected s") (auto simp: net_VCI_ResetCAN_def)
next
  case (receive s t i c mem len w es n m s')
  then show ?case
    by (auto simp: net_VCI_Receive_def net_ok_def and_then_Inr_iff Let_def disconnect_def close_socket_def
        split: if_splits)
qed

section \<open>Properties\<close>

text \<open>
  C11: a request on a connection sends exactly its line or drops the connection. For every
  run asio can produce, the request returns without overrunning its buffer, and either
  succeeds with the whole line (name, parameters in hexadecimal, line feed) on the wire
  and the connection kept, or fails with at most part of the line sent and the connection
  closed.
\<close>

theorem net_requests_exact:
  assumes "net_connected s" and "wf_err_info err"
    and "admissible write_event (written 69) start_op es1" and "admissible write_event (written 57) start_op es2"
    and "admissible write_event (written 41) start_op es3" and "admissible write_event (written 38) start_op es4"
  shows "\<exists>r1 r2 r3 r4 r5.
     net_VCI_InitCAN s t i c (Some cfg) es1 = Inr r1
       \<and> outcome s (request_line ''VCI_InitCAN,'' [t, i, c] (init_config_bytes cfg)) r1
   \<and> net_VCI_ReadErrInfo s t i c (Some err) es2 = Inr r2
       \<and> outcome s (request_line ''VCI_ReadErrInfo,'' [t, i, c] (err_info_bytes err)) r2
   \<and> net_VCI_ClearBuffer s t i c es3 = Inr r3 \<and> outcome s (request_line ''VCI_ClearBuffer,'' [t, i, c] []) r3
   \<and> net_VCI_StartCAN s t i c es4 = Inr r4 \<and> outcome s (request_line ''VCI_StartCAN,'' [t, i, c] []) r4
   \<and> net_VCI_ResetCAN s t i c es4 = Inr r5 \<and> outcome s (request_line ''VCI_ResetCAN,'' [t, i, c] []) r5"
  using requests_outcome(1) [OF assms(1,3), of t i c cfg] requests_outcome(2) [OF assms(1,4,2), of t i c]
    requests_outcome(3) [OF assms(1,5), of t i c] requests_outcome(4) [OF assms(1,6), of t i c]
    requests_outcome(5) [OF assms(1,6), of t i c]
  by blast

definition sample_net :: can_net where
  "sample_net = \<lparr>net_connected = True, net_addr = ''h'', net_port = ''9'', net_rx = [], net_open = True, net_tx = []\<rparr>"

definition quick_write :: "nat \<Rightarrow> net_event list" where
  "quick_write len = [IoDone 0 len, TimerDone operation_canceled]"

lemma quick_write_ok: "admissible write_event (written len) start_op (quick_write len)"
  by (simp add: quick_write_def written_def start_op_def cancel_timer_def)

theorem net_requests_exact_witness:
  "\<exists>r. net_VCI_StartCAN sample_net 4 0 1 (quick_write 38) = Inr r
     \<and> outcome sample_net (request_line ''VCI_StartCAN,'' [4, 0, 1] []) r"
  using net_requests_exact [OF _ _ quick_write_ok quick_write_ok quick_write_ok quick_write_ok,
      of sample_net "\<lparr>ErrCode = 0, Passive_ErrData = [0, 0, 0], ArLost_ErrData = 0\<rparr>" 4 0 1 zero_init_config]
  by (auto simp: sample_net_def wf_err_info_def)

text \<open>
  C10: invariant of the connection. Starting from a new object, after any sequence of
  operations other than \<open>VCI_Transmit\<close>, with every run asio can produce: while the object
  counts itself connected the socket is open and what was written to it is a sequence of
  whole lines.
\<close>

theorem net_framing_invariant:
  assumes "net_step\<^sup>*\<^sup>* s s'" and "\<not> net_connected s" and "net_connected s'"
  shows "net_open s' \<and> (\<exists>ls. list_all no_lf ls \<and> net_tx s' = unlines ls)"
proof -
  have "net_ok s" using assms(2) by (simp add: net_ok_def)
  with assms(1) have "net_ok s'" by (induction rule: rtranclp_induct) (auto intro: net_step_ok)
  then show ?thesis using assms(3) by (simp add: net_ok_def)
qed

lemma sample_open:
  "net_VCI_OpenDevice (\<lambda>_ _. True) (sample_net\<lparr>net_connected := False\<rparr>) 4 0 0
     [IoDone 0 0, TimerDone operation_canceled] (quick_write 40)
   = Inr (STATUS_OK, sample_net\<lparr>net_tx := request_line ''VCI_OpenDevice,'' [4, 0, 0] []\<rparr>)"
proof -
  let ?args = "[CStr ''VCI_OpenDevice,'', dword 4, dword 0, dword 0, CStr [LF]]"
  obtain buff where b: "bin2hex_fast (replicate 128 NUL) 0 ?args = Inr (buff, 40)"
    and tk: "take 40 buff = request_line ''VCI_OpenDevice,'' [4, 0, 0] []"
  proof (rule bin2hex_fast_line [of ?args 128])
    show "length (wire_text ?args) < 128"
      by (simp add: wire_text_request length_request_line del: wire_text_simps)
  next
    fix buff
    assume "bin2hex_fast (replicate 128 NUL) 0 ?args = Inr (buff, length (wire_text ?args))"
      "\<And>n. n \<le> length (wire_text ?args) \<Longrightarrow> take n buff = take n (wire_text ?args)"
    then show ?thesis
      using that [of buff] by (simp add: wire_text_request length_request_line del: wire_text_simps)
  qed
  have "write_line s buff 40 (quick_write 40) = (40, 0, s\<lparr>net_tx := net_tx s @ take 40 buff\<rparr>)" for s
    by (simp add: write_line_def quick_write_def start_op_def cancel_timer_def errc_defs int_of_size)
  then show ?thesis
    using b tk by (simp add: net_VCI_OpenDevice_def connect_def net_request_def sample_net_def start_op_def
        cancel_timer_def errc_defs size_neq_iff)
qed

theorem net_framing_invariant_witness:
  "\<exists>s'. net_step\<^sup>*\<^sup>* (sample_net\<lparr>net_connected := False\<rparr>) s' \<and> net_connected s' \<and> net_tx s' \<noteq> []
     \<and> (\<exists>ls. list_all no_lf ls \<and> net_tx s' = unlines ls)"
proof -
  let ?s = "sample_net\<lparr>net_connected := False\<rparr>"
    and ?s' = "sample_net\<lparr>net_tx := request_line ''VCI_OpenDevice,'' [4, 0, 0] []\<rparr>"
  have "net_step ?s ?s'"
    by (rule open_device [OF sample_open _ quick_write_ok]) (simp add: start_op_def cancel_timer_def errc_defs)
  then have st: "net_step\<^sup>*\<^sup>* ?s ?s'" by simp
  have c: "\<not> net_connected ?s" "net_connected ?s'" by (simp_all add: sample_net_def)
  have ne: "net_tx ?s' \<noteq> []" by (simp add: request_line_def)
  show ?thesis using st c(2) ne net_framing_invariant [OF st c] by blast
qed

end
