(* ===== verification/Can_Net_Io.thy ===== *)
theory Can_Net_Io
  imports Can_Net
begin

text \<open>
  The properties of sending and receiving CAN objects over the network backend:
  what \<open>VCI_Transmit\<close> puts on the wire and how it reports errors, and what
  \<open>VCI_Receive\<close> makes of the byte stream of the connection.
\<close>

section \<open>Transmit\<close>

text \<open>
  C12: transmitting sends the objects in order, one line each. For every run asio can
  produce \<open>VCI_Transmit\<close> returns without a fault; it reports success exactly when all
  lines are on the wire, and after a failure the wire holds the lines of the objects
  before the failing one and a prefix of its line.
\<close>

theorem net_transmit_in_order:
  assumes "net_connected s" and "list_all wf_can_obj objs" and "length objs = unat len"
    and "\<And>j. admissible write_event (written 86) start_op (sched j)"
  shows "\<exists>r. net_VCI_Transmit s t ind c (Some objs) len sched = Inr r \<and> transmitted t ind c objs s r"
  using transmit_loop_spec [OF assms(2) _ assms(4), where i = 0 and n = "unat len"] assms(1,3)
  by (simp add: net_VCI_Transmit_def)

theorem net_transmit_in_order_witness:
  "\<exists>r. net_VCI_Transmit sample_net 4 0 0 (Some [zero_can_obj, zero_can_obj]) 2 (\<lambda>_. quick_write 86) = Inr r
     \<and> transmitted 4 0 0 [zero_can_obj, zero_can_obj] sample_net r"
  by (rule net_transmit_in_order) (simp_all add: quick_write_ok, simp add: sample_net_def)

text \<open>
  C39: \<open>VCI_Transmit\<close> overlooks a failed write. When the write fails and the deadline
  timer, which only a successful write cancels, expires afterwards, the timer handler
  replaces the error by "cancelled": the call fails, but the object stays connected with
  part of a line on the wire, so the next request is appended to a torn line. On the same
  events every other request closes the connection.
\<close>

theorem net_transmit_keeps_broken_connection:
  assumes "net_connected s" and "wf_can_obj p" and "0 < n" and "n < 86" and "r \<noteq> 0" and "\<bar>r\<bar> < 2 ^ 31"
  shows "\<exists>s'. net_VCI_Transmit s t ind c (Some [p]) 1 (\<lambda>_. [IoDone r n, TimerDone 0]) = Inr (STATUS_ERR, s')
     \<and> admissible write_event (written 86) start_op [IoDone r n, TimerDone 0]
     \<and> net_connected s' \<and> net_tx s' = net_tx s @ take n (tx_line t ind c p)
     \<and> LF \<notin> set (take n (tx_line t ind c p))"
proof -
  let ?args = "[CStr ''VCI_Transmit,'', dword t, dword ind, dword c, Pod (can_obj_bytes p), CStr [LF]]"
  obtain buff where b: "bin2hex_fast (replicate 256 NUL) 0 ?args = Inr (buff, 86)"
    and tk: "take n buff = take n (tx_line t ind c p)"
    using tx_line_buffer [OF assms(2), of t ind c] assms(4) by (metis less_imp_le)
  have w: "write_line s buff 86 [IoDone r n, TimerDone 0]
      = (0, operation_canceled, s\<lparr>net_tx := net_tx s @ take n buff\<rparr>)"
    using assms(5) by (simp add: write_line_def start_op_def errc_defs)
  have "net_VCI_Transmit s t ind c (Some [p]) 1 (\<lambda>_. [IoDone r n, TimerDone 0])
      = Inr (STATUS_ERR, s\<lparr>net_tx := net_tx s @ take n buff\<rparr>)"
    using assms(1) b w by (simp add: net_VCI_Transmit_def size_neq_iff errc_defs)
  moreover have "admissible write_event (written 86) start_op [IoDone r n, TimerDone 0]"
    using assms(4-6) by (simp add: written_def start_op_def)
  moreover have "LF \<notin> set (take n (tx_line t ind c p))"
  proof -
    let ?h = "''VCI_Transmit,'' @ hex_text (le_bytes 4 t @ le_bytes 4 ind @ le_bytes 4 c @ can_obj_bytes p)"
    have h: "tx_line t ind c p = ?h @ [LF]" by (simp add: tx_line_def)
    have "length ?h = 85" using assms(2) by (simp add: length_can_obj_bytes)
    then have "take n (tx_line t ind c p) = take n ?h @ take (n - 85) [LF]" by (simp only: h take_append)
    moreover have "n - 85 = 0" using assms(4) by simp
    ultimately have "take n (tx_line t ind c p) = take n ?h" by simp
    moreover have "LF \<notin> set ?h"
      using is_hex_text [of "le_bytes 4 t @ le_bytes 4 ind @ le_bytes 4 c @ can_obj_bytes p"] is_hex_facts
      by (auto simp: list_all_iff)
    ultimately show ?thesis by (metis in_set_takeD)
  qed
  ultimately show ?thesis using assms(1) tk by simp
qed

theorem net_transmit_keeps_broken_connection_witness:
  "\<exists>s'. net_VCI_Transmit sample_net 4 0 0 (Some [zero_can_obj]) 1 (\<lambda>_. [IoDone 104 20, TimerDone 0]) = Inr (STATUS_ERR, s')
     \<and> net_connected s' \<and> length (net_tx s') = 20"
  using net_transmit_keeps_broken_connection [of sample_net zero_can_obj 20 104 4 0 0]
    length_tx_line [of zero_can_obj 4 0 0]
  by (auto simp: sample_net_def)

section \<open>Receive\<close>

lemma rx_line_no_lf: "no_lf (rx_line cs obj)"
  using is_hex_text [of cs] is_hex_text [of "can_obj_bytes obj"] is_hex_facts
  by (auto simp: rx_line_def no_lf_def list_all_iff)

lemma unlines_has_LF: "ls \<noteq> [] \<Longrightarrow> LF \<in> set (unlines ls @ s)"
  by (cases ls) auto

text \<open>Whole lines taken from a stream are a prefix of its lines.\<close>

lemma unlines_prefix:
  assumes "list_all no_lf ls" and "list_all no_lf ls'" and "unlines ls @ a = unlines ls' @ b" and "LF \<notin> set b"
  shows "\<exists>k \<le> length ls'. ls = take k ls' \<and> a = unlines (drop k ls') @ b"
  using assms
proof (induction ls arbitrary: ls')
  case (Cons l ls)
  then have "LF \<in> set (unlines ls' @ b)" by (metis unlines_has_LF list.distinct(1))
  with Cons.prems(4) obtain l' ls'' where ls': "ls' = l' # ls''" by (cases ls') auto
  have "lines_of (unlines (l # ls) @ a) = lines_of (unlines ls' @ b)" using Cons.prems(3) by simp
  then have "l = l'" using Cons.prems(1,2) by (simp add: ls' lines_of_unlines_app del: unlines_simps)
  moreover obtain k where "k \<le> length ls''" "ls = take k ls''" "a = unlines (drop k ls'') @ b"
    using Cons.IH [of ls''] Cons.prems \<open>l = l'\<close> by (auto simp: ls')
  ultimately show ?case by (intro exI [of _ "Suc k"]) (simp add: ls')
qed auto

text \<open>
  C9: receiving consumes the stream line by line. For every run asio can produce in which no
  line carries more digits than an object has, the call returns without a fault; the bytes
  received so far are the lines that were consumed, in order, followed by what stays
  buffered; the count returned is their number and at most the capacity; the lines were
  decoded into consecutive objects; and unless the connection was lost the call returns
  only when the array is full or no complete line is left.
\<close>

theorem net_receive_stream:
  assumes "net_connected s" and "len \<noteq> 0" and "rx_admissible (rx_start s mem (unat len)) es"
    and "24 * unat len \<le> length mem" and "list_all line_ok (lines_of (net_rx s @ data_of es))"
  shows "\<exists>r. net_VCI_Receive s t i c (Some mem) len w es = Inr r \<and> received s (data_of es) mem (unat len) r"
  using receive_total [OF assms, of t i c w] receive_result [OF assms(1-3), of t i c w] by blast

definition sample_counters :: "BYTE list" where
  "sample_counters = replicate 16 0"

definition sample_rx :: "string" where
  "sample_rx = rx_line sample_counters zero_can_obj @ [LF]"

lemma sample_rx_line: "LF \<notin> set (rx_line sample_counters zero_can_obj)"
  using is_hex_text [of sample_counters] is_hex_text [of "can_obj_bytes zero_can_obj"] is_hex_facts
  by (auto simp: rx_line_def list_all_iff)

lemma sample_rx_lines: "lines_of sample_rx = [rx_line sample_counters zero_can_obj, []]"
  using lines_of_LF [OF sample_rx_line, of "[]"] by (simp add: sample_rx_def lines_of_def)

text \<open>A run in which one line arrives and the array for one object is full.\<close>

definition sample_run :: "net_event list" where
  "sample_run = [ReadDone 0 sample_rx, TimerDone operation_canceled]"

lemma sample_run_ok: "length mem = 24 \<Longrightarrow> rx_admissible (rx_start sample_net mem 1) sample_run"
proof -
  assume len: "length mem = 24"
  let ?p = "rx_start sample_net mem 1"
  have lf: "find_lf sample_rx = Some (length (rx_line sample_counters zero_can_obj))"
    using find_lf_line [OF sample_rx_line, of "[]"] by (simp add: sample_rx_def)
  have p: "rx_buf ?p = []" "rx_io ?p" "rx_timer ?p" "\<not> rx_tcancel ?p"
    by (simp_all add: rx_start_def async_read_def sample_net_def)
  have lp: "line_process (rx_line sample_counters zero_can_obj) mem 0 = Inr (0, can_obj_bytes zero_can_obj)"
    using line_process_rx_line [of sample_counters zero_can_obj 0 mem] len by (simp add: sample_counters_def)
  obtain q where "read_handler 0 sample_rx ?p = Inr q" "\<not> rx_io q" "rx_timer q" "rx_tcancel q"
    using p lf lp
    by (simp add: read_handler_def sample_rx_def async_read_def rx_cancel_timer_def rx_start_def sample_net_def)
  then show ?thesis using p by (simp add: sample_run_def sample_rx_def)
qed

theorem net_receive_stream_witness:
  "\<exists>r. net_VCI_Receive sample_net 4 0 0 (Some (replicate 24 0)) 1 100 sample_run = Inr r
     \<and> received sample_net sample_rx (replicate 24 0) 1 r"
proof -
  have "rx_admissible (rx_start sample_net (replicate 24 0) (unat (1 :: ULONG))) sample_run"
    using sample_run_ok by simp
  moreover have "data_of sample_run = sample_rx" by (simp add: sample_run_def)
  moreover have "net_rx sample_net = []" "net_connected sample_net" by (simp_all add: sample_net_def)
  moreover have "list_all line_ok (lines_of sample_rx)"
    by (simp add: sample_rx_lines rx_line_ok sample_counters_def) (simp add: line_ok_def receive_pattern_def head_match_def)
  ultimately show ?thesis
    using net_receive_stream [of sample_net 1 "replicate 24 0" sample_run 4 0 0 100] by simp
qed

lemma receive_decodes:
  assumes "net_connected s" and "len \<noteq> 0" and "rx_admissible (rx_start s mem (unat len)) es"
    and "24 * unat len \<le> length mem"
    and "net_rx s @ data_of es = unlines (map (\<lambda>(cs, obj). rx_line cs obj) ps) @ rest" and "LF \<notin> set rest"
    and "list_all (\<lambda>(cs, obj). length cs = 16 \<and> wf_can_obj obj) ps" and "line_ok rest"
  shows "\<exists>k s'. k \<le> unat len \<and> k \<le> length ps
     \<and> net_VCI_Receive s t i c (Some mem) len w es =
         Inr (of_nat k, Some (concat (map (\<lambda>(_, obj). can_obj_bytes obj) (take k ps)) @ drop (24 * k) mem), s')
     \<and> net_rx s' = unlines (map (\<lambda>(cs, obj). rx_line cs obj) (drop k ps)) @ rest
     \<and> (net_connected s' \<longrightarrow> k = unat len \<or> k = length ps)"
proof -
  let ?ls = "map (\<lambda>(cs, obj). rx_line cs obj) ps"
  have nl: "list_all no_lf ?ls" using rx_line_no_lf by (auto simp: list_all_iff)
  have st: "lines_of (net_rx s @ data_of es) = ?ls @ [rest]"
    using assms(5,6) nl by (simp add: lines_of_unlines_app lines_of_last)
  have "list_all line_ok (lines_of (net_rx s @ data_of es))"
    using assms(7,8) rx_line_ok by (auto simp: st list_all_iff)
  then obtain r where r: "net_VCI_Receive s t i c (Some mem) len w es = Inr r"
    and rec: "received s (data_of es) mem (unat len) r"
    using receive_total [OF assms(1-4), of t i c w] receive_result [OF assms(1-3), of t i c w] by blast
  obtain n m s' where r3: "r = (n, m, s')" by (cases r)
  with rec obtain ls mem' where ls: "list_all no_lf ls" "net_rx s @ data_of es = unlines ls @ net_rx s'"
      "n = of_nat (length ls)" "length ls \<le> unat len" "m = Some mem'" "process_lines 0 ls mem = Inr mem'"
      "net_connected s' \<longrightarrow> length ls = unat len \<or> LF \<notin> set (net_rx s')"
    by (auto simp: received_def)
  obtain k where k: "k \<le> length ps" "ls = take k ?ls" "net_rx s' = unlines (drop k ?ls) @ rest"
    using unlines_prefix [OF ls(1) nl] ls(2) assms(5,6) by (metis length_map)
  then have len: "length ls = k" by simp
  have "process_lines 0 (map (\<lambda>(cs, obj). rx_line cs obj) (take k ps)) mem
      = Inr (concat (map (\<lambda>(_, obj). can_obj_bytes obj) (take k ps)) @ drop (24 * k) mem)"
  proof -
    have "list_all (\<lambda>(cs, obj). length cs = 16 \<and> wf_can_obj obj) (take k ps)"
      using assms(7) by (auto simp: list_all_iff dest: in_set_takeD)
    moreover have lk: "length (take k ps) = k" using k(1) by simp
    moreover have "24 * (0 + length (take k ps)) \<le> length mem" unfolding lk using assms(4) ls(4) len by simp
    ultimately show ?thesis using process_lines_rx [of "take k ps" 0 mem] by simp
  qed
  then have "mem' = concat (map (\<lambda>(_, obj). can_obj_bytes obj) (take k ps)) @ drop (24 * k) mem"
    using ls(6) k(2) by (simp add: take_map)
  moreover have "net_connected s' \<longrightarrow> k = unat len \<or> k = length ps"
    using ls(7) k len unlines_has_LF [of "drop k ?ls"] by (auto simp: drop_map)
  ultimately show ?thesis
    using r r3 ls(3,4,5) k len by (intro exI [of _ k] exI [of _ s']) (auto simp: drop_map)
qed

text \<open>
  C6: end of the receiving path. If the stream consists of lines of well-formed objects
  (and an incomplete rest), the objects come out unchanged and in order: the call returns
  as many as fit and have arrived, their representations fill the array from the start,
  the rest of the array is untouched, and the lines not served stay buffered.
\<close>

theorem net_receive_decodes:
  assumes "net_connected s" and "len \<noteq> 0" and "rx_admissible (rx_start s mem (unat len)) es"
    and "24 * unat len \<le> length mem"
    and "net_rx s @ data_of es = unlines (map (\<lambda>(cs, obj). rx_line cs obj) ps) @ rest" and "LF \<notin> set rest"
    and "list_all (\<lambda>(cs, obj). length cs = 16 \<and> wf_can_obj obj) ps" and "line_ok rest"
  shows "\<exists>k s'. k \<le> unat len \<and> k \<le> length ps
     \<and> net_VCI_Receive s t i c (Some mem) len w es =
         Inr (of_nat k, Some (concat (map (\<lambda>(_, obj). can_obj_bytes obj) (take k ps)) @ drop (24 * k) mem), s')
     \<and> net_rx s' = unlines (map (\<lambda>(cs, obj). rx_line cs obj) (drop k ps)) @ rest
     \<and> (net_connected s' \<longrightarrow> k = unat len \<or> k = length ps)"
  using receive_decodes [OF assms] .

theorem net_receive_decodes_witness:
  "\<exists>k s'. k \<le> 1
     \<and> net_VCI_Receive sample_net 4 0 0 (Some (replicate 24 7)) 1 100 sample_run =
         Inr (of_nat k, Some (concat (map can_obj_bytes (take k [zero_can_obj])) @ drop (24 * k) (replicate 24 7)), s')"
proof -
  have "rx_admissible (rx_start sample_net (replicate 24 7) (unat (1 :: ULONG))) sample_run"
    using sample_run_ok by simp
  moreover have "net_rx sample_net @ data_of sample_run
      = unlines (map (\<lambda>(cs, obj). rx_line cs obj) [(sample_counters, zero_can_obj)]) @ []"
    by (simp add: sample_run_def sample_net_def sample_rx_def)
  moreover have "line_ok []" by (simp add: line_ok_def receive_pattern_def head_match_def)
  ultimately obtain k s' where "k \<le> 1"
    "net_VCI_Receive sample_net 4 0 0 (Some (replicate 24 7)) 1 100 sample_run =
       Inr (of_nat k, Some (concat (map (\<lambda>(_, obj). can_obj_bytes obj) (take k [(sample_counters, zero_can_obj)]))
         @ drop (24 * k) (replicate 24 7)), s')"
    using net_receive_decodes [of sample_net 1 "replicate 24 7" sample_run "[(sample_counters, zero_can_obj)]" "[]" 4 0 0 100]
    by (auto simp: sample_counters_def sample_net_def)
  then show ?thesis by (cases k) auto
qed

text \<open>
  C40: a line with more digits than an object has is decoded past the object: its bytes are
  written one after the other without regard to the size of the array, and if they exceed
  what is left of the array, memory behind it is overwritten.
\<close>

theorem net_line_overruns_array:
  assumes "length counters = 16" and "24 \<le> length bs" and "off \<le> length mem"
  shows "line_process (''VCI_Receive,'' @ hex_text counters @ hex_text bs) mem off =
     (if off + length bs \<le> length mem
      then Inr (0, take off mem @ bs @ drop (off + length bs) mem) else Inl Write_Overrun)"
proof -
  let ?l = "''VCI_Receive,'' @ hex_text counters @ hex_text bs"
  have len: "length (hex_text bs) \<ge> 48" using assms(2) by simp
  have ne: "hex_text bs \<noteq> []" using len by (metis list.size(3) not_numeral_le_zero)
  have d: "drop 44 ?l = hex_text bs" using assms(1) by simp
  have "receive_pattern ?l = Some 44"
    using assms(1) is_hex_text [of counters] by (simp add: receive_pattern_def head_match_def)
  moreover have "hex_str_pattern (drop 44 ?l)" unfolding d using ne is_hex_text [of bs] by (simp add: hex_str_pattern_def)
  moreover have "44 < length ?l" using assms(1) len by (simp del: length_greater_0_conv)
  ultimately have "line_process ?l mem off = and_then (store mem off (unhex (drop 44 ?l))) (\<lambda>m. Inr (0, m))"
    using assms(3) len d by (intro line_process_decode) auto
  then show ?thesis unfolding d by (simp add: store_def)
qed

theorem net_line_overruns_array_witness:
  "line_process (''VCI_Receive,'' @ hex_text (replicate 16 0) @ hex_text (replicate 25 0)) (replicate 24 0) 0
   = Inl Write_Overrun"
  using net_line_overruns_array [of "replicate 16 0" "replicate 25 0" 0 "replicate 24 0"] by simp

text \<open>
  The receiver accepts the head of a \<open>VCI_Transmit\<close> line, but not the lines that
  \<open>VCI_Transmit\<close> of this library sends: they carry twelve bytes of parameters where the
  receiver skips sixteen, so the payload is too short and the object is never stored.
\<close>

theorem net_own_lines_rejected:
  assumes "wf_can_obj p"
  shows "receive_pattern (butlast (tx_line t ind c p)) = Some 45
     \<and> line_process (butlast (tx_line t ind c p)) mem off = Inr (- 1, mem)"
proof -
  let ?bs = "le_bytes 4 t @ le_bytes 4 ind @ le_bytes 4 c @ can_obj_bytes p"
  let ?l = "''VCI_Transmit,'' @ hex_text ?bs"
  have l: "butlast (tx_line t ind c p) = ?l" by (simp add: tx_line_def butlast_append)
  have "length ?bs = 36" using assms by (simp add: length_can_obj_bytes)
  then have len: "length (hex_text ?bs) = 72" by (simp only: length_hex_text)
  have hex: "list_all is_hex (hex_text ?bs)" by (rule is_hex_text)
  then have "list_all is_hex (take 32 (hex_text ?bs))" by (auto simp: list_all_iff dest: in_set_takeD)
  then have rp: "receive_pattern ?l = Some 45"
    using len by (simp add: receive_pattern_def head_match_def del: hex_text_simps)
  moreover have "length (drop 45 ?l) = 40" using len by (simp del: hex_text_simps)
  ultimately show ?thesis unfolding l by (simp add: line_process_def sizeof_can_obj_def del: hex_text_simps)
qed

theorem net_own_lines_rejected_witness:
  "line_process (butlast (tx_line 4 0 0 zero_can_obj)) (replicate 24 0) 0 = Inr (- 1, replicate 24 0)"
  using net_own_lines_rejected [OF wf_zero_can_obj, of 4 0 0 "replicate 24 0" 0] by blast

end
