(* ===== verification/Callback_List.thy ===== *)
theory Callback_List
  imports Prelude
begin

text \<open>
  3rd/include/eventpp/callbacklist.h: the doubly linked list of callbacks behind the
  event queue of the agent. Nodes are shared between the list, the handles of the
  registered callbacks and the iterations in progress, so the model is a heap of nodes
  with addresses; a handle is the address of its node.

  A handle is a \<open>weak_ptr\<close>: \<open>lock\<close> fails once no strong reference is left. A node on
  the list is referenced by the list; a removed node survives only while an iteration in
  progress (or another removed node) still references it. Which removed nodes do is the
  argument \<open>kept\<close> of the operations that lock a handle. The \<open>assert\<close>s are those of
  a release build, where they are compiled out.

  Loops over the list take the number of allocated nodes as fuel, which no list exceeds.
\<close>

section \<open>Nodes and lists\<close>

record 'c cnode =
  cn_prev :: "nat option"
  cn_next :: "nat option"
  cn_callback :: 'c
  cn_counter :: "32 word"

definition removedCounter :: "32 word" where "removedCounter = 0"

record 'c clist =
  cl_heap :: "nat \<rightharpoonup> 'c cnode"
  cl_alloc :: nat
  cl_head :: "nat option"
  cl_tail :: "nat option"
  cl_counter :: "32 word"     \<comment> \<open>\<open>currentCounter\<close>\<close>

definition CallbackList :: "'c clist" where
  "CallbackList = \<lparr>cl_heap = Map.empty, cl_alloc = 0, cl_head = None, cl_tail = None, cl_counter = 0\<rparr>"

text \<open>Reading a node through a pointer, and assigning to its members.\<close>

definition nd :: "'c clist \<Rightarrow> nat \<Rightarrow> 'c cnode" where
  "nd l a = the (cl_heap l a)"

definition upd :: "nat \<Rightarrow> ('c cnode \<Rightarrow> 'c cnode) \<Rightarrow> 'c clist \<Rightarrow> 'c clist" where
  "upd a f l = l\<lparr>cl_heap := (cl_heap l)(a \<mapsto> f (nd l a))\<rparr>"

definition cl_empty :: "'c clist \<Rightarrow> bool" where
  "cl_empty l \<longleftrightarrow> cl_head l = None"

section \<open>Operations\<close>

fun reset_counters :: "nat \<Rightarrow> nat option \<Rightarrow> 'c clist \<Rightarrow> 'c clist" where
  "reset_counters 0 p l = l"
| "reset_counters (Suc n) None l = l"
| "reset_counters (Suc n) (Some a) l =
     reset_counters n (cn_next (nd l a)) (upd a (\<lambda>x. x\<lparr>cn_counter := 1\<rparr>) l)"

definition getNextCounter :: "'c clist \<Rightarrow> 32 word \<times> 'c clist" where
  "getNextCounter l =
     (let result = cl_counter l + 1; l1 = l\<lparr>cl_counter := result\<rparr>
      in if result = 0 then
           let l2 = reset_counters (cl_alloc l1) (cl_head l1) l1; result2 = cl_counter l2 + 1
           in (result2, l2\<lparr>cl_counter := result2\<rparr>)
         else (result, l1))"

definition doAllocateNode :: "'c \<Rightarrow> 'c clist \<Rightarrow> nat \<times> 'c clist" where
  "doAllocateNode callback l =
     (let (counter, l1) = getNextCounter l; a = cl_alloc l1
      in (a, l1\<lparr>cl_heap := (cl_heap l1)(a \<mapsto> \<lparr>cn_prev = None, cn_next = None, cn_callback = callback, cn_counter = counter\<rparr>),
                cl_alloc := Suc a\<rparr>))"

definition cl_append :: "'c \<Rightarrow> 'c clist \<Rightarrow> nat \<times> 'c clist" where
  "cl_append callback l =
     (let (node, l1) = doAllocateNode callback l in
      case cl_head l1 of
        Some _ \<Rightarrow>
          let t = the (cl_tail l1)
          in (node, (upd t (\<lambda>x. x\<lparr>cn_next := Some node\<rparr>) (upd node (\<lambda>x. x\<lparr>cn_prev := cl_tail l1\<rparr>) l1))\<lparr>cl_tail := Some node\<rparr>)
      | None \<Rightarrow> (node, l1\<lparr>cl_head := Some node, cl_tail := Some node\<rparr>))"

definition cl_prepend :: "'c \<Rightarrow> 'c clist \<Rightarrow> nat \<times> 'c clist" where
  "cl_prepend callback l =
     (let (node, l1) = doAllocateNode callback l in
      case cl_head l1 of
        Some h \<Rightarrow>
          (node, (upd h (\<lambda>x. x\<lparr>cn_prev := Some node\<rparr>) (upd node (\<lambda>x. x\<lparr>cn_next := Some h\<rparr>) l1))\<lparr>cl_head := Some node\<rparr>)
      | None \<Rightarrow> (node, l1\<lparr>cl_head := Some node, cl_tail := Some node\<rparr>))"

definition lock :: "(nat \<Rightarrow> bool) \<Rightarrow> 'c clist \<Rightarrow> nat \<Rightarrow> bool" where
  "lock kept l h \<longleftrightarrow> (case cl_heap l h of None \<Rightarrow> False | Some n \<Rightarrow> cn_counter n \<noteq> removedCounter \<or> kept h)"

definition doInsert :: "nat \<Rightarrow> nat \<Rightarrow> 'c clist \<Rightarrow> 'c clist" where
  "doInsert node before l =
     (let l1 = upd node (\<lambda>x. x\<lparr>cn_prev := cn_prev (nd l before), cn_next := Some before\<rparr>) l;
          l2 = (case cn_prev (nd l1 before) of
                  Some p \<Rightarrow> upd p (\<lambda>x. x\<lparr>cn_next := Some node\<rparr>) l1 | None \<Rightarrow> l1);
          l3 = upd before (\<lambda>x. x\<lparr>cn_prev := Some node\<rparr>) l2
      in if cl_head l3 = Some before then l3\<lparr>cl_head := Some node\<rparr> else l3)"

definition cl_insert :: "(nat \<Rightarrow> bool) \<Rightarrow> 'c \<Rightarrow> nat \<Rightarrow> 'c clist \<Rightarrow> nat \<times> 'c clist" where
  "cl_insert kept callback before l =
     (if lock kept l before then
        let (node, l1) = doAllocateNode callback l in (node, doInsert node before l1)
      else cl_append callback l)"

definition doFreeNode :: "nat \<Rightarrow> 'c clist \<Rightarrow> 'c clist" where
  "doFreeNode node l =
     (let l1 = (case cn_next (nd l node) of
                  Some nx \<Rightarrow> upd nx (\<lambda>x. x\<lparr>cn_prev := cn_prev (nd l node)\<rparr>) l | None \<Rightarrow> l);
          l2 = (case cn_prev (nd l1 node) of
                  Some pv \<Rightarrow> upd pv (\<lambda>x. x\<lparr>cn_next := cn_next (nd l1 node)\<rparr>) l1 | None \<Rightarrow> l1);
          l3 = upd node (\<lambda>x. x\<lparr>cn_counter := removedCounter\<rparr>) l2;
          l4 = (if cl_head l3 = Some node then l3\<lparr>cl_head := cn_next (nd l3 node)\<rparr> else l3)
      in if cl_tail l4 = Some node then l4\<lparr>cl_tail := cn_prev (nd l4 node)\<rparr> else l4)"

definition cl_remove :: "(nat \<Rightarrow> bool) \<Rightarrow> nat \<Rightarrow> 'c clist \<Rightarrow> bool \<times> 'c clist" where
  "cl_remove kept handle l = (if lock kept l handle then (True, doFreeNode handle l) else (False, l))"

fun first_of :: "nat \<Rightarrow> 'c clist \<Rightarrow> nat \<Rightarrow> nat" where
  "first_of 0 l a = a"
| "first_of (Suc n) l a = (case cn_prev (nd l a) of None \<Rightarrow> a | Some p \<Rightarrow> first_of n l p)"

definition cl_ownsHandle :: "(nat \<Rightarrow> bool) \<Rightarrow> nat \<Rightarrow> 'c clist \<Rightarrow> bool" where
  "cl_ownsHandle kept handle l \<longleftrightarrow>
     lock kept l handle \<and> cl_head l = Some (first_of (cl_alloc l) l handle)"

section \<open>Iteration\<close>

text \<open>
  \<open>doForEachIf\<close> keeps a node pointer and the counter read at the start. One round tests
  the node, calls the callback if it is visible, and moves on; other operations may run
  between the rounds (from the callback, or from another thread).
\<close>

record cursor =
  cur_node :: "nat option"
  cur_counter :: "32 word"

definition iter_begin :: "'c clist \<Rightarrow> cursor" where
  "iter_begin l = \<lparr>cur_node = cl_head l, cur_counter = cl_counter l\<rparr>"

definition visible :: "32 word \<Rightarrow> 'c cnode \<Rightarrow> bool" where
  "visible counter n \<longleftrightarrow> cn_counter n \<noteq> removedCounter \<and> counter \<ge> cn_counter n"

definition iter_call :: "'c clist \<Rightarrow> cursor \<Rightarrow> (nat \<times> 'c) option" where
  "iter_call l i =
     (case cur_node i of
        None \<Rightarrow> None
      | Some a \<Rightarrow> if visible (cur_counter i) (nd l a) then Some (a, cn_callback (nd l a)) else None)"

definition iter_next :: "'c clist \<Rightarrow> cursor \<Rightarrow> cursor" where
  "iter_next l i =
     (case cur_node i of None \<Rightarrow> i | Some a \<Rightarrow> i\<lparr>cur_node := cn_next (nd l a)\<rparr>)"

text \<open>
  The loop of \<open>doForEachIf\<close>: the function is given the handle and the callback, may
  change the list and the rest of the program's state \<open>'s\<close>, and says whether to go on.
  \<open>None\<close> is a loop that never ends.
\<close>

partial_function (option) for_each_if ::
  "(nat \<Rightarrow> 'c \<Rightarrow> 'c clist \<times> 's \<Rightarrow> bool \<times> 'c clist \<times> 's) \<Rightarrow> cursor \<Rightarrow> 'c clist \<times> 's
    \<Rightarrow> (bool \<times> 'c clist \<times> 's) option" where
  "for_each_if f i st =
     (case cur_node i of
        None \<Rightarrow> Some (True, st)
      | Some a \<Rightarrow>
          (case iter_call (fst st) i of
             None \<Rightarrow> for_each_if f (iter_next (fst st) i) st
           | Some (h, cb) \<Rightarrow>
               (let (go, st') = f h cb st
                in if go then for_each_if f (iter_next (fst st') i) st' else Some (False, st'))))"

definition doForEachIf ::
  "(nat \<Rightarrow> 'c \<Rightarrow> 'c clist \<times> 's \<Rightarrow> bool \<times> 'c clist \<times> 's) \<Rightarrow> 'c clist \<times> 's
    \<Rightarrow> (bool \<times> 'c clist \<times> 's) option" where
  "doForEachIf f st = for_each_if f (iter_begin (fst st)) st"

section \<open>Freeing and copying\<close>

fun free_nodes :: "(nat \<Rightarrow> bool) \<Rightarrow> nat \<Rightarrow> nat option \<Rightarrow> 'c clist \<Rightarrow> 'c clist" where
  "free_nodes kept 0 p l = l"
| "free_nodes kept (Suc n) None l = l"
| "free_nodes kept (Suc n) (Some a) l =
     free_nodes kept n (cn_next (nd l a))
       (if kept a then upd a (\<lambda>x. x\<lparr>cn_prev := None, cn_next := None\<rparr>) l
        else l\<lparr>cl_heap := (cl_heap l)(a := None)\<rparr>)"

text \<open>\<open>tail\<close> is not reset.\<close>

definition doFreeAllNodes :: "(nat \<Rightarrow> bool) \<Rightarrow> 'c clist \<Rightarrow> 'c clist" where
  "doFreeAllNodes kept l = free_nodes kept (cl_alloc l) (cl_head l) (l\<lparr>cl_head := None\<rparr>)"

fun clone_nodes :: "nat \<Rightarrow> 'c clist \<Rightarrow> nat option \<Rightarrow> 32 word \<Rightarrow> nat option \<Rightarrow> 'c clist \<Rightarrow> 'c clist" where
  "clone_nodes 0 from fromNode counter node l = l\<lparr>cl_tail := node\<rparr>"
| "clone_nodes (Suc n) from None counter node l = l\<lparr>cl_tail := node\<rparr>"
| "clone_nodes (Suc n) from (Some f) counter node l =
     (let a = cl_alloc l;
          l1 = l\<lparr>cl_heap := (cl_heap l)(a \<mapsto> \<lparr>cn_prev = node, cn_next = None,
                   cn_callback = cn_callback (nd from f), cn_counter = counter\<rparr>), cl_alloc := Suc a\<rparr>;
          l2 = (case node of Some b \<Rightarrow> upd b (\<lambda>x. x\<lparr>cn_next := Some a\<rparr>) l1 | None \<Rightarrow> l1\<lparr>cl_head := Some a\<rparr>)
      in clone_nodes n from (cn_next (nd from f)) counter (Some a) l2)"

text \<open>The copy constructor.\<close>

definition cloneFrom :: "'c clist \<Rightarrow> 'c clist" where
  "cloneFrom from =
     (let (counter, l) = getNextCounter CallbackList
      in clone_nodes (Suc (cl_alloc from)) from (cl_head from) counter None l)"

definition cl_swap :: "'c clist \<Rightarrow> 'c clist \<Rightarrow> 'c clist \<times> 'c clist" where
  "cl_swap l other = (other, l)"

section \<open>Lists on the heap\<close>

definition first_or :: "nat list \<Rightarrow> nat option \<Rightarrow> nat option" where
  "first_or xs q = (case xs of [] \<Rightarrow> q | x # _ \<Rightarrow> Some x)"

definition last_or :: "nat list \<Rightarrow> nat option \<Rightarrow> nat option" where
  "last_or xs p = (if xs = [] then p else Some (last xs))"

text \<open>A linked segment between a predecessor and a successor.\<close>

fun dll :: "(nat \<rightharpoonup> 'c cnode) \<Rightarrow> nat option \<Rightarrow> nat list \<Rightarrow> nat option \<Rightarrow> bool" where
  "dll h p [] q \<longleftrightarrow> True"
| "dll h p (x # xs) q \<longleftrightarrow>
     (\<exists>n. h x = Some n \<and> cn_prev n = p \<and> cn_next n = first_or xs q) \<and> dll h (Some x) xs q"

lemma first_or_simps [simp]:
  "first_or [] q = q" "first_or (x # xs) q = Some x" "first_or (xs @ ys) q = first_or xs (first_or ys q)"
  by (simp_all add: first_or_def split: list.split)

lemma last_or_simps [simp]:
  "last_or [] p = p" "last_or (xs @ [x]) p = Some x" "last_or (x # xs) p = last_or xs (Some x)"
  "last_or (xs @ ys) p = last_or ys (last_or xs p)"
  by (simp_all add: last_or_def)

lemma dll_append: "dll h p (xs @ ys) q \<longleftrightarrow> dll h p xs (first_or ys q) \<and> dll h (last_or xs p) ys q"
  by (induction xs arbitrary: p) auto

lemma dll_cong: "(\<And>x. x \<in> set xs \<Longrightarrow> h x = h' x) \<Longrightarrow> dll h p xs q = dll h' p xs q"
  by (induction xs arbitrary: p) auto

lemma dll_upd_other: "a \<notin> set xs \<Longrightarrow> dll (h(a := v)) p xs q = dll h p xs q"
  by (rule dll_cong) auto

text \<open>
  The representation invariant: \<open>xs\<close> are the nodes of the list in order. Nodes on the
  list have a counter that is not the mark of removed nodes and not in the future; nodes
  not on the list carry the mark.
\<close>

definition rep :: "'c clist \<Rightarrow> nat list \<Rightarrow> bool" where
  "rep l xs \<longleftrightarrow> distinct xs \<and> dll (cl_heap l) None xs None
     \<and> cl_head l = first_or xs None \<and> cl_tail l = last_or xs None
     \<and> dom (cl_heap l) \<subseteq> {..< cl_alloc l}
     \<and> (\<forall>a n. cl_heap l a = Some n \<longrightarrow>
          (a \<in> set xs \<longleftrightarrow> cn_counter n \<noteq> removedCounter) \<and> cn_counter n \<le> cl_counter l)"

lemma dll_dom: "dll h p xs q \<Longrightarrow> x \<in> set xs \<Longrightarrow> \<exists>n. h x = Some n"
  by (induction xs arbitrary: p) auto

lemma rep_dom: "rep l xs \<Longrightarrow> x \<in> set xs \<Longrightarrow> \<exists>n. cl_heap l x = Some n"
  by (auto simp: rep_def dest: dll_dom)

lemma rep_counter:
  "rep l xs \<Longrightarrow> cl_heap l a = Some n \<Longrightarrow> (a \<in> set xs \<longleftrightarrow> cn_counter n \<noteq> removedCounter) \<and> cn_counter n \<le> cl_counter l"
  by (auto simp: rep_def)

lemma rep_length: "rep l xs \<Longrightarrow> length xs \<le> cl_alloc l"
proof -
  assume r: "rep l xs"
  have "set xs \<subseteq> dom (cl_heap l)" using rep_dom [OF r] by auto
  then have "set xs \<subseteq> {..< cl_alloc l}" using r by (auto simp: rep_def)
  then have "card (set xs) \<le> cl_alloc l" using card_mono [of "{..< cl_alloc l}"] by simp
  then show ?thesis using r by (simp add: rep_def distinct_card)
qed

section \<open>Relinking\<close>

definition set_next :: "nat option \<Rightarrow> nat option \<Rightarrow> (nat \<rightharpoonup> 'c cnode) \<Rightarrow> (nat \<rightharpoonup> 'c cnode)" where
  "set_next p v h = (case p of None \<Rightarrow> h | Some a \<Rightarrow> h(a \<mapsto> (the (h a))\<lparr>cn_next := v\<rparr>))"

definition set_prev :: "nat option \<Rightarrow> nat option \<Rightarrow> (nat \<rightharpoonup> 'c cnode) \<Rightarrow> (nat \<rightharpoonup> 'c cnode)" where
  "set_prev p v h = (case p of None \<Rightarrow> h | Some a \<Rightarrow> h(a \<mapsto> (the (h a))\<lparr>cn_prev := v\<rparr>))"

lemma dll_set_next:
  assumes "dll h p xs q" and "distinct xs"
  shows "dll (set_next (last_or xs None) q' h) p xs q'"
proof (cases xs rule: rev_cases)
  case (snoc ys z)
  have z: "z \<notin> set ys" using assms(2) snoc by simp
  have "dll h p ys (Some z)" using assms(1) snoc by (simp add: dll_append)
  then show ?thesis
    using assms(1) snoc z by (auto simp: dll_append set_next_def dll_upd_other)
qed simp

lemma dll_set_prev:
  assumes "dll h p xs q" and "distinct xs"
  shows "dll (set_prev (first_or xs None) p' h) p' xs q"
  using assms by (cases xs) (auto simp: set_prev_def dll_upd_other)

lemma dll_set_other:
  "p \<noteq> None \<longrightarrow> the p \<notin> set xs \<Longrightarrow> dll (set_next p v h) b xs q = dll h b xs q"
  "p \<noteq> None \<longrightarrow> the p \<notin> set xs \<Longrightarrow> dll (set_prev p v h) b xs q = dll h b xs q"
  by (auto simp: set_next_def set_prev_def dll_upd_other split: option.split)

lemma first_or_mem: "first_or xs None = Some a \<Longrightarrow> a \<in> set xs"
  by (cases xs) auto

lemma last_or_mem: "last_or xs None = Some a \<Longrightarrow> a \<in> set xs"
  by (auto simp: last_or_def split: if_splits)

text \<open>Linking a node between two segments, and unlinking one.\<close>

lemma dll_link:
  assumes "dll h None (xs @ ys) None" and "distinct (xs @ a # ys)"
    and "h a = Some n" and "cn_prev n = last_or xs None" and "cn_next n = first_or ys None"
  shows "dll (set_prev (first_or ys None) (Some a) (set_next (last_or xs None) (Some a) h)) None (xs @ a # ys) None"
proof -
  let ?h1 = "set_next (last_or xs None) (Some a) h" and ?f = "first_or ys None" and ?l = "last_or xs None"
  have d: "distinct xs" "distinct ys" "a \<notin> set xs" "a \<notin> set ys" "set xs \<inter> set ys = {}" using assms(2) by auto
  have xs: "dll h None xs (first_or ys None)" and ys: "dll h ?l ys None" using assms(1) by (simp_all add: dll_append)
  have l: "?l \<noteq> None \<longrightarrow> the ?l \<in> set xs" using last_or_mem by auto
  have f: "?f \<noteq> None \<longrightarrow> the ?f \<in> set ys" using first_or_mem by auto
  have "dll ?h1 None xs (Some a)" using xs d(1) by (rule dll_set_next)
  then have 1: "dll (set_prev ?f (Some a) ?h1) None xs (Some a)"
    using f d(5) by (subst dll_set_other(2)) auto
  have "dll ?h1 ?l ys None" using ys l d(5) by (subst dll_set_other(1)) auto
  then have 2: "dll (set_prev ?f (Some a) ?h1) (Some a) ys None" using d(2) by (rule dll_set_prev)
  have "?h1 a = h a" using l d(3) by (auto simp: set_next_def split: option.split)
  then have "set_prev ?f (Some a) ?h1 a = Some n"
    using f d(4) assms(3) by (auto simp: set_prev_def split: option.split)
  then show ?thesis using 1 2 assms(4,5) by (simp add: dll_append)
qed

lemma dll_unlink:
  assumes "dll h None (xs @ a # ys) None" and "distinct (xs @ a # ys)"
  shows "dll (set_next (last_or xs None) (first_or ys None) (set_prev (first_or ys None) (last_or xs None) h))
     None (xs @ ys) None"
proof -
  let ?f = "first_or ys None" and ?l = "last_or xs None"
  let ?h1 = "set_prev ?f ?l h"
  have d: "distinct xs" "distinct ys" "set xs \<inter> set ys = {}" using assms(2) by auto
  have xs: "dll h None xs (Some a)" and ys: "dll h (Some a) ys None" using assms(1) by (simp_all add: dll_append)
  have l: "?l \<noteq> None \<longrightarrow> the ?l \<in> set xs" using last_or_mem by auto
  have f: "?f \<noteq> None \<longrightarrow> the ?f \<in> set ys" using first_or_mem by auto
  have "dll ?h1 None xs (Some a)" using xs f d(3) by (subst dll_set_other(2)) auto
  then have 1: "dll (set_next ?l ?f ?h1) None xs ?f" using d(1) by (rule dll_set_next)
  have "dll ?h1 ?l ys None" using ys d(2) by (rule dll_set_prev)
  then have 2: "dll (set_next ?l ?f ?h1) ?l ys None" using l d(3) by (subst dll_set_other(1)) auto
  show ?thesis using 1 2 by (simp add: dll_append)
qed

text \<open>Neither touches counters or callbacks.\<close>

lemma set_link_fields:
  "map_option cn_counter (set_next p v h a) = map_option cn_counter (h a)"
  "map_option cn_callback (set_next p v h a) = map_option cn_callback (h a)"
  "map_option cn_counter (set_prev p v h a) = map_option cn_counter (h a)"
  "map_option cn_callback (set_prev p v h a) = map_option cn_callback (h a)"
  if "p \<noteq> None \<longrightarrow> h (the p) \<noteq> None"
  using that by (auto simp: set_next_def set_prev_def split: option.split)

section \<open>Counters\<close>

definition reset_heap :: "nat list \<Rightarrow> (nat \<rightharpoonup> 'c cnode) \<Rightarrow> (nat \<rightharpoonup> 'c cnode)" where
  "reset_heap xs h = (\<lambda>a. if a \<in> set xs then map_option (\<lambda>x. x\<lparr>cn_counter := 1\<rparr>) (h a) else h a)"

lemma reset_counters_heap:
  assumes "dll (cl_heap l) p xs None" and "distinct xs" and "length xs \<le> n"
  shows "reset_counters n (first_or xs None) l =
    l\<lparr>cl_heap := reset_heap xs (cl_heap l)\<rparr>"
  using assms
proof (induction xs arbitrary: p n l)
  case Nil
  then show ?case by (cases n) (simp_all add: reset_heap_def)
next
  case (Cons x xs)
  obtain k where n: "n = Suc k" "length xs \<le> k" using Cons.prems(3) by (cases n) auto
  obtain nx where x: "cl_heap l x = Some nx" "cn_next nx = first_or xs None" using Cons.prems(1) by auto
  let ?l = "upd x (\<lambda>y. y\<lparr>cn_counter := 1\<rparr>) l"
  have "dll (cl_heap ?l) (Some x) xs None"
    using Cons.prems(1,2) by (simp add: upd_def dll_upd_other)
  from Cons.IH [OF this _ n(2)] Cons.prems(2) x n
  show ?case by (auto simp: upd_def nd_def reset_heap_def fun_eq_iff intro!: arg_cong [where f = "\<lambda>h. l\<lparr>cl_heap := h\<rparr>"])
qed

text \<open>
  Taking the next counter keeps the list and gives a counter for a new node; all that can
  change in the nodes is the counter, and it changes only when the counter wraps round.
\<close>

lemma word_le_Suc: "x \<le> c \<Longrightarrow> c + 1 \<noteq> 0 \<Longrightarrow> x \<le> c + (1 :: 'a::len word)"
  by (metis add.commute word_le_nat_alt le_Suc_eq unatSuc)

definition same_links :: "(nat \<rightharpoonup> 'c cnode) \<Rightarrow> (nat \<rightharpoonup> 'c cnode) \<Rightarrow> bool" where
  "same_links h h' \<longleftrightarrow>
     (\<forall>a. map_option (\<lambda>n. (cn_prev n, cn_next n, cn_callback n)) (h a)
        = map_option (\<lambda>n. (cn_prev n, cn_next n, cn_callback n)) (h' a))"

lemma same_links_dll: "same_links h h' \<Longrightarrow> dll h p xs q = dll h' p xs q"
proof (induction xs arbitrary: p)
  case (Cons x xs)
  have "map_option (\<lambda>n. (cn_prev n, cn_next n, cn_callback n)) (h x)
      = map_option (\<lambda>n. (cn_prev n, cn_next n, cn_callback n)) (h' x)"
    using Cons.prems by (simp add: same_links_def)
  then show ?case using Cons by (cases "h x"; cases "h' x") auto
qed simp

lemma getNextCounter_rep:
  assumes "rep l xs" and "getNextCounter l = (c, l1)"
  shows "rep l1 xs" and "c \<noteq> 0" and "c = cl_counter l1" and "cl_alloc l1 = cl_alloc l"
    and "same_links (cl_heap l) (cl_heap l1)"
    and "cl_counter l + 1 \<noteq> 0 \<Longrightarrow> c = cl_counter l + 1 \<and> cl_heap l1 = cl_heap l"
proof -
  let ?h = "reset_heap xs (cl_heap l)"
  have r: "distinct xs" "dll (cl_heap l) None xs None" "cl_head l = first_or xs None"
    "cl_tail l = last_or xs None" "dom (cl_heap l) \<subseteq> {..< cl_alloc l}"
    "\<And>a n. cl_heap l a = Some n \<Longrightarrow> (a \<in> set xs \<longleftrightarrow> cn_counter n \<noteq> removedCounter) \<and> cn_counter n \<le> cl_counter l"
    using assms(1) by (auto simp: rep_def)
  have over: "cl_counter l + 1 = 0 \<Longrightarrow> c = 1 \<and> l1 = l\<lparr>cl_counter := 1, cl_heap := ?h\<rparr>"
    using assms(2) reset_counters_heap [of "l\<lparr>cl_counter := 0\<rparr>" None xs "cl_alloc l"] r(1-3) rep_length [OF assms(1)]
    by (auto simp: getNextCounter_def Let_def)
  have norm: "cl_counter l + 1 \<noteq> 0 \<Longrightarrow> c = cl_counter l + 1 \<and> l1 = l\<lparr>cl_counter := cl_counter l + 1\<rparr>"
    using assms(2) by (auto simp: getNextCounter_def Let_def)
  have sl: "same_links (cl_heap l) ?h" by (auto simp: same_links_def reset_heap_def option.map_comp comp_def)
  show "c \<noteq> 0" "c = cl_counter l1" "cl_alloc l1 = cl_alloc l"
    using over norm by (cases "cl_counter l + 1 = 0"; auto)+
  show "same_links (cl_heap l) (cl_heap l1)"
    using over norm sl by (cases "cl_counter l + 1 = 0") (auto simp: same_links_def)
  show "cl_counter l + 1 \<noteq> 0 \<Longrightarrow> c = cl_counter l + 1 \<and> cl_heap l1 = cl_heap l" using norm by simp
  show "rep l1 xs"
  proof (cases "cl_counter l + 1 = 0")
    case True
    have "dll ?h None xs None" using same_links_dll [OF sl] r(2) by simp
    moreover have "dom ?h = dom (cl_heap l)" by (auto simp: reset_heap_def dom_def)
    moreover have "?h a = Some n \<Longrightarrow> (a \<in> set xs \<longleftrightarrow> cn_counter n \<noteq> removedCounter) \<and> cn_counter n \<le> 1" for a n
      using r(6) [of a n] by (auto simp: reset_heap_def removedCounter_def split: if_splits)
    ultimately show ?thesis using over [OF True] r by (simp add: rep_def)
  next
    case False
    then show ?thesis using norm [OF False] r word_le_Suc [OF _ False] by (auto simp: rep_def)
  qed
qed

section \<open>What the operations do to the list\<close>

text \<open>
  \<open>link\<close>: a fresh node has been linked in between the segments \<open>xs\<close> and \<open>ys\<close>;
  \<open>linked\<close>: with the next counter.
\<close>

definition link :: "'c clist \<Rightarrow> nat list \<Rightarrow> nat \<Rightarrow> 32 word \<Rightarrow> 'c \<Rightarrow> nat list \<Rightarrow> 'c clist \<Rightarrow> bool" where
  "link l xs a c cb ys l' \<longleftrightarrow>
     cl_heap l' = set_prev (first_or ys None) (Some a) (set_next (last_or xs None) (Some a)
            ((cl_heap l)(a \<mapsto> \<lparr>cn_prev = last_or xs None, cn_next = first_or ys None, cn_callback = cb, cn_counter = c\<rparr>)))
     \<and> cl_alloc l' = Suc a \<and> cl_counter l' = cl_counter l
     \<and> cl_head l' = first_or (xs @ a # ys) None \<and> cl_tail l' = last_or (xs @ a # ys) None"

definition linked :: "'c clist \<Rightarrow> nat list \<Rightarrow> nat \<Rightarrow> 'c \<Rightarrow> nat list \<Rightarrow> 'c clist \<Rightarrow> bool" where
  "linked l xs a cb ys l' \<longleftrightarrow> a = cl_alloc l \<and> link (snd (getNextCounter l)) xs a (fst (getNextCounter l)) cb ys l'"

lemma getNextCounter_ends:
  assumes "rep l xs" and "getNextCounter l = (c, l0)"
  shows "cl_head l0 = first_or xs None" and "cl_tail l0 = last_or xs None" and "cl_heap l0 (cl_alloc l) = None"
  using getNextCounter_rep(1,4) [OF assms] by (auto simp: rep_def)

lemma rep_ends:
  assumes "rep l xs"
  shows "last_or xs None = Some t \<Longrightarrow> t \<in> set xs \<and> t < cl_alloc l \<and> cl_heap l t \<noteq> None"
    and "first_or xs None = Some t \<Longrightarrow> t \<in> set xs \<and> t < cl_alloc l \<and> cl_heap l t \<noteq> None"
  using assms last_or_mem [of xs t] first_or_mem [of xs t] rep_dom [OF assms, of t]
  by (auto simp: rep_def dom_def)

lemma append_linked:
  assumes "rep l xs"
  shows "\<exists>l'. cl_append cb l = (cl_alloc l, l') \<and> linked l xs (cl_alloc l) cb [] l'"
proof -
  obtain c l0 where g: "getNextCounter l = (c, l0)" by fastforce
  note e = getNextCounter_ends [OF assms g] and r = getNextCounter_rep [OF assms g]
  show ?thesis
  proof (cases xs rule: rev_cases)
    case Nil
    then show ?thesis
      using g e r(4) by (simp add: Let_def cl_append_def doAllocateNode_def linked_def link_def set_next_def set_prev_def)
  next
    case (snoc ys t)
    have "t < cl_alloc l" using rep_ends(1) [OF assms, of t] snoc by simp
    moreover obtain h where "first_or ys (Some t) = Some h" by (cases ys) auto
    ultimately show ?thesis
      using g e r(4) snoc
      by (auto simp: Let_def cl_append_def doAllocateNode_def linked_def link_def set_next_def set_prev_def upd_def nd_def)
  qed
qed

lemma prepend_linked:
  assumes "rep l xs"
  shows "\<exists>l'. cl_prepend cb l = (cl_alloc l, l') \<and> linked l [] (cl_alloc l) cb xs l'"
proof -
  obtain c l0 where g: "getNextCounter l = (c, l0)" by fastforce
  note e = getNextCounter_ends [OF assms g] and r = getNextCounter_rep [OF assms g]
  show ?thesis
  proof (cases xs)
    case Nil
    then show ?thesis
      using g e r(4) by (simp add: Let_def cl_prepend_def doAllocateNode_def linked_def link_def set_next_def set_prev_def)
  next
    case (Cons h ys)
    have "h < cl_alloc l" using rep_ends(2) [OF assms, of h] Cons by simp
    then show ?thesis
      using g e r(4) Cons
      by (auto simp: Let_def cl_prepend_def doAllocateNode_def linked_def link_def set_next_def set_prev_def upd_def nd_def)
  qed
qed

lemma rep_at:
  assumes "rep l (xs @ b # ys)"
  shows "\<exists>n. cl_heap l b = Some n \<and> cn_prev n = last_or xs None \<and> cn_next n = first_or ys None
     \<and> cn_counter n \<noteq> removedCounter"
proof -
  obtain n where "cl_heap l b = Some n \<and> cn_prev n = last_or xs None \<and> cn_next n = first_or ys None"
    using assms by (auto simp: rep_def dll_append)
  then show ?thesis using assms by (auto simp: rep_def)
qed

lemma insert_linked:
  assumes "rep l (xs @ b # ys)"
  shows "\<exists>l'. cl_insert kept cb b l = (cl_alloc l, l') \<and> linked l xs (cl_alloc l) cb (b # ys) l'"
proof -
  obtain c l0 where g: "getNextCounter l = (c, l0)" by fastforce
  note e = getNextCounter_ends [OF assms g] and r = getNextCounter_rep [OF assms g]
  obtain n where n: "cl_heap l b = Some n" "cn_counter n \<noteq> removedCounter" using rep_at [OF assms] by auto
  obtain m where m: "cl_heap l0 b = Some m" "cn_prev m = last_or xs None" using rep_at [OF r(1)] by auto
  have b: "b \<noteq> cl_alloc l" "b \<notin> set xs" using m e(3) assms by (auto simp: rep_def)
  have lk: "lock kept l b" using n by (simp add: lock_def)
  show ?thesis
  proof (cases xs rule: rev_cases)
    case Nil
    then show ?thesis
      using g e r(4) m b lk
      by (simp add: cl_insert_def doInsert_def Let_def doAllocateNode_def linked_def link_def set_next_def set_prev_def
          upd_def nd_def last_or_def)
  next
    case (snoc zs t)
    have t: "t \<noteq> cl_alloc l" "t \<noteq> b" using rep_at [of l0 zs t "b # ys"] r(1) e(3) b snoc by auto
    have "first_or zs (Some t) \<noteq> Some b" using first_or_mem [of xs b] b snoc by auto
    then show ?thesis
      using g e r(4) m b lk snoc t
      by (simp add: cl_insert_def doInsert_def Let_def doAllocateNode_def linked_def link_def set_next_def set_prev_def
          upd_def nd_def last_or_def)
  qed
qed

lemma link_fields:
  assumes "rep l (xs @ ys)" and "link l xs a c cb ys l'"
  shows "map_option cn_counter (cl_heap l' x) = (if x = a then Some c else map_option cn_counter (cl_heap l x))"
    and "map_option cn_callback (cl_heap l' x) = (if x = a then Some cb else map_option cn_callback (cl_heap l x))"
proof -
  let ?n = "\<lparr>cn_prev = last_or xs None, cn_next = first_or ys None, cn_callback = cb, cn_counter = c\<rparr>"
  let ?h = "(cl_heap l)(a \<mapsto> ?n)"
  let ?h1 = "set_next (last_or xs None) (Some a) ?h"
  have h: "cl_heap l' = set_prev (first_or ys None) (Some a) ?h1"
    using assms(2) by (simp add: link_def)
  have d: "\<And>z. z \<in> set (xs @ ys) \<Longrightarrow> ?h z \<noteq> None" using rep_dom [OF assms(1)] by auto
  have 1: "last_or xs None \<noteq> None \<longrightarrow> ?h (the (last_or xs None)) \<noteq> None"
    using last_or_mem [of xs] d by fastforce
  have "first_or ys None \<noteq> None \<longrightarrow> ?h (the (first_or ys None)) \<noteq> None"
    using first_or_mem [of ys] d by fastforce
  then have 2: "first_or ys None \<noteq> None \<longrightarrow> ?h1 (the (first_or ys None)) \<noteq> None"
    by (auto simp: set_next_def split: option.split)
  show "map_option cn_counter (cl_heap l' x) = (if x = a then Some c else map_option cn_counter (cl_heap l x))"
    unfolding h using set_link_fields(3) [where h = ?h1, OF 2] set_link_fields(1) [where h = ?h, OF 1] by simp
  show "map_option cn_callback (cl_heap l' x) = (if x = a then Some cb else map_option cn_callback (cl_heap l x))"
    unfolding h using set_link_fields(4) [where h = ?h1, OF 2] set_link_fields(2) [where h = ?h, OF 1] by simp
qed

lemma link_rep:
  assumes r: "rep l (xs @ ys)" and k: "link l xs a c cb ys l'" and a: "a = cl_alloc l"
    and c: "c \<noteq> 0" "c \<le> cl_counter l"
  shows "rep l' (xs @ a # ys)"
proof -
  note f = link_fields(1) [OF r k]
  have l: "cl_alloc l' = Suc a" "cl_counter l' = cl_counter l"
    "cl_head l' = first_or (xs @ a # ys) None" "cl_tail l' = last_or (xs @ a # ys) None"
    using k by (auto simp: link_def)
  have "cl_heap l a = None" using r a by (auto simp: rep_def)
  then have na: "a \<notin> set (xs @ ys)" using rep_dom [OF r] by fastforce
  let ?n = "\<lparr>cn_prev = last_or xs None, cn_next = first_or ys None, cn_callback = cb, cn_counter = c\<rparr>"
  have "dll ((cl_heap l)(a \<mapsto> ?n)) None (xs @ ys) None"
    using r na by (subst dll_upd_other) (simp_all add: rep_def)
  then have "dll (cl_heap l') None (xs @ a # ys) None"
    using dll_link [of "(cl_heap l)(a \<mapsto> ?n)" xs ys a ?n] k r na by (auto simp: link_def rep_def)
  moreover have "x \<in> {..< cl_alloc l'}" if "x \<in> dom (cl_heap l')" for x
  proof (cases "x = a")
    case False
    then have "x \<in> dom (cl_heap l)" using f [of x] that by (cases "cl_heap l x") auto
    then show ?thesis using r l a by (auto simp: rep_def)
  qed (simp add: l)
  moreover have "(x \<in> set (xs @ a # ys) \<longleftrightarrow> cn_counter n \<noteq> removedCounter) \<and> cn_counter n \<le> cl_counter l'"
    if "cl_heap l' x = Some n" for x n
  proof (cases "x = a")
    case True
    then show ?thesis using f [of x] that c l(2) by (simp add: removedCounter_def)
  next
    case False
    then have "map_option cn_counter (cl_heap l x) = Some (cn_counter n)" using f [of x] that by simp
    then obtain m where "cl_heap l x = Some m" "cn_counter m = cn_counter n" by auto
    then show ?thesis using rep_counter [OF r, of x m] False l(2) by auto
  qed
  ultimately show ?thesis using r na l by (auto simp: rep_def)
qed

lemma linked_fields:
  assumes "rep l (xs @ ys)" and "linked l xs a cb ys l'" and "getNextCounter l = (c, l0)"
  shows "map_option cn_counter (cl_heap l' x) = (if x = a then Some c else map_option cn_counter (cl_heap l0 x))"
    and "map_option cn_callback (cl_heap l' x) = (if x = a then Some cb else map_option cn_callback (cl_heap l x))"
proof -
  note r = getNextCounter_rep [OF assms(1,3)]
  have k: "link l0 xs a c cb ys l'" using assms(2,3) by (auto simp: linked_def)
  have "map_option cn_callback (cl_heap l0 x) = map_option cn_callback (cl_heap l x)"
    using r(5) by (cases "cl_heap l x"; cases "cl_heap l0 x") (auto simp: same_links_def dest: spec [of _ x])
  then show "map_option cn_counter (cl_heap l' x) = (if x = a then Some c else map_option cn_counter (cl_heap l0 x))"
    "map_option cn_callback (cl_heap l' x) = (if x = a then Some cb else map_option cn_callback (cl_heap l x))"
    using link_fields [OF r(1) k, of x] by auto
qed

lemma linked_rep:
  assumes "rep l (xs @ ys)" and "linked l xs a cb ys l'"
  shows "rep l' (xs @ a # ys)"
proof -
  obtain c l0 where g: "getNextCounter l = (c, l0)" by fastforce
  note r = getNextCounter_rep [OF assms(1) g]
  have "link l0 xs a c cb ys l'" "a = cl_alloc l0" using assms(2) g r(4) by (auto simp: linked_def)
  then show ?thesis using link_rep [OF r(1), of a c cb l'] r(2,3) by simp
qed

text \<open>Removing a node that is on the list; the removed node keeps its links.\<close>

definition unlinked :: "'c clist \<Rightarrow> nat list \<Rightarrow> nat \<Rightarrow> nat list \<Rightarrow> 'c clist \<Rightarrow> bool" where
  "unlinked l xs a ys l' \<longleftrightarrow>
     (\<exists>h. h = set_next (last_or xs None) (first_or ys None) (set_prev (first_or ys None) (last_or xs None) (cl_heap l))
       \<and> l' = l\<lparr>cl_heap := h(a \<mapsto> (the (h a))\<lparr>cn_counter := removedCounter\<rparr>),
               cl_head := first_or (xs @ ys) None, cl_tail := last_or (xs @ ys) None\<rparr>)"

lemma first_or_eq: "a \<notin> set xs \<Longrightarrow> b \<noteq> a \<Longrightarrow> first_or xs (Some b) \<noteq> Some a"
  by (cases xs) auto

lemma last_or_eq: "a \<notin> set xs \<Longrightarrow> b \<noteq> a \<Longrightarrow> last_or xs (Some b) \<noteq> Some a"
  by (auto simp: last_or_def)

lemma remove_unlinked:
  assumes "rep l (xs @ a # ys)"
  shows "\<exists>l'. cl_remove kept a l = (True, l') \<and> unlinked l xs a ys l'"
proof -
  obtain n where n: "cl_heap l a = Some n" "cn_counter n \<noteq> removedCounter"
    "cn_prev n = last_or xs None" "cn_next n = first_or ys None" using rep_at [OF assms] by auto
  have d: "a \<notin> set xs" "a \<notin> set ys" and ends: "cl_head l = first_or (xs @ a # ys) None" "cl_tail l = last_or (xs @ a # ys) None"
    using assms by (auto simp: rep_def)
  have lk: "lock kept l a" using n by (simp add: lock_def)
  have "unlinked l xs a ys (doFreeNode a l)"
  proof (cases ys)
    case Nil
    then show ?thesis using n d ends
      by (cases xs rule: rev_cases)
        (simp_all add: unlinked_def doFreeNode_def Let_def set_next_def set_prev_def upd_def nd_def first_or_eq)
  next
    case (Cons y zs)
    then show ?thesis using n d ends
      by (cases xs rule: rev_cases)
        (simp_all add: unlinked_def doFreeNode_def Let_def set_next_def set_prev_def upd_def nd_def first_or_eq last_or_eq)
  qed
  then show ?thesis using lk by (simp add: cl_remove_def)
qed

lemma unlinked_fields:
  assumes "rep l (xs @ a # ys)" and "unlinked l xs a ys l'"
  shows "map_option cn_counter (cl_heap l' x) =
           (if x = a then Some removedCounter else map_option cn_counter (cl_heap l x))"
    and "map_option cn_callback (cl_heap l' x) = map_option cn_callback (cl_heap l x)"
proof -
  let ?p = "set_prev (first_or ys None) (last_or xs None) (cl_heap l)"
  let ?h = "set_next (last_or xs None) (first_or ys None) ?p"
  have h: "cl_heap l' = ?h(a \<mapsto> (the (?h a))\<lparr>cn_counter := removedCounter\<rparr>)"
    using assms(2) by (auto simp: unlinked_def)
  have d: "\<And>z. z \<in> set (xs @ a # ys) \<Longrightarrow> cl_heap l z \<noteq> None" using rep_dom [OF assms(1)] by auto
  have 1: "first_or ys None \<noteq> None \<longrightarrow> cl_heap l (the (first_or ys None)) \<noteq> None"
    using first_or_mem [of ys] d by fastforce
  have "last_or xs None \<noteq> None \<longrightarrow> cl_heap l (the (last_or xs None)) \<noteq> None"
    using last_or_mem [of xs] d by fastforce
  then have 2: "last_or xs None \<noteq> None \<longrightarrow> ?p (the (last_or xs None)) \<noteq> None"
    by (auto simp: set_prev_def split: option.split)
  note f = set_link_fields [where h = ?p, OF 2] set_link_fields [where h = "cl_heap l", OF 1]
  have "cl_heap l a \<noteq> None" using d by simp
  then obtain n where n: "?h a = Some n" using f(1) [of "first_or ys None" a] f(7) [of "last_or xs None" a] by (cases "?h a") auto
  show "map_option cn_counter (cl_heap l' x) =
           (if x = a then Some removedCounter else map_option cn_counter (cl_heap l x))"
    unfolding h using f(1) [of "first_or ys None" x] f(7) [of "last_or xs None" x] by simp
  show "map_option cn_callback (cl_heap l' x) = map_option cn_callback (cl_heap l x)"
    unfolding h using f(2) [of "first_or ys None" x] f(8) [of "last_or xs None" x] n by (cases "x = a") auto
qed

lemma unlinked_rep:
  assumes "rep l (xs @ a # ys)" and "unlinked l xs a ys l'"
  shows "rep l' (xs @ ys)"
proof -
  let ?h = "set_next (last_or xs None) (first_or ys None) (set_prev (first_or ys None) (last_or xs None) (cl_heap l))"
  note f = unlinked_fields(1) [OF assms]
  have l: "cl_heap l' = ?h(a \<mapsto> (the (?h a))\<lparr>cn_counter := removedCounter\<rparr>)" "cl_alloc l' = cl_alloc l"
    "cl_counter l' = cl_counter l" "cl_head l' = first_or (xs @ ys) None" "cl_tail l' = last_or (xs @ ys) None"
    using assms(2) by (auto simp: unlinked_def)
  have d: "distinct (xs @ a # ys)" using assms(1) by (simp add: rep_def)
  have "dll ?h None (xs @ ys) None" using assms(1) d dll_unlink by (auto simp: rep_def)
  then have "dll (cl_heap l') None (xs @ ys) None" unfolding l using d by (subst dll_upd_other) auto
  moreover have "x \<in> {..< cl_alloc l'}" if "x \<in> dom (cl_heap l')" for x
  proof -
    have "x \<in> dom (cl_heap l)"
      using f [of x] that rep_dom [OF assms(1), of x] by (cases "x = a"; cases "cl_heap l x") auto
    then show ?thesis using assms(1) l(2) by (auto simp: rep_def)
  qed
  moreover have "(x \<in> set (xs @ ys) \<longleftrightarrow> cn_counter n \<noteq> removedCounter) \<and> cn_counter n \<le> cl_counter l'"
    if "cl_heap l' x = Some n" for x n
  proof (cases "x = a")
    case True
    then show ?thesis using f [of x] that d by (simp add: removedCounter_def)
  next
    case False
    then have "map_option cn_counter (cl_heap l x) = Some (cn_counter n)" using f [of x] that by simp
    then obtain m where "cl_heap l x = Some m" "cn_counter m = cn_counter n" by auto
    then show ?thesis using rep_counter [OF assms(1), of x m] False l(3) by auto
  qed
  ultimately show ?thesis using d l by (auto simp: rep_def)
qed

section \<open>Copying\<close>

lemma rep_CallbackList: "rep CallbackList []"
  by (simp add: rep_def CallbackList_def)

lemma clone_link:
  assumes "rep (l\<lparr>cl_tail := last_or zs None\<rparr>) zs"
  shows "link (l\<lparr>cl_tail := last_or zs None\<rparr>) zs (cl_alloc l) counter cb []
    ((case last_or zs None of Some b \<Rightarrow> upd b (\<lambda>x. x\<lparr>cn_next := Some (cl_alloc l)\<rparr>)
       (l\<lparr>cl_heap := (cl_heap l)(cl_alloc l \<mapsto> \<lparr>cn_prev = last_or zs None, cn_next = None, cn_callback = cb, cn_counter = counter\<rparr>), cl_alloc := Suc (cl_alloc l)\<rparr>)
     | None \<Rightarrow> (l\<lparr>cl_heap := (cl_heap l)(cl_alloc l \<mapsto> \<lparr>cn_prev = last_or zs None, cn_next = None, cn_callback = cb, cn_counter = counter\<rparr>), cl_alloc := Suc (cl_alloc l)\<rparr>)\<lparr>cl_head := Some (cl_alloc l)\<rparr>)
     \<lparr>cl_tail := Some (cl_alloc l)\<rparr>)"
proof (cases zs rule: rev_cases)
  case Nil
  then show ?thesis by (simp add: link_def set_next_def set_prev_def)
next
  case (snoc ys t)
  have "t \<noteq> cl_alloc l" using rep_ends(1) [OF assms, of t] snoc by auto
  moreover have "cl_head l = first_or zs None" using assms by (simp add: rep_def)
  moreover have "first_or ys (Some t) = first_or ys (Some (cl_alloc l)) \<or> ys = []" by (cases ys) auto
  ultimately show ?thesis using snoc by (auto simp: link_def set_next_def set_prev_def upd_def nd_def)
qed

lemma clone_nodes_rep:
  assumes "dll (cl_heap from) p xs None" and "length xs < n"
    and "rep (l\<lparr>cl_tail := last_or zs None\<rparr>) zs" and "counter \<noteq> 0" and "counter \<le> cl_counter l"
  shows "\<exists>ys. rep (clone_nodes n from (first_or xs None) counter (last_or zs None) l) (zs @ ys)
     \<and> map (\<lambda>a. map_option cn_callback (cl_heap (clone_nodes n from (first_or xs None) counter (last_or zs None) l) a)) (zs @ ys)
       = map (\<lambda>a. map_option cn_callback (cl_heap l a)) zs @ map (\<lambda>a. map_option cn_callback (cl_heap from a)) xs"
  using assms
proof (induction xs arbitrary: p n l zs)
  case Nil
  then show ?case by (cases n) auto
next
  case (Cons x xs)
  obtain k where n: "n = Suc k" "length xs < k" using Cons.prems(2) by (cases n) auto
  obtain nx where x: "cl_heap from x = Some nx" "cn_next nx = first_or xs None" using Cons.prems(1) by auto
  let ?a = "cl_alloc l" and ?cb = "cn_callback nx"
  let ?l1 = "l\<lparr>cl_heap := (cl_heap l)(?a \<mapsto> \<lparr>cn_prev = last_or zs None, cn_next = None, cn_callback = ?cb, cn_counter = counter\<rparr>), cl_alloc := Suc ?a\<rparr>"
  let ?l2 = "case last_or zs None of Some b \<Rightarrow> upd b (\<lambda>x. x\<lparr>cn_next := Some ?a\<rparr>) ?l1 | None \<Rightarrow> ?l1\<lparr>cl_head := Some ?a\<rparr>"
  have k: "link (l\<lparr>cl_tail := last_or zs None\<rparr>) zs ?a counter ?cb [] (?l2\<lparr>cl_tail := Some ?a\<rparr>)"
    using clone_link [OF Cons.prems(3)] .
  have r2: "rep (?l2\<lparr>cl_tail := last_or (zs @ [?a]) None\<rparr>) (zs @ [?a])"
    using link_rep [OF _ k] Cons.prems(3-5) by simp
  have f: "map_option cn_callback (cl_heap ?l2 y) = (if y = ?a then Some ?cb else map_option cn_callback (cl_heap l y))" for y
    using link_fields(2) [OF _ k, of y] Cons.prems(3) by simp
  have c2: "counter \<le> cl_counter ?l2" using k Cons.prems(5) by (auto simp: link_def)
  have step: "clone_nodes n from (first_or (x # xs) None) counter (last_or zs None) l
      = clone_nodes k from (first_or xs None) counter (last_or (zs @ [?a]) None) ?l2"
    using x n by (simp add: Let_def nd_def)
  have na: "?a \<notin> set zs" using Cons.prems(3) rep_dom [OF Cons.prems(3), of ?a] by (auto simp: rep_def dom_def)
  obtain ys where "rep (clone_nodes k from (first_or xs None) counter (last_or (zs @ [?a]) None) ?l2) ((zs @ [?a]) @ ys)"
    "map (\<lambda>a. map_option cn_callback (cl_heap (clone_nodes k from (first_or xs None) counter (last_or (zs @ [?a]) None) ?l2) a)) ((zs @ [?a]) @ ys)
       = map (\<lambda>a. map_option cn_callback (cl_heap ?l2 a)) (zs @ [?a]) @ map (\<lambda>a. map_option cn_callback (cl_heap from a)) xs"
    using Cons.IH [OF _ n(2) r2 Cons.prems(4) c2, of "Some x"] Cons.prems(1) by auto
  moreover have "map (\<lambda>a. map_option cn_callback (cl_heap ?l2 a)) (zs @ [?a])
      = map (\<lambda>a. map_option cn_callback (cl_heap l a)) zs @ [map_option cn_callback (cl_heap from x)]"
    using f na x(1) by auto
  ultimately show ?case unfolding step by (intro exI [of _ "?a # ys"]) simp
qed

lemma cloneFrom_rep:
  assumes "rep from xs"
  shows "\<exists>ys. rep (cloneFrom from) ys
     \<and> map (\<lambda>a. map_option cn_callback (cl_heap (cloneFrom from) a)) ys = map (\<lambda>a. map_option cn_callback (cl_heap from a)) xs"
proof -
  obtain c and l :: "'a clist" where g: "getNextCounter CallbackList = (c, l)" by fastforce
  note r = getNextCounter_rep [OF rep_CallbackList g]
  have t: "l\<lparr>cl_tail := last_or [] None\<rparr> = l" using r(1) by (simp add: rep_def)
  have "dll (cl_heap from) None xs None" "cl_head from = first_or xs None" using assms by (simp_all add: rep_def)
  moreover have "length xs < Suc (cl_alloc from)" using rep_length [OF assms] by simp
  ultimately show ?thesis
    using clone_nodes_rep [where xs = xs and p = None and zs = "[]" and l = l and n = "Suc (cl_alloc from)" and counter = c] r(1-3) t
    unfolding cloneFrom_def g by simp
qed

end
