(* ===== verification/Callback_Refine.thy ===== *)
theory Callback_Refine
  imports Callback_List
begin

text \<open>
  The callback list of Callback_List refines a sequence of entries, also while one of its
  callbacks runs and changes the list under the iteration in progress.
\<close>

section \<open>Refinement of a list of entries\<close>

text \<open>
  What the list promises: a sequence of handles with their callbacks, and the next handle.
\<close>

datatype 'c cl_op = Append 'c | Prepend 'c | Insert 'c nat | Remove nat

definition cl_do :: "(nat \<Rightarrow> bool) \<Rightarrow> 'c cl_op \<Rightarrow> 'c clist \<Rightarrow> 'c clist" where
  "cl_do kept op l =
     (case op of
        Append c \<Rightarrow> snd (cl_append c l)
      | Prepend c \<Rightarrow> snd (cl_prepend c l)
      | Insert c h \<Rightarrow> snd (cl_insert kept c h l)
      | Remove h \<Rightarrow> snd (cl_remove kept h l))"

type_synonym 'c entries = "(nat \<times> 'c) list"

fun spec_op :: "'c cl_op \<Rightarrow> 'c entries \<times> nat \<Rightarrow> 'c entries \<times> nat" where
  "spec_op (Append c) (es, n) = (es @ [(n, c)], Suc n)"
| "spec_op (Prepend c) (es, n) = ((n, c) # es, Suc n)"
| "spec_op (Insert c h) (es, n) =
     (takeWhile (\<lambda>e. fst e \<noteq> h) es @ (n, c) # dropWhile (\<lambda>e. fst e \<noteq> h) es, Suc n)"
| "spec_op (Remove h) (es, n) = (filter (\<lambda>e. fst e \<noteq> h) es, n)"

text \<open>A handle is used while its node is on the list, or once it has expired.\<close>

fun op_ok :: "(nat \<Rightarrow> bool) \<Rightarrow> 'c cl_op \<Rightarrow> 'c entries \<times> nat \<Rightarrow> bool" where
  "op_ok kept (Insert c h) (es, n) \<longleftrightarrow> h \<in> fst ` set es \<or> \<not> kept h"
| "op_ok kept (Remove h) (es, n) \<longleftrightarrow> h \<in> fst ` set es \<or> \<not> kept h"
| "op_ok kept _ _ \<longleftrightarrow> True"

fun ops_ok :: "(nat \<Rightarrow> bool) \<Rightarrow> 'c cl_op list \<Rightarrow> 'c entries \<times> nat \<Rightarrow> bool" where
  "ops_ok kept [] st \<longleftrightarrow> True"
| "ops_ok kept (op # ops) st \<longleftrightarrow> op_ok kept op st \<and> ops_ok kept ops (spec_op op st)"

definition entries :: "'c clist \<Rightarrow> nat list \<Rightarrow> 'c entries" where
  "entries l xs = map (\<lambda>a. (a, cn_callback (nd l a))) xs"

definition view :: "'c clist \<Rightarrow> nat list \<Rightarrow> 'c entries \<times> nat" where
  "view l xs = (entries l xs, cl_alloc l)"

lemma entries_fst [simp]: "map fst (entries l xs) = xs" "fst ` set (entries l xs) = set xs"
  by (auto simp: entries_def comp_def image_image)

lemma entries_append: "entries l (xs @ ys) = entries l xs @ entries l ys"
  by (simp add: entries_def)

lemma entries_Cons: "entries l (x # xs) = (x, cn_callback (nd l x)) # entries l xs"
  by (simp add: entries_def)

lemma linked_view:
  assumes "rep l (xs @ ys)" and "linked l xs a cb ys l'"
  shows "view l' (xs @ a # ys) = (entries l xs @ (a, cb) # entries l ys, Suc (cl_alloc l))"
proof -
  obtain c l0 where g: "getNextCounter l = (c, l0)" by fastforce
  note f = linked_fields(2) [OF assms g]
  have a: "a = cl_alloc l" "cl_alloc l' = Suc (cl_alloc l)" using assms(2) by (auto simp: linked_def link_def)
  have "cn_callback (nd l' x) = cn_callback (nd l x)" if "x \<in> set (xs @ ys)" for x
  proof -
    have "x \<noteq> a" using that assms(1) a rep_dom [OF assms(1) that] by (auto simp: rep_def dom_def)
    then show ?thesis using f [of x] rep_dom [OF assms(1) that] by (auto simp: nd_def)
  qed
  moreover have "cn_callback (nd l' a) = cb" using f [of a] by (auto simp: nd_def)
  ultimately show ?thesis using a by (auto simp: view_def entries_def)
qed

lemma unlinked_view:
  assumes "rep l (xs @ a # ys)" and "unlinked l xs a ys l'"
  shows "view l' (xs @ ys) = (entries l xs @ entries l ys, cl_alloc l)"
proof -
  have "cn_callback (nd l' x) = cn_callback (nd l x)" if "x \<in> set (xs @ ys)" for x
    using unlinked_fields(2) [OF assms, of x] rep_dom [OF assms(1), of x] that by (auto simp: nd_def)
  moreover have "cl_alloc l' = cl_alloc l" using assms(2) by (auto simp: unlinked_def)
  ultimately show ?thesis by (auto simp: view_def entries_def)
qed

lemma entries_while:
  assumes "a \<notin> set xs"
  shows "takeWhile (\<lambda>e. fst e \<noteq> a) (entries l (xs @ ys)) = entries l xs @ takeWhile (\<lambda>e. fst e \<noteq> a) (entries l ys)"
    and "dropWhile (\<lambda>e. fst e \<noteq> a) (entries l (xs @ ys)) = dropWhile (\<lambda>e. fst e \<noteq> a) (entries l ys)"
    and "filter (\<lambda>e. fst e \<noteq> a) (entries l xs) = entries l xs"
  using assms by (auto simp: entries_def takeWhile_append dropWhile_append intro!: filter_True)

lemma rep_unlocked:
  "rep l xs \<Longrightarrow> h \<notin> set xs \<Longrightarrow> \<not> kept h \<Longrightarrow> \<not> lock kept l h"
  using rep_counter [of l xs h] by (auto simp: lock_def split: option.splits)

text \<open>The three ways an operation changes the nodes of the list.\<close>

definition moved :: "'c clist \<Rightarrow> nat list \<Rightarrow> 'c clist \<Rightarrow> nat list \<Rightarrow> bool" where
  "moved l xs l' xs' \<longleftrightarrow>
     (\<exists>ys a cb zs. xs = ys @ zs \<and> xs' = ys @ a # zs \<and> linked l ys a cb zs l')
     \<or> (\<exists>ys a zs. xs = ys @ a # zs \<and> xs' = ys @ zs \<and> unlinked l ys a zs l')
     \<or> (l' = l \<and> xs' = xs)"

lemma moved_cases:
  assumes "moved l xs l' xs'"
  obtains (add) ys a cb zs where "xs = ys @ zs" "xs' = ys @ a # zs" "linked l ys a cb zs l'" "a = cl_alloc l"
    | (del) ys a zs where "xs = ys @ a # zs" "xs' = ys @ zs" "unlinked l ys a zs l'"
    | (same) "l' = l" "xs' = xs"
  using assms unfolding moved_def linked_def [of _ _ _ _ _ l'] by blast

lemma moved_rep:
  assumes r: "rep l xs" and mv: "moved l xs l' xs'"
  shows "rep l' xs'"
  using mv
proof (cases rule: moved_cases)
  case (add ys a cb zs)
  then show ?thesis using linked_rep [OF _ add(3)] r by simp
next
  case (del ys a zs)
  then show ?thesis using unlinked_rep [OF _ del(3)] r by simp
qed (use r in simp)

lemma linked_done:
  assumes "rep l (xs @ ys)" and "linked l xs (cl_alloc l) cb ys l'"
  shows "\<exists>xs'. moved l (xs @ ys) l' xs' \<and> view l' xs' = (entries l xs @ (cl_alloc l, cb) # entries l ys, Suc (cl_alloc l))"
  using linked_view [OF assms] assms(2) unfolding moved_def by blast

lemma append_refines:
  assumes "rep l xs"
  shows "\<exists>xs'. moved l xs (snd (cl_append c l)) xs' \<and> view (snd (cl_append c l)) xs' = spec_op (Append c) (view l xs)"
proof -
  obtain l' where l': "cl_append c l = (cl_alloc l, l')" "linked l xs (cl_alloc l) c [] l'"
    using append_linked [OF assms] by blast
  from linked_done [OF _ l'(2)] assms l'(1) show ?thesis by (simp add: view_def entries_def)
qed

lemma prepend_refines:
  assumes "rep l xs"
  shows "\<exists>xs'. moved l xs (snd (cl_prepend c l)) xs' \<and> view (snd (cl_prepend c l)) xs' = spec_op (Prepend c) (view l xs)"
proof -
  obtain l' where l': "cl_prepend c l = (cl_alloc l, l')" "linked l [] (cl_alloc l) c xs l'"
    using prepend_linked [OF assms] by blast
  from linked_done [OF _ l'(2)] assms l'(1) show ?thesis by (simp add: view_def entries_def)
qed

lemma insert_refines:
  assumes r: "rep l xs" and ok: "h \<in> set xs \<or> \<not> kept h"
  shows "\<exists>xs'. moved l xs (snd (cl_insert kept c h l)) xs' \<and> view (snd (cl_insert kept c h l)) xs' = spec_op (Insert c h) (view l xs)"
proof (cases "h \<in> set xs")
  case True
  then obtain ys zs where x: "xs = ys @ h # zs" "h \<notin> set ys" by (meson split_list_first)
  obtain l' where l': "cl_insert kept c h l = (cl_alloc l, l')" "linked l ys (cl_alloc l) c (h # zs) l'"
    using insert_linked [of l ys h zs kept c] r x(1) by blast
  have "spec_op (Insert c h) (view l xs) = (entries l ys @ (cl_alloc l, c) # entries l (h # zs), Suc (cl_alloc l))"
    unfolding view_def x(1) by (simp add: entries_while(1,2) [OF x(2)]) (simp add: entries_def)
  with linked_done [OF _ l'(2)] r x(1) l'(1) show ?thesis by simp
next
  case False
  then have "cl_insert kept c h l = cl_append c l"
    using rep_unlocked [OF r False] ok by (simp add: cl_insert_def)
  moreover have "spec_op (Insert c h) (view l xs) = spec_op (Append c) (view l xs)"
    using entries_while(1,2) [OF False, of l "[]"] by (simp add: view_def) (simp add: entries_def)
  ultimately show ?thesis using append_refines [OF r, of c] by simp
qed

lemma remove_refines:
  assumes r: "rep l xs" and ok: "h \<in> set xs \<or> \<not> kept h"
  shows "\<exists>xs'. moved l xs (snd (cl_remove kept h l)) xs' \<and> view (snd (cl_remove kept h l)) xs' = spec_op (Remove h) (view l xs)"
proof (cases "h \<in> set xs")
  case True
  then obtain ys zs where x: "xs = ys @ h # zs" "h \<notin> set ys" by (meson split_list_first)
  obtain l' where l': "cl_remove kept h l = (True, l')" "unlinked l ys h zs l'"
    using remove_unlinked [of l ys h zs kept] r x(1) by blast
  have z: "h \<notin> set zs" using r x by (simp add: rep_def)
  have "spec_op (Remove h) (view l xs) = (entries l ys @ entries l zs, cl_alloc l)"
    unfolding view_def x(1) using entries_while(3) [OF x(2), of l] entries_while(3) [OF z, of l]
    by (simp add: entries_append entries_Cons)
  moreover have "moved l xs l' (ys @ zs)" unfolding moved_def using x(1) l'(2) by blast
  ultimately show ?thesis using unlinked_view [OF _ l'(2)] r x(1) l'(1) by auto
next
  case False
  then have "snd (cl_remove kept h l) = l" using rep_unlocked [OF r False] ok by (simp add: cl_remove_def)
  then show ?thesis using entries_while(3) [OF False, of l] by (auto simp: view_def moved_def)
qed

lemma cl_do_refines:
  assumes "rep l xs" and "op_ok kept op (view l xs)"
  shows "\<exists>xs'. moved l xs (cl_do kept op l) xs' \<and> view (cl_do kept op l) xs' = spec_op op (view l xs)"
proof (cases op)
  case (Append c)
  then show ?thesis using append_refines [OF assms(1)] by (simp add: cl_do_def)
next
  case (Prepend c)
  then show ?thesis using prepend_refines [OF assms(1)] by (simp add: cl_do_def)
next
  case (Insert c h)
  then show ?thesis using insert_refines [OF assms(1), of h kept c] assms(2) by (simp add: cl_do_def view_def)
next
  case (Remove h)
  then show ?thesis using remove_refines [OF assms(1), of h kept] assms(2) by (simp add: cl_do_def view_def)
qed

lemma cl_dos_refine:
  assumes "rep l xs" and "ops_ok kept ops (view l xs)"
  shows "\<exists>xs'. rep (fold (cl_do kept) ops l) xs' \<and> view (fold (cl_do kept) ops l) xs' = fold spec_op ops (view l xs)"
  using assms
proof (induction ops arbitrary: l xs)
  case (Cons op ops)
  then obtain xs1 where "rep (cl_do kept op l) xs1" "view (cl_do kept op l) xs1 = spec_op op (view l xs)"
    using cl_do_refines [of l xs kept op] moved_rep by fastforce
  then show ?case using Cons.IH [of "cl_do kept op l" xs1] Cons.prems(2) by auto
qed auto

section \<open>The chain an iteration walks\<close>

text \<open>
  An iteration follows the \<open>next\<close> pointers from the node it is at, which may have been
  removed meanwhile. \<open>nexts\<close> is that part of the heap and \<open>seg\<close> a path through it.
\<close>

definition nexts :: "'c clist \<Rightarrow> nat \<rightharpoonup> nat option" where
  "nexts l a = map_option cn_next (cl_heap l a)"

fun seg :: "(nat \<rightharpoonup> nat option) \<Rightarrow> nat option \<Rightarrow> nat list \<Rightarrow> nat option \<Rightarrow> bool" where
  "seg g x [] y \<longleftrightarrow> x = y"
| "seg g x (a # as) y \<longleftrightarrow> x = Some a \<and> (\<exists>b. g a = Some b \<and> seg g b as y)"

lemma seg_append: "seg g x (as @ bs) y \<longleftrightarrow> (\<exists>z. seg g x as z \<and> seg g z bs y)"
  by (induction as arbitrary: x) auto

lemma seg_upd_other: "p \<notin> set as \<Longrightarrow> seg (g(p := v)) x as y = seg g x as y"
  by (induction as arbitrary: x) auto

lemma seg_dom: "seg g x as y \<Longrightarrow> a \<in> set as \<Longrightarrow> g a \<noteq> None"
  by (induction as arbitrary: x) auto

lemma seg_unique: "seg g x as None \<Longrightarrow> seg g x bs None \<Longrightarrow> as = bs"
proof (induction as arbitrary: x bs)
  case Nil
  then show ?case by (cases bs) auto
next
  case (Cons a as)
  then show ?case by (cases bs) auto
qed

lemma seg_distinct: "seg g x as None \<Longrightarrow> distinct as"
proof (induction as arbitrary: x)
  case (Cons a as)
  obtain b where b: "g a = Some b" "seg g b as None" using Cons.prems by auto
  have "a \<notin> set as"
  proof
    assume "a \<in> set as"
    then obtain us vs where "as = us @ a # vs" by (meson split_list)
    with b have "seg g b vs None" by (auto simp: seg_append)
    from seg_unique [OF this b(2)] \<open>as = us @ a # vs\<close> show False by simp
  qed
  then show ?case using Cons.IH [OF b(2)] by simp
qed simp

text \<open>Redirecting the pointer of one node of a path.\<close>

lemma seg_redirect:
  assumes "seg g x (us @ p # vs) None" and "seg g v ws None" and "p \<notin> set ws"
  shows "seg (g(p \<mapsto> v)) x (us @ p # ws) None"
proof -
  have "p \<notin> set us" using seg_distinct [OF assms(1)] by simp
  then show ?thesis using assms by (auto simp: seg_append seg_upd_other)
qed

definition vis :: "32 word \<Rightarrow> 'c clist \<Rightarrow> nat \<Rightarrow> bool" where
  "vis c l a \<longleftrightarrow> (case cl_heap l a of None \<Rightarrow> False | Some n \<Rightarrow> visible c n)"

lemma vis_counter: "map_option cn_counter (cl_heap l' x) = map_option cn_counter (cl_heap l x) \<Longrightarrow> vis c l' x = vis c l x"
  by (cases "cl_heap l x"; cases "cl_heap l' x") (auto simp: vis_def visible_def)

lemma vis_on_list: "rep l xs \<Longrightarrow> vis c l x \<Longrightarrow> x \<in> set xs"
  using rep_counter [of l xs x] by (auto simp: vis_def visible_def split: option.splits)

lemma dll_seg: "dll (cl_heap l) p xs None \<Longrightarrow> seg (nexts l) (first_or xs None) xs None"
  by (induction xs arbitrary: p) (auto simp: nexts_def)

lemma rep_seg: "rep l xs \<Longrightarrow> seg (nexts l) (first_or xs None) xs None"
  by (rule dll_seg [of _ None]) (simp add: rep_def)

section \<open>The list under an iteration\<close>

lemma nexts_set:
  assumes "\<And>a. p = Some a \<Longrightarrow> h a \<noteq> None"
  shows "map_option cn_next (set_next p v h x) = (if p = Some x then Some v else map_option cn_next (h x))"
    and "map_option cn_next (set_prev p v h x) = map_option cn_next (h x)"
  using assms by (auto simp: set_next_def set_prev_def split: option.split)

lemma linked_nexts:
  assumes "rep l (xs @ ys)" and "linked l xs a cb ys l'" and "cl_counter l + 1 \<noteq> 0"
  shows "nexts l' = (case last_or xs None of
      None \<Rightarrow> (nexts l)(a \<mapsto> first_or ys None)
    | Some p \<Rightarrow> (nexts l)(a \<mapsto> first_or ys None, p \<mapsto> Some a))"
proof -
  obtain c l0 where g: "getNextCounter l = (c, l0)" by fastforce
  have h0: "cl_heap l0 = cl_heap l" using getNextCounter_rep(6) [OF assms(1) g assms(3)] by simp
  let ?n = "\<lparr>cn_prev = last_or xs None, cn_next = first_or ys None, cn_callback = cb, cn_counter = c\<rparr>"
  let ?h = "(cl_heap l)(a \<mapsto> ?n)"
  have h: "cl_heap l' = set_prev (first_or ys None) (Some a) (set_next (last_or xs None) (Some a) ?h)"
    using assms(2) g h0 by (simp add: linked_def link_def)
  have l: "last_or xs None = Some z \<Longrightarrow> cl_heap l z \<noteq> None" for z
    using last_or_mem [of xs z] rep_dom [OF assms(1), of z] by auto
  have "first_or ys None = Some z \<Longrightarrow> cl_heap l z \<noteq> None" for z
    using first_or_mem [of ys z] rep_dom [OF assms(1), of z] by auto
  then have "map_option cn_next (cl_heap l' x) = map_option cn_next (set_next (last_or xs None) (Some a) ?h x)" for x
    unfolding h by (subst nexts_set(2)) (auto simp: set_next_def split: option.split)
  moreover have "map_option cn_next (set_next (last_or xs None) (Some a) ?h x) =
      (if last_or xs None = Some x then Some (Some a) else map_option cn_next (?h x))" for x
    using l by (subst nexts_set(1)) auto
  ultimately have "nexts l' x = (if last_or xs None = Some x then Some (Some a) else map_option cn_next (?h x))" for x
    by (simp add: nexts_def)
  then show ?thesis by (cases "last_or xs None") (auto simp: nexts_def fun_eq_iff)
qed

lemma unlinked_nexts:
  assumes "rep l (xs @ a # ys)" and "unlinked l xs a ys l'"
  shows "nexts l' = (case last_or xs None of None \<Rightarrow> nexts l | Some p \<Rightarrow> (nexts l)(p \<mapsto> first_or ys None))"
proof -
  let ?p = "set_prev (first_or ys None) (last_or xs None) (cl_heap l)"
  let ?h = "set_next (last_or xs None) (first_or ys None) ?p"
  have h: "cl_heap l' = ?h(a \<mapsto> (the (?h a))\<lparr>cn_counter := removedCounter\<rparr>)"
    using assms(2) by (auto simp: unlinked_def)
  have l: "last_or xs None = Some z \<Longrightarrow> cl_heap l z \<noteq> None" for z
    using last_or_mem [of xs z] rep_dom [OF assms(1), of z] by auto
  have f: "first_or ys None = Some z \<Longrightarrow> cl_heap l z \<noteq> None" for z
    using first_or_mem [of ys z] rep_dom [OF assms(1), of z] by auto
  have "map_option cn_next (?h x) = (if last_or xs None = Some x then Some (first_or ys None) else map_option cn_next (?p x))" for x
    using l by (subst nexts_set(1)) (auto simp: set_prev_def split: option.split)
  then have e: "map_option cn_next (?h x) = (if last_or xs None = Some x then Some (first_or ys None) else nexts l x)" for x
    using nexts_set(2) [of "first_or ys None" "cl_heap l" "last_or xs None" x] f by (simp add: nexts_def)
  have "?h a \<noteq> None" using e [of a] rep_dom [OF assms(1), of a] by (cases "?h a") (auto simp: nexts_def split: if_splits)
  then have "nexts l' x = map_option cn_next (?h x)" for x by (auto simp: nexts_def h)
  then show ?thesis using e by (cases "last_or xs None") (auto simp: fun_eq_iff)
qed

text \<open>
  A node linked in during the iteration is not visible to it: its counter is newer. The
  visible rest of the path stays as it was.
\<close>

lemma linked_vis:
  assumes "rep l (xs @ ys)" and "linked l xs a cb ys l'" and "cl_counter l + 1 \<noteq> 0" and "c \<le> cl_counter l"
  shows "\<not> vis c l' a" and "x \<noteq> a \<Longrightarrow> vis c l' x = vis c l x"
proof -
  obtain k l0 where g: "getNextCounter l = (k, l0)" by fastforce
  have k: "k = cl_counter l + 1" "cl_heap l0 = cl_heap l" using getNextCounter_rep(6) [OF assms(1) g assms(3)] by auto
  have "\<not> cl_counter l + 1 \<le> c" using assms(3,4) unatSuc [of "cl_counter l"]
    by (simp add: word_le_nat_alt add.commute)
  then show "\<not> vis c l' a"
    using linked_fields(1) [OF assms(1,2) g, of a] k by (auto simp: vis_def visible_def split: option.splits)
  show "x \<noteq> a \<Longrightarrow> vis c l' x = vis c l x"
    using linked_fields(1) [OF assms(1,2) g, of x] k by (intro vis_counter) simp
qed

lemma linked_path:
  assumes r: "rep l (xs @ ys)" and k: "linked l xs a cb ys l'" and nw: "cl_counter l + 1 \<noteq> 0"
    and c: "c \<le> cl_counter l" and s: "seg (nexts l) (Some m) (m # path) None"
  shows "\<exists>path'. seg (nexts l') (Some m) (m # path') None \<and> filter (vis c l') path' = filter (vis c l) path"
proof -
  have "a = cl_alloc l" using k by (auto simp: linked_def)
  then have "nexts l a = None" using r by (auto simp: rep_def nexts_def dom_def)
  then have a: "a \<notin> set (m # path)" using seg_dom [OF s] by blast
  note v = linked_vis [OF r k nw c]
  have same: "a \<notin> set zs \<Longrightarrow> filter (vis c l') zs = filter (vis c l) zs" for zs
    using v(2) by (intro filter_cong refl) metis
  have s': "seg ((nexts l)(a \<mapsto> first_or ys None)) (Some m) (m # path) None"
    using s a by (subst seg_upd_other) auto
  show ?thesis
  proof (cases "\<exists>p. last_or xs None = Some p \<and> p \<in> set (m # path)")
    case False
    then have "seg (nexts l') (Some m) (m # path) None"
      using s' linked_nexts [OF r k nw] seg_upd_other by (cases "last_or xs None") (auto simp del: seg.simps fun_upd_apply)
    then show ?thesis using same [of path] a by auto
  next
    case True
    then obtain p us vs where p: "last_or xs None = Some p" "m # path = us @ p # vs" by (meson split_list)
    then obtain xs' where "xs = xs' @ [p]" by (cases xs rule: rev_cases) auto
    then have "nexts l p = Some (first_or ys None)" using rep_at [of l xs' p ys] r by (auto simp: nexts_def)
    then have "seg (nexts l) (first_or ys None) vs None" using s p(2) by (auto simp: seg_append simp del: seg.simps(2)) auto
    then have "seg ((nexts l)(a \<mapsto> first_or ys None)) (Some a) (a # vs) None"
      using a p(2) by (simp add: seg_upd_other)
    moreover have "p \<notin> set (a # vs)" using seg_distinct [OF s] p(2) a by (auto simp: p(2))
    ultimately have "seg (nexts l') (Some m) (us @ p # a # vs) None"
      using seg_redirect [of _ "Some m" us p vs "Some a" "a # vs"] s' p linked_nexts [OF r k nw] by simp
    moreover obtain path' where "us @ p # a # vs = m # path'" "filter (vis c l') path' = filter (vis c l') path"
      using p(2) v(1) by (cases us) auto
    ultimately show ?thesis using same [of path] a by auto
  qed
qed

lemma unlinked_path:
  assumes r: "rep l (xs @ a # ys)" and k: "unlinked l xs a ys l'" and s: "seg (nexts l) (Some m) (m # path) None"
  shows "\<exists>path'. seg (nexts l') (Some m) (m # path') None
     \<and> filter (vis c l') path' = filter (vis c l') path"
proof -
  have va: "\<not> vis c l' a" using unlinked_fields(1) [OF r k, of a] by (auto simp: vis_def visible_def split: option.splits)
  show ?thesis
  proof (cases "\<exists>p. last_or xs None = Some p \<and> p \<in> set (m # path)")
    case False
    then have "seg (nexts l') (Some m) (m # path) None"
      using s unlinked_nexts [OF r k] seg_upd_other by (cases "last_or xs None") (auto simp del: seg.simps fun_upd_apply)
    then show ?thesis by auto
  next
    case True
    then obtain p us vs where p: "last_or xs None = Some p" "m # path = us @ p # vs" by (meson split_list)
    then obtain xs' where x: "xs = xs' @ [p]" by (cases xs rule: rev_cases) auto
    then have "nexts l p = Some (Some a)" using rep_at [of l xs' p "a # ys"] r by (auto simp: nexts_def)
    then have "seg (nexts l) (Some a) vs None" using s p(2) by (auto simp: seg_append simp del: seg.simps(2)) auto
    moreover have "nexts l a = Some (first_or ys None)" using rep_at [OF r] by (auto simp: nexts_def)
    ultimately obtain ws where w: "vs = a # ws" "seg (nexts l) (first_or ys None) ws None" by (cases vs) auto
    have "p \<notin> set ws" using seg_distinct [OF s] p(2) w(1) by (auto simp: p(2))
    with w(2) have "seg (nexts l') (Some m) (us @ p # ws) None"
      using seg_redirect [of "nexts l" "Some m" us p vs "first_or ys None" ws] s p unlinked_nexts [OF r k] by simp
    moreover obtain path' where "us @ p # ws = m # path'" "filter (vis c l') path' = filter (vis c l') path"
      using p(2) w(1) va by (cases us) auto
    ultimately show ?thesis by auto
  qed
qed

lemma moved_vis:
  assumes r: "rep l xs" and mv: "moved l xs l' xs'" and nw: "cl_counter l + 1 \<noteq> 0" and c: "c \<le> cl_counter l"
  shows "vis c l' x \<longleftrightarrow> vis c l x \<and> x \<in> set xs'"
  using mv
proof (cases rule: moved_cases)
  case (add ys a cb zs)
  have "\<not> vis c l a" using r add(4) by (auto simp: vis_def rep_def dom_def split: option.splits)
  then show ?thesis
    using linked_vis(1) [OF _ add(3) nw c] linked_vis(2) [OF _ add(3) nw c, of x] vis_on_list [OF r, of c x] r add(1,2) by (cases "x = a") auto
next
  case (del ys a zs)
  have "map_option cn_counter (cl_heap l' x) = (if x = a then Some removedCounter else map_option cn_counter (cl_heap l x))"
    using unlinked_fields(1) [OF _ del(3), of x] r del(1) by simp
  then have "vis c l' x \<longleftrightarrow> vis c l x \<and> x \<noteq> a"
    using vis_counter [of l' x l c] by (cases "x = a") (auto simp: vis_def visible_def split: option.splits)
  moreover have "a \<notin> set xs'" using r del(1,2) by (simp add: rep_def)
  ultimately show ?thesis using vis_on_list [OF r, of c x] del(1,2) by auto
next
  case same
  then show ?thesis using vis_on_list [OF r, of c x] by auto
qed

lemma moved_path:
  assumes r: "rep l xs" and mv: "moved l xs l' xs'" and nw: "cl_counter l + 1 \<noteq> 0"
    and c: "c \<le> cl_counter l" and s: "seg (nexts l) (Some m) (m # path) None"
  shows "\<exists>path'. seg (nexts l') (Some m) (m # path') None \<and> filter (vis c l') path' = filter (vis c l') path"
  using mv
proof (cases rule: moved_cases)
  case (add ys a cb zs)
  have "nexts l a = None" using r add(4) by (auto simp: rep_def nexts_def dom_def)
  then have a: "a \<notin> set path" using seg_dom [OF s] by fastforce
  have "filter (vis c l') path = filter (vis c l) path"
  proof (intro filter_cong refl)
    fix x assume "x \<in> set path"
    then have "x \<noteq> a" using a by auto
    then show "vis c l' x = vis c l x" using linked_vis(2) [OF _ add(3) nw c, of x] r add(1) by simp
  qed
  then show ?thesis using linked_path [OF _ add(3) nw c s] r add(1) by simp
next
  case (del ys a zs)
  then show ?thesis using unlinked_path [OF _ del(3) s] r by simp
next
  case same
  then show ?thesis using s by auto
qed

lemma moved_counter:
  assumes r: "rep l xs" and mv: "moved l xs l' xs'" and nw: "cl_counter l + 1 \<noteq> 0"
  shows "cl_counter l \<le> cl_counter l'" and "unat (cl_counter l') \<le> Suc (unat (cl_counter l))"
proof -
  have "cl_counter l' = cl_counter l + 1 \<or> cl_counter l' = cl_counter l"
    using mv
  proof (cases rule: moved_cases)
    case (add ys a cb zs)
    then obtain c l0 where "getNextCounter l = (c, l0)" "cl_counter l' = cl_counter l0" by (cases "getNextCounter l") (auto simp: linked_def link_def)
    then show ?thesis using getNextCounter_rep(3,6) [OF r] nw by metis
  qed (auto simp: unlinked_def)
  then show "cl_counter l \<le> cl_counter l'" "unat (cl_counter l') \<le> Suc (unat (cl_counter l))"
    using nw unatSuc [of "cl_counter l"] by (auto simp: word_le_nat_alt add.commute)
qed

lemma moved_callback:
  assumes r: "rep l xs" and mv: "moved l xs l' xs'" and h: "map_option cn_callback (cl_heap l h) = Some cb"
  shows "map_option cn_callback (cl_heap l' h) = Some cb"
  using mv
proof (cases rule: moved_cases)
  case (add ys a cb' zs)
  have "h \<noteq> a" using h r add(4) by (auto simp: rep_def dom_def)
  moreover obtain c l0 where "getNextCounter l = (c, l0)" by fastforce
  ultimately show ?thesis using linked_fields(2) [OF _ add(3), of c l0 h] r add(1) h by simp
next
  case (del ys a zs)
  then show ?thesis using unlinked_fields(2) [OF _ del(3), of h] r h by simp
qed (use h in simp)

section \<open>Iterating while the callbacks change the list\<close>

text \<open>
  The state of an iteration at node \<open>m\<close> that has the entries \<open>es\<close> of the initial list
  still before it.
\<close>

definition walk :: "32 word \<Rightarrow> 'c clist \<Rightarrow> nat list \<Rightarrow> nat \<Rightarrow> 'c entries \<Rightarrow> bool" where
  "walk c l xs m es \<longleftrightarrow> rep l xs \<and> c \<le> cl_counter l
     \<and> (\<forall>(h, cb) \<in> set es. map_option cn_callback (cl_heap l h) = Some cb \<and> (vis c l h \<longleftrightarrow> h \<in> set xs))
     \<and> (\<exists>path. seg (nexts l) (Some m) (m # path) None \<and> filter (vis c l) path = filter (vis c l) (map fst es))"

lemma walk_moved:
  assumes w: "walk c l xs m es" and mv: "moved l xs l' xs'" and nw: "cl_counter l + 1 \<noteq> 0"
  shows "walk c l' xs' m es"
proof -
  have r: "rep l xs" and c: "c \<le> cl_counter l" using w by (auto simp: walk_def)
  note v = moved_vis [OF r mv nw c]
  obtain path where p: "seg (nexts l) (Some m) (m # path) None" "filter (vis c l) path = filter (vis c l) (map fst es)"
    using w by (auto simp: walk_def)
  have sub: "filter (vis c l') (filter (vis c l) zs) = filter (vis c l') zs" for zs
    using v by (auto intro!: filter_cong)
  obtain path' where "seg (nexts l') (Some m) (m # path') None" "filter (vis c l') path' = filter (vis c l') path"
    using moved_path [OF r mv nw c p(1)] by auto
  then have path': "\<exists>path'. seg (nexts l') (Some m) (m # path') None \<and> filter (vis c l') path' = filter (vis c l') (map fst es)"
    using sub [of path] sub [of "map fst es"] p(2) by metis
  have new: "set xs' \<subseteq> insert (cl_alloc l) (set xs)" using mv by (cases rule: moved_cases) auto
  have "map_option cn_callback (cl_heap l' h) = Some cb \<and> (vis c l' h \<longleftrightarrow> h \<in> set xs')" if "(h, cb) \<in> set es" for h cb
  proof -
    have h: "map_option cn_callback (cl_heap l h) = Some cb" "vis c l h \<longleftrightarrow> h \<in> set xs"
      using w that by (auto simp: walk_def)
    have "h \<noteq> cl_alloc l" using h(1) r by (auto simp: rep_def dom_def)
    then show ?thesis using moved_callback [OF r mv h(1)] v [of h] h(2) new by auto
  qed
  moreover have "c \<le> cl_counter l'" using c moved_counter(1) [OF r mv nw] by simp
  ultimately show ?thesis unfolding walk_def using moved_rep [OF r mv] path' by auto
qed

lemma no_wrap:
  assumes "unat (c :: 32 word) + 1 < 2 ^ 32"
  shows "c + 1 \<noteq> 0"
proof -
  have "unat (c + 1) = unat c + 1" using assms by (simp add: unat_word_ariths(1))
  then show ?thesis by force
qed

lemma walk_ops:
  assumes "walk c l xs m es" and "ops_ok kept ops (view l xs)" and "unat (cl_counter l) + length ops < 2 ^ 32"
  shows "\<exists>xs'. walk c (fold (cl_do kept) ops l) xs' m es
     \<and> view (fold (cl_do kept) ops l) xs' = fold spec_op ops (view l xs)
     \<and> unat (cl_counter (fold (cl_do kept) ops l)) \<le> unat (cl_counter l) + length ops"
  using assms
proof (induction ops arbitrary: l xs)
  case (Cons op ops)
  have r: "rep l xs" using Cons.prems(1) by (simp add: walk_def)
  have nw: "cl_counter l + 1 \<noteq> 0" using Cons.prems(3) by (intro no_wrap) simp
  let ?l = "cl_do kept op l"
  obtain xs1 where 1: "moved l xs ?l xs1" "view ?l xs1 = spec_op op (view l xs)"
    using cl_do_refines [OF r, of kept op] Cons.prems(2) by auto
  have c: "unat (cl_counter ?l) \<le> Suc (unat (cl_counter l))" using moved_counter(2) [OF r 1(1) nw] .
  have "\<exists>xs'. walk c (fold (cl_do kept) ops ?l) xs' m es
     \<and> view (fold (cl_do kept) ops ?l) xs' = fold spec_op ops (view ?l xs1)
     \<and> unat (cl_counter (fold (cl_do kept) ops ?l)) \<le> unat (cl_counter ?l) + length ops"
    using Cons.IH [OF walk_moved [OF Cons.prems(1) 1(1) nw]] Cons.prems(2,3) 1(2) c by simp
  then show ?case using 1(2) c by fastforce
qed auto

text \<open>
  A callback as the function of \<open>forEachIf\<close>: it performs operations on the list, updates
  the rest of the state and says whether to go on. \<open>spec_each\<close> is what the iteration
  promises: every entry of the list at the start is called in order, unless it has been
  removed before its turn; entries added meanwhile are not called.
\<close>

type_synonym ('c, 's) reaction = "nat \<Rightarrow> 'c \<Rightarrow> 's \<Rightarrow> bool \<times> 'c cl_op list \<times> 's"

definition reacting :: "(nat \<Rightarrow> bool) \<Rightarrow> ('c, 's) reaction \<Rightarrow> nat \<Rightarrow> 'c \<Rightarrow> 'c clist \<times> 's \<Rightarrow> bool \<times> 'c clist \<times> 's" where
  "reacting kept react h cb st =
     (let (go, ops, s') = react h cb (snd st) in (go, fold (cl_do kept) ops (fst st), s'))"

fun spec_each :: "('c, 's) reaction \<Rightarrow> 'c entries \<Rightarrow> ('c entries \<times> nat) \<times> 's \<Rightarrow> bool \<times> ('c entries \<times> nat) \<times> 's" where
  "spec_each react [] st = (True, st)"
| "spec_each react ((h, cb) # es) st =
     (if h \<in> fst ` set (fst (fst st)) then
        let (go, ops, s') = react h cb (snd st); st' = (fold spec_op ops (fst st), s')
        in if go then spec_each react es st' else (False, st')
      else spec_each react es st)"

text \<open>The operations of the callbacks use live handles, and how many there are.\<close>

fun each_ok :: "(nat \<Rightarrow> bool) \<Rightarrow> ('c, 's) reaction \<Rightarrow> 'c entries \<Rightarrow> ('c entries \<times> nat) \<times> 's \<Rightarrow> bool" where
  "each_ok kept react [] st \<longleftrightarrow> True"
| "each_ok kept react ((h, cb) # es) st \<longleftrightarrow>
     (if h \<in> fst ` set (fst (fst st)) then
        let (go, ops, s') = react h cb (snd st)
        in ops_ok kept ops (fst st) \<and> (go \<longrightarrow> each_ok kept react es (fold spec_op ops (fst st), s'))
      else each_ok kept react es st)"

fun each_ops :: "('c, 's) reaction \<Rightarrow> 'c entries \<Rightarrow> ('c entries \<times> nat) \<times> 's \<Rightarrow> nat" where
  "each_ops react [] st = 0"
| "each_ops react ((h, cb) # es) st =
     (if h \<in> fst ` set (fst (fst st)) then
        let (go, ops, s') = react h cb (snd st)
        in length ops + (if go then each_ops react es (fold spec_op ops (fst st), s') else 0)
      else each_ops react es st)"

lemma view_handles [simp]: "fst ` set (fst (view l xs)) = set xs"
  by (simp add: view_def)

lemma nexts_nd: "nexts l a = Some b \<Longrightarrow> cn_next (nd l a) = b"
  by (auto simp: nexts_def nd_def)

lemma iter_call_vis:
  assumes "nexts l a \<noteq> None"
  shows "iter_call l \<lparr>cur_node = Some a, cur_counter = c\<rparr> = (if vis c l a then Some (a, cn_callback (nd l a)) else None)"
  using assms by (auto simp: iter_call_def vis_def nd_def nexts_def split: option.splits)

text \<open>The loop passes over the nodes that are not visible.\<close>

lemma for_each_skip:
  assumes "seg (nexts l) p (us @ vs) None" and "\<forall>u \<in> set us. \<not> vis c l u"
  shows "for_each_if f \<lparr>cur_node = p, cur_counter = c\<rparr> (l, s)
       = for_each_if f \<lparr>cur_node = first_or vs None, cur_counter = c\<rparr> (l, s)"
  using assms
proof (induction us arbitrary: p)
  case Nil
  then show ?case by (cases vs) auto
next
  case (Cons u us)
  then obtain b where b: "p = Some u" "nexts l u = Some b" "seg (nexts l) b (us @ vs) None" by auto
  have "for_each_if f \<lparr>cur_node = p, cur_counter = c\<rparr> (l, s) = for_each_if f \<lparr>cur_node = b, cur_counter = c\<rparr> (l, s)"
    using b Cons.prems(2) by (subst for_each_if.simps) (simp add: iter_call_vis iter_next_def nexts_nd)
  then show ?case using Cons.IH [OF b(3)] Cons.prems(2) by simp
qed

text \<open>As \<open>walk\<close>, before the node \<open>p\<close> has been tested.\<close>

definition ahead :: "32 word \<Rightarrow> 'c clist \<Rightarrow> nat list \<Rightarrow> nat option \<Rightarrow> 'c entries \<Rightarrow> bool" where
  "ahead c l xs p es \<longleftrightarrow> rep l xs \<and> c \<le> cl_counter l
     \<and> (\<forall>(h, cb) \<in> set es. map_option cn_callback (cl_heap l h) = Some cb \<and> (vis c l h \<longleftrightarrow> h \<in> set xs))
     \<and> (\<exists>path. seg (nexts l) p path None \<and> filter (vis c l) path = filter (vis c l) (map fst es))"

lemma ahead_removed: "ahead c l xs p ((h, cb) # es) \<Longrightarrow> h \<notin> set xs \<Longrightarrow> ahead c l xs p es"
  by (auto simp: ahead_def)

lemma ahead_next: "walk c l xs m es \<Longrightarrow> ahead c l xs (cn_next (nd l m)) es"
  using nexts_nd by (fastforce simp: walk_def ahead_def)

lemma ahead_call:
  assumes a: "ahead c l xs p ((h, cb) # es)" and h: "h \<in> set xs"
  shows "walk c l xs h es"
    and "for_each_if f \<lparr>cur_node = p, cur_counter = c\<rparr> (l, s) =
      (let (go, st') = f h cb (l, s)
       in if go then for_each_if f \<lparr>cur_node = cn_next (nd (fst st') h), cur_counter = c\<rparr> st' else Some (False, st'))"
proof -
  obtain path where p: "seg (nexts l) p path None" "filter (vis c l) path = filter (vis c l) (h # map fst es)"
    using a by (auto simp: ahead_def)
  have v: "vis c l h" and cb: "cn_callback (nd l h) = cb" using a h by (auto simp: ahead_def nd_def)
  obtain us vs where u: "path = us @ h # vs" "\<forall>u \<in> set us. \<not> vis c l u" "filter (vis c l) vs = filter (vis c l) (map fst es)"
    using p(2) v by (auto simp: filter_eq_Cons_iff)
  obtain b where b: "nexts l h = Some b" "seg (nexts l) b vs None" using p(1) u(1) by (auto simp: seg_append)
  show "walk c l xs h es" using a b u(3) unfolding walk_def ahead_def by auto
  have "for_each_if f \<lparr>cur_node = p, cur_counter = c\<rparr> (l, s) = for_each_if f \<lparr>cur_node = Some h, cur_counter = c\<rparr> (l, s)"
    using for_each_skip [of l p us "h # vs" c f s] p(1) u(1,2) by simp
  then show "for_each_if f \<lparr>cur_node = p, cur_counter = c\<rparr> (l, s) =
      (let (go, st') = f h cb (l, s)
       in if go then for_each_if f \<lparr>cur_node = cn_next (nd (fst st') h), cur_counter = c\<rparr> st' else Some (False, st'))"
    using b v cb by (simp add: for_each_if.simps [of f "\<lparr>cur_node = Some h, cur_counter = c\<rparr>" "(l, s)"] iter_call_vis iter_next_def split: prod.split)
qed

lemma for_each_refines:
  assumes "ahead c l xs p es" and "each_ok kept react es (view l xs, s)"
    and "unat (cl_counter l) + each_ops react es (view l xs, s) < 2 ^ 32"
  shows "\<exists>go l' xs' s'. for_each_if (reacting kept react) \<lparr>cur_node = p, cur_counter = c\<rparr> (l, s) = Some (go, l', s')
     \<and> rep l' xs' \<and> spec_each react es (view l xs, s) = (go, view l' xs', s')
     \<and> unat (cl_counter l') \<le> unat (cl_counter l) + each_ops react es (view l xs, s)"
  using assms
proof (induction es arbitrary: l xs p s)
  case Nil
  then obtain path where "seg (nexts l) p path None" "filter (vis c l) path = []" by (auto simp: ahead_def)
  then have "for_each_if (reacting kept react) \<lparr>cur_node = p, cur_counter = c\<rparr> (l, s) = Some (True, l, s)"
    using for_each_skip [of l p path "[]" c "reacting kept react" s] by (simp add: filter_empty_conv for_each_if.simps [of _ "\<lparr>cur_node = None, cur_counter = c\<rparr>"])
  then show ?case using Nil.prems(1) by (auto simp: ahead_def)
next
  case (Cons e es)
  obtain h cb where e: "e = (h, cb)" by (cases e)
  show ?case
  proof (cases "h \<in> set xs")
    case False
    then show ?thesis using Cons.IH [of l xs p s] ahead_removed [of c l xs p h cb es] Cons.prems e by simp
  next
    case True
    obtain go ops s' where re: "react h cb s = (go, ops, s')" by (cases "react h cb s")
    let ?l = "fold (cl_do kept) ops l"
    note ac = ahead_call [OF Cons.prems(1) [unfolded e] True]
    have ok: "ops_ok kept ops (view l xs)" "unat (cl_counter l) + length ops < 2 ^ 32"
      using Cons.prems(2,3) e True re by auto
    obtain xs' where x: "walk c ?l xs' h es" "view ?l xs' = fold spec_op ops (view l xs)"
      "unat (cl_counter ?l) \<le> unat (cl_counter l) + length ops"
      using walk_ops [OF ac(1) ok] by auto
    have f: "reacting kept react h cb (l, s) = (go, ?l, s')" by (simp add: reacting_def re)
    show ?thesis
    proof (cases go)
      case False
      have "for_each_if (reacting kept react) \<lparr>cur_node = p, cur_counter = c\<rparr> (l, s) = Some (False, ?l, s')"
        unfolding ac(2) f using False by simp
      moreover have "spec_each react (e # es) (view l xs, s) = (False, view ?l xs', s')"
        using e True re x(2) False by simp
      moreover have "rep ?l xs'" using x(1) by (simp add: walk_def)
      moreover have "each_ops react (e # es) (view l xs, s) = length ops" using e True re False by simp
      ultimately show ?thesis using x(3) by auto
    next
      case go: True
      have "for_each_if (reacting kept react) \<lparr>cur_node = p, cur_counter = c\<rparr> (l, s)
          = for_each_if (reacting kept react) \<lparr>cur_node = cn_next (nd ?l h), cur_counter = c\<rparr> (?l, s')"
        unfolding ac(2) f using go by simp
      moreover have "spec_each react (e # es) (view l xs, s) = spec_each react es (view ?l xs', s')"
        using e True re x(2) go by simp
      moreover have "each_ok kept react es (view ?l xs', s')" using e True re x(2) go Cons.prems(2) by simp
      moreover have "unat (cl_counter ?l) + each_ops react es (view ?l xs', s') < 2 ^ 32"
        using e True re x(2,3) go Cons.prems(3) by simp
      moreover have "each_ops react (e # es) (view l xs, s) = length ops + each_ops react es (view ?l xs', s')"
        using e True re go x(2) by simp
      ultimately show ?thesis using Cons.IH [OF ahead_next [OF x(1)], of s'] x(3) by fastforce
    qed
  qed
qed

lemma each_refines:
  assumes "rep l xs" and "each_ok kept react (entries l xs) (view l xs, s)"
    and "unat (cl_counter l) + each_ops react (entries l xs) (view l xs, s) < 2 ^ 32"
  shows "\<exists>go l' xs' s'. doForEachIf (reacting kept react) (l, s) = Some (go, l', s')
     \<and> rep l' xs' \<and> spec_each react (entries l xs) (view l xs, s) = (go, view l' xs', s')
     \<and> unat (cl_counter l') \<le> unat (cl_counter l) + each_ops react (entries l xs) (view l xs, s)"
proof -
  have "map_option cn_callback (cl_heap l h) = Some (cn_callback (nd l h)) \<and> vis (cl_counter l) l h" if "h \<in> set xs" for h
    using rep_dom [OF assms(1) that] rep_counter [OF assms(1), of h] that by (auto simp: vis_def visible_def nd_def)
  then have "ahead (cl_counter l) l xs (first_or xs None) (entries l xs)"
    unfolding ahead_def using assms(1) rep_seg [OF assms(1)] by (auto simp: entries_def comp_def)
  from for_each_refines [OF this assms(2,3)] show ?thesis
    using assms(1) by (simp add: doForEachIf_def iter_begin_def rep_def)
qed

section \<open>The list as its users see it\<close>

definition listed :: "'c clist \<Rightarrow> 'c entries \<times> nat \<Rightarrow> bool" where
  "listed l st \<longleftrightarrow> (\<exists>xs. rep l xs \<and> view l xs = st)"

lemma listed_empty: "listed CallbackList ([], 0)"
  unfolding listed_def using rep_CallbackList by (intro exI [of _ "[]"]) (simp add: view_def entries_def CallbackList_def)

lemma listed_op: "listed l st \<Longrightarrow> op_ok kept op st \<Longrightarrow> listed (cl_do kept op l) (spec_op op st)"
  unfolding listed_def using cl_do_refines moved_rep by metis

lemma listed_counter:
  assumes "listed l st" and "op_ok kept op st" and "unat (cl_counter l) + 1 < 2 ^ 32"
  shows "unat (cl_counter (cl_do kept op l)) \<le> Suc (unat (cl_counter l))"
proof -
  obtain xs where x: "rep l xs" "view l xs = st" using assms(1) by (auto simp: listed_def)
  then obtain xs' where "moved l xs (cl_do kept op l) xs'" using cl_do_refines [OF x(1)] assms(2) by blast
  then show ?thesis using moved_counter(2) [OF x(1)] no_wrap [OF assms(3)] by blast
qed

lemma listed_each:
  assumes "listed l st" and "each_ok kept react (fst st) (st, s)"
    and "unat (cl_counter l) + each_ops react (fst st) (st, s) < 2 ^ 32"
  shows "\<exists>go l' st' s'. doForEachIf (reacting kept react) (l, s) = Some (go, l', s')
     \<and> listed l' st' \<and> spec_each react (fst st) (st, s) = (go, st', s')
     \<and> unat (cl_counter l') \<le> unat (cl_counter l) + each_ops react (fst st) (st, s)"
proof -
  obtain xs where x: "rep l xs" "view l xs = st" using assms(1) by (auto simp: listed_def)
  have "fst st = entries l xs" using x(2) by (auto simp: view_def)
  with each_refines [OF x(1), of kept react s] assms(2,3) x(2) show ?thesis unfolding listed_def by metis
qed

lemma listed_empty_iff: "listed l st \<Longrightarrow> cl_empty l \<longleftrightarrow> fst st = []"
  by (cases "fst st") (auto simp: listed_def rep_def view_def entries_def cl_empty_def)

text \<open>What the dispatcher relies on.\<close>

locale listener_list =
  fixes shown :: "'l \<Rightarrow> 'c entries \<times> nat \<Rightarrow> bool" and fresh :: 'l
    and perform :: "'c cl_op \<Rightarrow> 'l \<Rightarrow> 'l" and kept :: "nat \<Rightarrow> bool" and age :: "'l \<Rightarrow> nat"
  assumes shown_fresh: "shown fresh ([], 0)" and age_fresh: "age fresh = 0"
    and shown_op: "shown l st \<Longrightarrow> op_ok kept op st \<Longrightarrow> shown (perform op l) (spec_op op st)"
    and age_op: "shown l st \<Longrightarrow> op_ok kept op st \<Longrightarrow> age l + 1 < 2 ^ 32 \<Longrightarrow> age (perform op l) \<le> Suc (age l)"
begin

lemma shown_ops: "shown l st \<Longrightarrow> ops_ok kept ops st \<Longrightarrow> shown (fold perform ops l) (fold spec_op ops st)"
  by (induction ops arbitrary: l st) (auto simp: shown_op)

lemma age_ops:
  "shown l st \<Longrightarrow> ops_ok kept ops st \<Longrightarrow> age l + length ops < 2 ^ 32 \<Longrightarrow> age (fold perform ops l) \<le> age l + length ops"
proof (induction ops arbitrary: l st)
  case (Cons op ops)
  have "age (perform op l) \<le> Suc (age l)" using age_op [of l st op] Cons.prems by simp
  then show ?case using Cons.IH [OF shown_op [of l st op]] Cons.prems by fastforce
qed simp

end

interpretation cbl: listener_list listed CallbackList "cl_do kept" kept "\<lambda>l. unat (cl_counter l)" for kept
  by unfold_locales (auto simp: listed_empty listed_op listed_counter, simp add: CallbackList_def)

section \<open>Properties\<close>

declare for_each_if.simps [code]

text \<open>
  C17: A callback list behaves as the sequence of its entries: appending, prepending,
  inserting before an entry and removing one do to the linked nodes what they do to the
  sequence, keep every other entry with its callback and its place, and a handle that has
  expired makes \<open>insert\<close> an \<open>append\<close> and \<open>remove\<close> no change.\<close>

theorem callback_list_refines:
  assumes "listed l st" and "ops_ok kept ops st"
  shows "listed (fold (cl_do kept) ops l) (fold spec_op ops st)"
  using cbl.shown_ops [OF assms] .

theorem callback_list_refines_witness:
  "listed (fold (cl_do (\<lambda>h. h = 9)) [Append ''A'', Prepend ''B'', Insert ''C'' 0, Remove 1, Insert ''D'' 7] CallbackList)
     ([(2, ''C''), (0, ''A''), (3, ''D'')], 4)"
  using callback_list_refines [OF listed_empty, of "\<lambda>h. h = 9"
      "[Append ''A'', Prepend ''B'', Insert ''C'' 0, Remove 1, Insert ''D'' 7]"] by (simp add: eval_nat_numeral)

text \<open>
  C8: Invoking the list while its callbacks change it always ends, and calls exactly the
  entries that were on the list when it began, in their order, each once, except those
  removed before their turn; callbacks added meanwhile wait for the next invocation, and
  the list is well formed afterwards. This holds while the 32-bit counter does not wrap
  round during the invocation.\<close>

theorem callback_iteration_snapshot:
  assumes "listed l st" and "each_ok kept react (fst st) (st, s)"
    and "unat (cl_counter l) + each_ops react (fst st) (st, s) < 2 ^ 32"
  shows "\<exists>go l' st' s'. doForEachIf (reacting kept react) (l, s) = Some (go, l', s')
     \<and> listed l' st' \<and> spec_each react (fst st) (st, s) = (go, st', s')"
  using listed_each [OF assms] by blast

definition sample_reaction :: "nat \<Rightarrow> string \<Rightarrow> nat list \<Rightarrow> bool \<times> string cl_op list \<times> nat list" where
  "sample_reaction h cb s =
     (True, if cb = ''A'' then [Remove 2, Append ''D''] else if cb = ''B'' then [Remove 1, Prepend ''E''] else [], s @ [h])"

definition sample_list :: "string clist" where
  "sample_list = fold (cl_do (\<lambda>_. True)) [Append ''A'', Append ''B'', Append ''C''] CallbackList"

lemma sample_list_listed: "listed sample_list ([(0, ''A''), (1, ''B''), (2, ''C'')], 3)"
  unfolding sample_list_def
  using cbl.shown_ops [OF listed_empty, of "\<lambda>_. True" "[Append ''A'', Append ''B'', Append ''C'']"] by (simp add: eval_nat_numeral)

theorem callback_iteration_snapshot_witness:
  "\<exists>l'. doForEachIf (reacting (\<lambda>_. True) sample_reaction) (sample_list, []) = Some (True, l', [0, 1])
     \<and> listed l' ([(4, ''E''), (0, ''A''), (3, ''D'')], 5)"
proof -
  have "unat (cl_counter sample_list) = 3" unfolding sample_list_def by code_simp
  with callback_iteration_snapshot [OF sample_list_listed, of "\<lambda>_. True" sample_reaction "[]"]
  show ?thesis by (auto simp: sample_reaction_def)
qed

definition logging :: "nat \<Rightarrow> 'c \<Rightarrow> 'c clist \<times> nat list \<Rightarrow> bool \<times> 'c clist \<times> nat list" where
  "logging h cb st = (True, fst st, snd st @ [h])"

definition before_second_removal :: "string clist" where
  "before_second_removal =
     fold (cl_do (\<lambda>h. h = 1)) [Append ''A'', Append ''B'', Append ''C'', Remove 1, Insert ''X'' 2] CallbackList"

text \<open>
  Removing a handle twice can lose another callback. While an invocation still
  refers to a removed node its handle has not expired; a second \<open>remove\<close> unlinks the node
  again with its old neighbours, so a callback inserted between them is never called again
  although \<open>ownsHandle\<close> still holds for it.\<close>

theorem second_removal_loses_callback:
  "map_option (snd \<circ> snd) (doForEachIf logging (before_second_removal, [])) = Some [0, 3, 2]
   \<and> fst (cl_remove (\<lambda>h. h = 1) 1 before_second_removal)
   \<and> map_option (snd \<circ> snd) (doForEachIf logging (snd (cl_remove (\<lambda>h. h = 1) 1 before_second_removal), [])) = Some [0, 2]
   \<and> cl_ownsHandle (\<lambda>h. h = 1) 3 (snd (cl_remove (\<lambda>h. h = 1) 1 before_second_removal))"
  by code_simp

end
