(* ===== verification/Event_Queue.thy ===== *)
theory Event_Queue
  imports Callback_Refine
begin

text \<open>
  3rd/include/eventpp/eventdispatcher.h and eventqueue.h: listeners per event, and the
  queue of events that are dispatched to them, with the default policies (no mixins, every
  callback continues the invocation), as the agent instantiates it: events are \<open>int\<close>s.

  A callback is a function on the state: the whole queue (it may register or remove
  listeners and enqueue events) and the rest of the program. It does not call one of the
  \<open>process\<close> functions itself. \<open>None\<close> is a call that does not return: a loop without end or
  the use of an empty buffer. \<open>kept\<close> says, per event, which removed nodes are still
  referenced (see Callback_List).
\<close>

section \<open>State\<close>

text \<open>
  \<open>BufferedItem\<close> of internal/eventqueue\_i.h: storage that holds an object or not
  (\<open>dtor\<close> is null). \<open>clear\<close> calls through \<open>dtor\<close>.
\<close>

type_synonym 'a buffered = "'a option"

definition bi_set :: "'a \<Rightarrow> 'a buffered \<Rightarrow> 'a buffered" where
  "bi_set item i = Some item"

definition bi_get :: "'a buffered \<Rightarrow> 'a option" where
  "bi_get i = i"

definition bi_clear :: "'a buffered \<Rightarrow> 'a buffered option" where
  "bi_clear i = (case i of None \<Rightarrow> None | Some _ \<Rightarrow> Some None)"

record ('c, 'a) equeue =
  eventCallbackListMap :: "int \<rightharpoonup> 'c clist"
  queueList :: "(int \<times> 'a) buffered list"
  freeList :: "(int \<times> 'a) buffered list"
  queueEmptyCounter :: int
  queueNotifyCounter :: int
  notifications :: nat        \<comment> \<open>calls of \<open>notify_one\<close>\<close>

definition EventQueue :: "('c, 'a) equeue" where
  "EventQueue = \<lparr>eventCallbackListMap = Map.empty, queueList = [], freeList = [],
     queueEmptyCounter = 0, queueNotifyCounter = 0, notifications = 0\<rparr>"

text \<open>Copies share the listeners only, by copying each list; moves take them.\<close>

definition copy_queue :: "('c, 'a) equeue \<Rightarrow> ('c, 'a) equeue" where
  "copy_queue other = EventQueue\<lparr>eventCallbackListMap := (\<lambda>e. map_option cloneFrom (eventCallbackListMap other e))\<rparr>"

definition move_queue :: "('c, 'a) equeue \<Rightarrow> ('c, 'a) equeue \<times> ('c, 'a) equeue" where
  "move_queue other = (EventQueue\<lparr>eventCallbackListMap := eventCallbackListMap other\<rparr>, other\<lparr>eventCallbackListMap := Map.empty\<rparr>)"

text \<open>Assignment from another object replaces the listeners and leaves the events.\<close>

definition assign_queue :: "('c, 'a) equeue \<Rightarrow> ('c, 'a) equeue \<Rightarrow> ('c, 'a) equeue" where
  "assign_queue q other = q\<lparr>eventCallbackListMap := (\<lambda>e. map_option cloneFrom (eventCallbackListMap other e))\<rparr>"

definition move_assign_queue :: "('c, 'a) equeue \<Rightarrow> ('c, 'a) equeue \<Rightarrow> ('c, 'a) equeue \<times> ('c, 'a) equeue" where
  "move_assign_queue q other =
     (q\<lparr>eventCallbackListMap := eventCallbackListMap other\<rparr>, other\<lparr>eventCallbackListMap := Map.empty\<rparr>)"

definition swap_listeners :: "('c, 'a) equeue \<Rightarrow> ('c, 'a) equeue \<Rightarrow> ('c, 'a) equeue \<times> ('c, 'a) equeue" where
  "swap_listeners q other =
     (q\<lparr>eventCallbackListMap := eventCallbackListMap other\<rparr>, other\<lparr>eventCallbackListMap := eventCallbackListMap q\<rparr>)"

section \<open>The dispatcher\<close>

definition doFindCallableList :: "int \<Rightarrow> ('c, 'a) equeue \<Rightarrow> 'c clist option" where
  "doFindCallableList e q = eventCallbackListMap q e"

text \<open>\<open>operator[]\<close> of the map creates an empty list.\<close>

definition list_at :: "int \<Rightarrow> ('c, 'a) equeue \<Rightarrow> 'c clist" where
  "list_at e q = (case eventCallbackListMap q e of None \<Rightarrow> CallbackList | Some l \<Rightarrow> l)"

definition put_list :: "int \<Rightarrow> 'c clist \<Rightarrow> ('c, 'a) equeue \<Rightarrow> ('c, 'a) equeue" where
  "put_list e l q = q\<lparr>eventCallbackListMap := (eventCallbackListMap q)(e \<mapsto> l)\<rparr>"

definition take_list :: "int \<Rightarrow> ('c, 'a) equeue \<Rightarrow> ('c, 'a) equeue" where
  "take_list e q = q\<lparr>eventCallbackListMap := (eventCallbackListMap q)(e := None)\<rparr>"

definition appendListener :: "int \<Rightarrow> 'c \<Rightarrow> ('c, 'a) equeue \<Rightarrow> nat \<times> ('c, 'a) equeue" where
  "appendListener e c q = (let (h, l) = cl_append c (list_at e q) in (h, put_list e l q))"

definition prependListener :: "int \<Rightarrow> 'c \<Rightarrow> ('c, 'a) equeue \<Rightarrow> nat \<times> ('c, 'a) equeue" where
  "prependListener e c q = (let (h, l) = cl_prepend c (list_at e q) in (h, put_list e l q))"

definition insertListener :: "(int \<Rightarrow> nat \<Rightarrow> bool) \<Rightarrow> int \<Rightarrow> 'c \<Rightarrow> nat \<Rightarrow> ('c, 'a) equeue \<Rightarrow> nat \<times> ('c, 'a) equeue" where
  "insertListener kept e c before q = (let (h, l) = cl_insert (kept e) c before (list_at e q) in (h, put_list e l q))"

definition removeListener :: "(int \<Rightarrow> nat \<Rightarrow> bool) \<Rightarrow> int \<Rightarrow> nat \<Rightarrow> ('c, 'a) equeue \<Rightarrow> bool \<times> ('c, 'a) equeue" where
  "removeListener kept e handle q =
     (case doFindCallableList e q of
        None \<Rightarrow> (False, q)
      | Some l \<Rightarrow> let (b, l') = cl_remove (kept e) handle l in (b, put_list e l' q))"

definition hasAnyListener :: "int \<Rightarrow> ('c, 'a) equeue \<Rightarrow> bool" where
  "hasAnyListener e q = (case doFindCallableList e q of None \<Rightarrow> False | Some l \<Rightarrow> \<not> cl_empty l)"

definition ownsHandle :: "(int \<Rightarrow> nat \<Rightarrow> bool) \<Rightarrow> int \<Rightarrow> nat \<Rightarrow> ('c, 'a) equeue \<Rightarrow> bool" where
  "ownsHandle kept e handle q = (case doFindCallableList e q of None \<Rightarrow> False | Some l \<Rightarrow> cl_ownsHandle (kept e) handle l)"

text \<open>
  \<open>forEachIf\<close> of the list of an event. While it runs, the list is the one in the map: it
  is put there for every call and read back after it.
\<close>

type_synonym ('c, 'a, 's) world = "('c, 'a) equeue \<times> 's"

definition in_list :: "int \<Rightarrow> (nat \<Rightarrow> 'c \<Rightarrow> ('c, 'a, 's) world \<Rightarrow> bool \<times> ('c, 'a, 's) world)
    \<Rightarrow> nat \<Rightarrow> 'c \<Rightarrow> 'c clist \<times> ('c, 'a, 's) world \<Rightarrow> bool \<times> 'c clist \<times> ('c, 'a, 's) world" where
  "in_list e f h cb st =
     (let (l, q, s) = st; (go, q', s') = f h cb (put_list e l q, s)
      in (go, list_at e q', take_list e q', s'))"

definition eq_forEachIf :: "int \<Rightarrow> (nat \<Rightarrow> 'c \<Rightarrow> ('c, 'a, 's) world \<Rightarrow> bool \<times> ('c, 'a, 's) world)
    \<Rightarrow> ('c, 'a, 's) world \<Rightarrow> (bool \<times> ('c, 'a, 's) world) option" where
  "eq_forEachIf e f st =
     (case doFindCallableList e (fst st) of
        None \<Rightarrow> Some (True, st)
      | Some l \<Rightarrow>
          (case doForEachIf (in_list e f) (l, take_list e (fst st), snd st) of
             None \<Rightarrow> None
           | Some (go, l', q', s') \<Rightarrow> Some (go, put_list e l' q', s')))"

text \<open>The call operator of the list: every callback is called with the arguments.\<close>

definition directDispatch :: "('c \<Rightarrow> 'a \<Rightarrow> ('c, 'a, 's) world \<Rightarrow> ('c, 'a, 's) world)
    \<Rightarrow> int \<Rightarrow> 'a \<Rightarrow> ('c, 'a, 's) world \<Rightarrow> ('c, 'a, 's) world option" where
  "directDispatch call e a st = map_option snd (eq_forEachIf e (\<lambda>h cb w. (True, call cb a w)) st)"

section \<open>The queue\<close>

definition emptyQueue :: "('c, 'a) equeue \<Rightarrow> bool" where
  "emptyQueue q \<longleftrightarrow> queueList q = [] \<and> queueEmptyCounter q = 0"

definition doCanNotifyQueueAvailable :: "('c, 'a) equeue \<Rightarrow> bool" where
  "doCanNotifyQueueAvailable q \<longleftrightarrow> queueNotifyCounter q = 0"

definition doCanProcess :: "('c, 'a) equeue \<Rightarrow> bool" where
  "doCanProcess q \<longleftrightarrow> \<not> emptyQueue q \<and> doCanNotifyQueueAvailable q"

definition notify_one :: "('c, 'a) equeue \<Rightarrow> ('c, 'a) equeue" where
  "notify_one q = q\<lparr>notifications := Suc (notifications q)\<rparr>"

definition disable_notify :: "('c, 'a) equeue \<Rightarrow> ('c, 'a) equeue" where
  "disable_notify q = q\<lparr>queueNotifyCounter := queueNotifyCounter q + 1\<rparr>"

definition enable_notify :: "('c, 'a) equeue \<Rightarrow> ('c, 'a) equeue" where
  "enable_notify q =
     (let q1 = q\<lparr>queueNotifyCounter := queueNotifyCounter q - 1\<rparr>
      in if doCanNotifyQueueAvailable q1 \<and> \<not> emptyQueue q1 then notify_one q1 else q1)"

text \<open>A buffer of the free list is reused; a new one is made when there is none.\<close>

definition doEnqueue :: "int \<times> 'a \<Rightarrow> ('c, 'a) equeue \<Rightarrow> ('c, 'a) equeue" where
  "doEnqueue item q =
     (let (it, rest) = (case freeList q of [] \<Rightarrow> (None, []) | i # is \<Rightarrow> (i, is))
      in q\<lparr>freeList := rest, queueList := queueList q @ [bi_set item it]\<rparr>)"

definition enqueue :: "int \<Rightarrow> 'a \<Rightarrow> ('c, 'a) equeue \<Rightarrow> ('c, 'a) equeue" where
  "enqueue e a q = (let q1 = doEnqueue (e, a) q in if doCanProcess q1 then notify_one q1 else q1)"

definition clear_items :: "'a buffered list \<Rightarrow> 'a buffered list option" where
  "clear_items is = those (map bi_clear is)"

definition clearEvents :: "('c, 'a) equeue \<Rightarrow> ('c, 'a) equeue option" where
  "clearEvents q =
     (if queueList q = [] then Some q
      else case clear_items (queueList q) of
             None \<Rightarrow> None
           | Some is \<Rightarrow> Some (q\<lparr>queueList := [], freeList := freeList q @ is\<rparr>))"

section \<open>Processing\<close>

definition doDispatchQueuedEvent :: "('c \<Rightarrow> 'a \<Rightarrow> ('c, 'a, 's) world \<Rightarrow> ('c, 'a, 's) world)
    \<Rightarrow> (int \<times> 'a) buffered \<Rightarrow> ('c, 'a, 's) world \<Rightarrow> ('c, 'a, 's) world option" where
  "doDispatchQueuedEvent call i st =
     (case bi_get i of None \<Rightarrow> None | Some (e, a) \<Rightarrow> directDispatch call e a st)"

text \<open>\<open>dispatch\<close> of an event that was taken or peeked before.\<close>

definition dispatch_queued :: "('c \<Rightarrow> 'a \<Rightarrow> ('c, 'a, 's) world \<Rightarrow> ('c, 'a, 's) world)
    \<Rightarrow> int \<times> 'a \<Rightarrow> ('c, 'a, 's) world \<Rightarrow> ('c, 'a, 's) world option" where
  "dispatch_queued call queuedEvent st = doDispatchQueuedEvent call (Some queuedEvent) st"

text \<open>\<open>CounterGuard\<close>, and taking the events out of the queue.\<close>

definition guard_enter :: "('c, 'a) equeue \<Rightarrow> ('c, 'a) equeue" where
  "guard_enter q = q\<lparr>queueEmptyCounter := queueEmptyCounter q + 1\<rparr>"

definition guard_leave :: "('c, 'a) equeue \<Rightarrow> ('c, 'a) equeue" where
  "guard_leave q = q\<lparr>queueEmptyCounter := queueEmptyCounter q - 1\<rparr>"

fun process_items :: "('c \<Rightarrow> 'a \<Rightarrow> ('c, 'a, 's) world \<Rightarrow> ('c, 'a, 's) world)
    \<Rightarrow> (int \<times> 'a) buffered list \<Rightarrow> ('c, 'a, 's) world \<Rightarrow> ((int \<times> 'a) buffered list \<times> ('c, 'a, 's) world) option" where
  "process_items call [] st = Some ([], st)"
| "process_items call (i # is) st =
     (case doDispatchQueuedEvent call i st of
        None \<Rightarrow> None
      | Some st1 \<Rightarrow>
          (case bi_clear i of
             None \<Rightarrow> None
           | Some c \<Rightarrow> map_option (\<lambda>(cs, st'). (c # cs, st')) (process_items call is st1)))"

definition process :: "('c \<Rightarrow> 'a \<Rightarrow> ('c, 'a, 's) world \<Rightarrow> ('c, 'a, 's) world)
    \<Rightarrow> ('c, 'a, 's) world \<Rightarrow> (bool \<times> ('c, 'a, 's) world) option" where
  "process call st =
     (let (q, s) = st in
      if queueList q = [] then Some (False, st)
      else case process_items call (queueList q) ((guard_enter q)\<lparr>queueList := []\<rparr>, s) of
             None \<Rightarrow> None
           | Some (idle, q', s') \<Rightarrow> Some (True, guard_leave (q'\<lparr>freeList := freeList q' @ idle\<rparr>), s'))"

definition processOne :: "('c \<Rightarrow> 'a \<Rightarrow> ('c, 'a, 's) world \<Rightarrow> ('c, 'a, 's) world)
    \<Rightarrow> ('c, 'a, 's) world \<Rightarrow> (bool \<times> ('c, 'a, 's) world) option" where
  "processOne call st =
     (let (q, s) = st in
      case queueList q of
        [] \<Rightarrow> Some (False, st)
      | i # is \<Rightarrow>
          (case process_items call [i] ((guard_enter q)\<lparr>queueList := is\<rparr>, s) of
             None \<Rightarrow> None
           | Some (idle, q', s') \<Rightarrow> Some (True, guard_leave (q'\<lparr>freeList := freeList q' @ idle\<rparr>), s')))"

text \<open>
  \<open>processIf\<close> leaves the events that fail the predicate in \<open>tempList\<close>, and returns them to
  the front of the queue; \<open>processUntil\<close> stops at the first event that satisfies it. The
  results are the events left and the buffers cleared.
\<close>

fun process_if_items :: "('c \<Rightarrow> 'a \<Rightarrow> ('c, 'a, 's) world \<Rightarrow> ('c, 'a, 's) world) \<Rightarrow> ('a \<Rightarrow> 's \<Rightarrow> bool)
    \<Rightarrow> (int \<times> 'a) buffered list \<Rightarrow> ('c, 'a, 's) world
    \<Rightarrow> ((int \<times> 'a) buffered list \<times> (int \<times> 'a) buffered list \<times> ('c, 'a, 's) world) option" where
  "process_if_items call predictor [] st = Some ([], [], st)"
| "process_if_items call predictor (i # is) st =
     (case bi_get i of
        None \<Rightarrow> None
      | Some (e, a) \<Rightarrow>
          if predictor a (snd st) then
            (case doDispatchQueuedEvent call i st of
               None \<Rightarrow> None
             | Some st1 \<Rightarrow>
                 (case bi_clear i of
                    None \<Rightarrow> None
                  | Some c \<Rightarrow> map_option (\<lambda>(rest, cs, st'). (rest, c # cs, st')) (process_if_items call predictor is st1)))
          else map_option (\<lambda>(rest, cs, st'). (i # rest, cs, st')) (process_if_items call predictor is st))"

fun process_until_items :: "('c \<Rightarrow> 'a \<Rightarrow> ('c, 'a, 's) world \<Rightarrow> ('c, 'a, 's) world) \<Rightarrow> ('a \<Rightarrow> 's \<Rightarrow> bool)
    \<Rightarrow> (int \<times> 'a) buffered list \<Rightarrow> ('c, 'a, 's) world
    \<Rightarrow> ((int \<times> 'a) buffered list \<times> (int \<times> 'a) buffered list \<times> ('c, 'a, 's) world) option" where
  "process_until_items call predictor [] st = Some ([], [], st)"
| "process_until_items call predictor (i # is) st =
     (case bi_get i of
        None \<Rightarrow> None
      | Some (e, a) \<Rightarrow>
          if predictor a (snd st) then Some (i # is, [], st)
          else (case doDispatchQueuedEvent call i st of
               None \<Rightarrow> None
             | Some st1 \<Rightarrow>
                 (case bi_clear i of
                    None \<Rightarrow> None
                  | Some c \<Rightarrow> map_option (\<lambda>(rest, cs, st'). (rest, c # cs, st')) (process_until_items call predictor is st1))))"

definition give_back :: "(int \<times> 'a) buffered list \<times> (int \<times> 'a) buffered list \<times> ('c, 'a, 's) world \<Rightarrow> bool \<times> ('c, 'a, 's) world" where
  "give_back r =
     (let (rest, idle, q, s) = r
      in (idle \<noteq> [], guard_leave (q\<lparr>queueList := rest @ queueList q, freeList := freeList q @ idle\<rparr>), s))"

definition processIf :: "('c \<Rightarrow> 'a \<Rightarrow> ('c, 'a, 's) world \<Rightarrow> ('c, 'a, 's) world) \<Rightarrow> ('a \<Rightarrow> 's \<Rightarrow> bool)
    \<Rightarrow> ('c, 'a, 's) world \<Rightarrow> (bool \<times> ('c, 'a, 's) world) option" where
  "processIf call predictor st =
     (let (q, s) = st in
      if queueList q = [] then Some (False, st)
      else map_option give_back
             (process_if_items call predictor (queueList q) ((guard_enter q)\<lparr>queueList := []\<rparr>, s)))"

definition processUntil :: "('c \<Rightarrow> 'a \<Rightarrow> ('c, 'a, 's) world \<Rightarrow> ('c, 'a, 's) world) \<Rightarrow> ('a \<Rightarrow> 's \<Rightarrow> bool)
    \<Rightarrow> ('c, 'a, 's) world \<Rightarrow> (bool \<times> ('c, 'a, 's) world) option" where
  "processUntil call predictor st =
     (let (q, s) = st in
      if queueList q = [] then Some (False, st)
      else map_option give_back
             (process_until_items call predictor (queueList q) ((guard_enter q)\<lparr>queueList := []\<rparr>, s)))"

text \<open>Looking at the first event, and taking it.\<close>

definition peekEvent :: "('c, 'a) equeue \<Rightarrow> (int \<times> 'a) option option" where
  "peekEvent q = (case queueList q of [] \<Rightarrow> Some None | i # _ \<Rightarrow> map_option Some (bi_get i))"

definition takeEvent :: "('c, 'a) equeue \<Rightarrow> ((int \<times> 'a) option \<times> ('c, 'a) equeue) option" where
  "takeEvent q =
     (case queueList q of
        [] \<Rightarrow> Some (None, q)
      | i # is \<Rightarrow>
          (case (bi_get i, bi_clear i) of
             (Some x, Some c) \<Rightarrow> Some (Some x, q\<lparr>queueList := is, freeList := freeList q @ [c]\<rparr>)
           | _ \<Rightarrow> None))"

end
