(* ===== verification/Event_Process.thy ===== *)
theory Event_Process
  imports Event_Queue
begin

text \<open>
  The event queue of Event_Queue refines listeners per event and a sequence of pending
  events, also when the callbacks register and remove listeners and enqueue events.
\<close>

section \<open>Specification\<close>

type_synonym ('c, 'a) qspec = "(int \<Rightarrow> 'c entries \<times> nat) \<times> (int \<times> 'a) list"

datatype ('c, 'a) q_op = QEnqueue int 'a | QListen int "'c cl_op"

fun spec_q :: "('c, 'a) q_op \<Rightarrow> ('c, 'a) qspec \<Rightarrow> ('c, 'a) qspec" where
  "spec_q (QEnqueue e a) (L, P) = (L, P @ [(e, a)])"
| "spec_q (QListen e op) (L, P) = (L(e := spec_op op (L e)), P)"

fun q_ok :: "(int \<Rightarrow> nat \<Rightarrow> bool) \<Rightarrow> ('c, 'a) q_op \<Rightarrow> ('c, 'a) qspec \<Rightarrow> bool" where
  "q_ok kept (QEnqueue e a) st \<longleftrightarrow> True"
| "q_ok kept (QListen e op) st \<longleftrightarrow> op_ok (kept e) op (fst st e)"

fun qs_ok :: "(int \<Rightarrow> nat \<Rightarrow> bool) \<Rightarrow> ('c, 'a) q_op list \<Rightarrow> ('c, 'a) qspec \<Rightarrow> bool" where
  "qs_ok kept [] st \<longleftrightarrow> True"
| "qs_ok kept (op # ops) st \<longleftrightarrow> q_ok kept op st \<and> qs_ok kept ops (spec_q op st)"

definition q_do :: "(int \<Rightarrow> nat \<Rightarrow> bool) \<Rightarrow> ('c, 'a) q_op \<Rightarrow> ('c, 'a) equeue \<Rightarrow> ('c, 'a) equeue" where
  "q_do kept op q =
     (case op of
        QEnqueue e a \<Rightarrow> enqueue e a q
      | QListen e (Append c) \<Rightarrow> snd (appendListener e c q)
      | QListen e (Prepend c) \<Rightarrow> snd (prependListener e c q)
      | QListen e (Insert c h) \<Rightarrow> snd (insertListener kept e c h q)
      | QListen e (Remove h) \<Rightarrow> snd (removeListener kept e h q))"

text \<open>
  A queue shows listeners and pending events; buffers in the queue are full and free
  buffers are empty.
\<close>

definition q_shows :: "('c, 'a) equeue \<Rightarrow> ('c, 'a) qspec \<Rightarrow> bool" where
  "q_shows q st \<longleftrightarrow> (\<forall>e. listed (list_at e q) (fst st e))
     \<and> queueList q = map Some (snd st) \<and> set (freeList q) \<subseteq> {None}"

definition aging :: "nat \<Rightarrow> ('c, 'a) equeue \<Rightarrow> ('c, 'a) equeue \<Rightarrow> bool" where
  "aging n q q' \<longleftrightarrow> (\<forall>e. unat (cl_counter (list_at e q')) \<le> unat (cl_counter (list_at e q)) + n)
     \<and> queueEmptyCounter q' = queueEmptyCounter q \<and> queueNotifyCounter q' = queueNotifyCounter q"

definition room :: "nat \<Rightarrow> ('c, 'a) equeue \<Rightarrow> bool" where
  "room n q \<longleftrightarrow> (\<forall>e. unat (cl_counter (list_at e q)) + n < 2 ^ 32)"

lemma aging_refl [simp]: "aging n q q"
  by (simp add: aging_def)

lemma aging_trans:
  assumes "aging n q q'" and "aging m q' q''"
  shows "aging (n + m) q q''"
proof -
  have "unat (cl_counter (list_at e q'')) \<le> unat (cl_counter (list_at e q)) + (n + m)" for e
    using assms [unfolded aging_def, THEN conjunct1, rule_format, of e] by simp
  then show ?thesis using assms by (auto simp: aging_def)
qed

lemma room_aging:
  assumes "room (n + m) q" and "aging n q q'"
  shows "room m q'"
  unfolding room_def
proof
  fix e
  show "unat (cl_counter (list_at e q')) + m < 2 ^ 32"
    using assms(1) [unfolded room_def, rule_format, of e] assms(2) [unfolded aging_def, THEN conjunct1, rule_format, of e] by simp
qed

lemma room_mono: "room n q \<Longrightarrow> m \<le> n \<Longrightarrow> room m q"
  unfolding room_def by (meson add_le_cancel_left le_less_trans)

lemma room_0 [simp]: "room 0 q"
  using unsigned_less [where 'b = 32 and 'a = nat] by (simp add: room_def)

section \<open>Operations\<close>

lemma list_at_put [simp]: "list_at e' (put_list e l q) = (if e' = e then l else list_at e' q)"
  by (simp add: list_at_def put_list_def)

lemma put_list_fields [simp]:
  "queueList (put_list e l q) = queueList q" "freeList (put_list e l q) = freeList q"
  "queueEmptyCounter (put_list e l q) = queueEmptyCounter q" "queueNotifyCounter (put_list e l q) = queueNotifyCounter q"
  by (simp_all add: put_list_def)

lemma aging_put:
  assumes "aging n q (put_list e l q')" and "unat (cl_counter l') \<le> unat (cl_counter (list_at e q)) + n"
  shows "aging n q (put_list e l' q')"
proof -
  have "unat (cl_counter (list_at e' (put_list e l' q'))) \<le> unat (cl_counter (list_at e' q)) + n" for e'
    using assms(1) [unfolded aging_def, THEN conjunct1, rule_format, of e'] assms(2) by (cases "e' = e") simp_all
  then show ?thesis using assms(1) by (simp add: aging_def)
qed

lemma enqueue_fields [simp]:
  "eventCallbackListMap (enqueue e a q) = eventCallbackListMap q"
  "list_at e' (enqueue e a q) = list_at e' q"
  "queueList (enqueue e a q) = queueList q @ [Some (e, a)]"
  "freeList (enqueue e a q) = tl (freeList q)"
  "queueEmptyCounter (enqueue e a q) = queueEmptyCounter q" "queueNotifyCounter (enqueue e a q) = queueNotifyCounter q"
  by (auto simp: enqueue_def doEnqueue_def notify_one_def bi_set_def list_at_def Let_def split: list.split)

text \<open>An operation on the listeners of an event is one on its list.\<close>

lemma q_do_listen [simp]:
  "list_at e (q_do kept (QListen e op) q) = cl_do (kept e) op (list_at e q)"
  "e' \<noteq> e \<Longrightarrow> list_at e' (q_do kept (QListen e op) q) = list_at e' q"
  "queueList (q_do kept (QListen e op) q) = queueList q"
  "freeList (q_do kept (QListen e op) q) = freeList q"
  "queueEmptyCounter (q_do kept (QListen e op) q) = queueEmptyCounter q"
  "queueNotifyCounter (q_do kept (QListen e op) q) = queueNotifyCounter q"
proof -
  have no: "snd (cl_remove k h CallbackList) = CallbackList" for k h
    by (simp add: cl_remove_def lock_def CallbackList_def)
  show "list_at e (q_do kept (QListen e op) q) = cl_do (kept e) op (list_at e q)"
    by (cases op; cases "eventCallbackListMap q e")
      (auto simp: q_do_def cl_do_def appendListener_def prependListener_def insertListener_def removeListener_def
        doFindCallableList_def no list_at_def put_list_def split: prod.split)
  show "e' \<noteq> e \<Longrightarrow> list_at e' (q_do kept (QListen e op) q) = list_at e' q"
    "queueList (q_do kept (QListen e op) q) = queueList q" "freeList (q_do kept (QListen e op) q) = freeList q"
    "queueEmptyCounter (q_do kept (QListen e op) q) = queueEmptyCounter q"
    "queueNotifyCounter (q_do kept (QListen e op) q) = queueNotifyCounter q"
    by (cases op; auto simp: q_do_def appendListener_def prependListener_def insertListener_def removeListener_def
        split: prod.split option.split)+
qed

lemma q_do_refines:
  assumes "q_shows q st" and "q_ok kept op st"
  shows "q_shows (q_do kept op q) (spec_q op st)"
proof (cases op)
  case (QEnqueue e a)
  then show ?thesis using assms(1) by (cases st; cases "freeList q") (auto simp: q_shows_def q_do_def)
next
  case (QListen e o')
  show ?thesis unfolding q_shows_def
  proof (intro conjI allI)
    fix e'
    show "listed (list_at e' (q_do kept op q)) (fst (spec_q op st) e')"
      using assms QListen cbl.shown_op [of "list_at e q" "fst st e" "kept e" o']
      by (cases st; cases "e' = e") (auto simp: q_shows_def)
  qed (use assms(1) QListen in \<open>cases st; auto simp: q_shows_def\<close>)+
qed

lemma q_do_aging:
  assumes "q_shows q st" and "q_ok kept op st" and "room 1 q"
  shows "aging 1 q (q_do kept op q)"
proof (cases op)
  case (QEnqueue e a)
  then show ?thesis by (simp add: aging_def q_do_def)
next
  case (QListen e o')
  have "unat (cl_counter (list_at e' (q_do kept op q))) \<le> unat (cl_counter (list_at e' q)) + 1" for e'
    using assms QListen cbl.age_op [of "list_at e q" "fst st e" "kept e" o']
    by (cases "e' = e") (auto simp: q_shows_def room_def)
  then show ?thesis using QListen by (simp add: aging_def)
qed

lemma q_dos_refine:
  assumes "q_shows q st" and "qs_ok kept ops st" and "room (length ops) q"
  shows "q_shows (fold (q_do kept) ops q) (fold spec_q ops st)" and "aging (length ops) q (fold (q_do kept) ops q)"
proof -
  have "q_shows (fold (q_do kept) ops q) (fold spec_q ops st) \<and> aging (length ops) q (fold (q_do kept) ops q)"
    using assms
  proof (induction ops arbitrary: q st)
    case (Cons op ops)
    have a: "aging 1 q (q_do kept op q)" using q_do_aging [of q st kept op] Cons.prems room_mono [of _ q 1] by simp
    have "room (length ops) (q_do kept op q)" using room_aging [of 1 "length ops" q] a Cons.prems(3) by simp
    then show ?case
      using Cons.IH [OF q_do_refines [of q st kept op]] aging_trans [OF a] Cons.prems by fastforce
  qed simp
  then show "q_shows (fold (q_do kept) ops q) (fold spec_q ops st)" "aging (length ops) q (fold (q_do kept) ops q)"
    by simp_all
qed

section \<open>Dispatching\<close>

text \<open>
  A callback as a reaction: given the arguments and the rest of the state it performs
  operations on the queue.
\<close>

type_synonym ('c, 'a, 's) qreaction = "'c \<Rightarrow> 'a \<Rightarrow> 's \<Rightarrow> ('c, 'a) q_op list \<times> 's"

definition reacts :: "(int \<Rightarrow> nat \<Rightarrow> bool) \<Rightarrow> ('c, 'a, 's) qreaction \<Rightarrow> 'c \<Rightarrow> 'a \<Rightarrow> ('c, 'a, 's) world \<Rightarrow> ('c, 'a, 's) world" where
  "reacts kept react cb a st = (let (ops, s') = react cb a (snd st) in (fold (q_do kept) ops (fst st), s'))"

fun spec_calls :: "('c, 'a, 's) qreaction \<Rightarrow> int \<Rightarrow> 'a \<Rightarrow> 'c entries \<Rightarrow> ('c, 'a) qspec \<times> 's \<Rightarrow> ('c, 'a) qspec \<times> 's" where
  "spec_calls react e a [] st = st"
| "spec_calls react e a ((h, cb) # es) st =
     (if h \<in> fst ` set (fst (fst (fst st) e)) then
        let (ops, s') = react cb a (snd st) in spec_calls react e a es (fold spec_q ops (fst st), s')
      else spec_calls react e a es st)"

fun calls_ok :: "(int \<Rightarrow> nat \<Rightarrow> bool) \<Rightarrow> ('c, 'a, 's) qreaction \<Rightarrow> int \<Rightarrow> 'a \<Rightarrow> 'c entries \<Rightarrow> ('c, 'a) qspec \<times> 's \<Rightarrow> bool" where
  "calls_ok kept react e a [] st \<longleftrightarrow> True"
| "calls_ok kept react e a ((h, cb) # es) st \<longleftrightarrow>
     (if h \<in> fst ` set (fst (fst (fst st) e)) then
        let (ops, s') = react cb a (snd st)
        in qs_ok kept ops (fst st) \<and> calls_ok kept react e a es (fold spec_q ops (fst st), s')
      else calls_ok kept react e a es st)"

fun calls_ops :: "('c, 'a, 's) qreaction \<Rightarrow> int \<Rightarrow> 'a \<Rightarrow> 'c entries \<Rightarrow> ('c, 'a) qspec \<times> 's \<Rightarrow> nat" where
  "calls_ops react e a [] st = 0"
| "calls_ops react e a ((h, cb) # es) st =
     (if h \<in> fst ` set (fst (fst (fst st) e)) then
        let (ops, s') = react cb a (snd st) in length ops + calls_ops react e a es (fold spec_q ops (fst st), s')
      else calls_ops react e a es st)"

text \<open>The operations of a callback on the list it is called from, and the others.\<close>

fun on_event :: "int \<Rightarrow> ('c, 'a) q_op list \<Rightarrow> 'c cl_op list" where
  "on_event e [] = []"
| "on_event e (QListen e' op # ops) = (if e' = e then op # on_event e ops else on_event e ops)"
| "on_event e (QEnqueue e' a # ops) = on_event e ops"

fun off_event :: "int \<Rightarrow> ('c, 'a) q_op list \<Rightarrow> ('c, 'a) q_op list" where
  "off_event e [] = []"
| "off_event e (QListen e' op # ops) = (if e' = e then off_event e ops else QListen e' op # off_event e ops)"
| "off_event e (QEnqueue e' a # ops) = QEnqueue e' a # off_event e ops"

lemma on_event_length: "length (on_event e ops) \<le> length ops"
  by (induction e ops rule: on_event.induct) auto

lemma put_list_twice [simp]: "put_list e l (put_list e l' q) = put_list e l q"
  by (simp add: put_list_def)

lemma put_list_swap: "e \<noteq> e' \<Longrightarrow> put_list e l (put_list e' l' q) = put_list e' l' (put_list e l q)"
  by (simp add: put_list_def fun_upd_twist)

lemma enqueue_put: "enqueue e' a (put_list e l q) = put_list e l (enqueue e' a q)"
  by (simp add: enqueue_def doEnqueue_def put_list_def doCanProcess_def emptyQueue_def doCanNotifyQueueAvailable_def
      notify_one_def Let_def split: list.split)

lemma q_do_put_same: "q_do kept (QListen e op) (put_list e l q) = put_list e (cl_do (kept e) op l) q"
  by (cases op) (auto simp: q_do_def cl_do_def appendListener_def prependListener_def insertListener_def removeListener_def
      doFindCallableList_def put_list_def list_at_def split: prod.split)

lemma q_do_put_other: "e' \<noteq> e \<Longrightarrow> q_do kept (QListen e' op) (put_list e l q) = put_list e l (q_do kept (QListen e' op) q)"
  by (cases op; cases "eventCallbackListMap q e'")
    (auto simp: q_do_def appendListener_def prependListener_def insertListener_def removeListener_def
      doFindCallableList_def put_list_def list_at_def fun_upd_twist split: prod.split)

lemma q_dos_split:
  "fold (q_do kept) ops (put_list e l q) = put_list e (fold (cl_do (kept e)) (on_event e ops) l) (fold (q_do kept) (off_event e ops) q)"
proof (induction e ops arbitrary: l q rule: on_event.induct)
  case (2 e e' op ops)
  then show ?case by (cases "e' = e") (simp_all add: q_do_put_same q_do_put_other)
next
  case (3 e e' a ops)
  then show ?case by (simp add: q_do_def enqueue_put)
qed simp

lemma take_put [simp]: "take_list e (put_list e l q) = take_list e q"
  by (simp add: take_list_def put_list_def)

text \<open>The same reaction, seen from the list it is called from.\<close>

definition list_reaction :: "(int \<Rightarrow> nat \<Rightarrow> bool) \<Rightarrow> int \<Rightarrow> 'a \<Rightarrow> ('c, 'a, 's) qreaction \<Rightarrow> ('c, ('c, 'a, 's) world) reaction" where
  "list_reaction kept e a react h cb st =
     (let (ops, s') = react cb a (snd st)
      in (True, on_event e ops, take_list e (fold (q_do kept) (off_event e ops) (fst st)), s'))"

lemma in_list_reacting:
  "in_list e (\<lambda>h cb w. (True, reacts kept react cb a w)) = reacting (kept e) (list_reaction kept e a react)"
  by (intro ext) (auto simp: in_list_def reacting_def list_reaction_def reacts_def q_dos_split split: prod.split)

lemma put_take [simp]: "put_list e l (take_list e q) = put_list e l q"
  by (simp add: put_list_def take_list_def)

lemma list_at_take [simp]: "e' \<noteq> e \<Longrightarrow> list_at e' (take_list e q) = list_at e' q"
  by (simp add: list_at_def take_list_def)

lemma spec_on_event: "fst (fold spec_q ops st) e = fold spec_op (on_event e ops) (fst st e)"
proof (induction e ops arbitrary: st rule: on_event.induct)
  case (2 e e' op ops)
  then show ?case by (cases st) auto
next
  case (3 e e' a ops)
  then show ?case by (cases st) simp
qed simp

lemma ok_on_event: "qs_ok kept ops st \<Longrightarrow> ops_ok (kept e) (on_event e ops) (fst st e)"
proof (induction e ops arbitrary: st rule: on_event.induct)
  case (2 e e' op ops)
  then show ?case by (cases st) fastforce
next
  case (3 e e' a ops)
  then show ?case by (cases st) fastforce
qed simp

definition shows_off :: "int \<Rightarrow> ('c, 'a) equeue \<Rightarrow> ('c, 'a) qspec \<Rightarrow> bool" where
  "shows_off e q st \<longleftrightarrow> (\<forall>e'. e' \<noteq> e \<longrightarrow> listed (list_at e' q) (fst st e'))
     \<and> queueList q = map Some (snd st) \<and> set (freeList q) \<subseteq> {None}"

lemma shows_off_put: "listed l (fst st e) \<Longrightarrow> q_shows (put_list e l q) st \<longleftrightarrow> shows_off e q st"
  by (auto simp: q_shows_def shows_off_def)

lemma shows_off_take [simp]: "shows_off e (take_list e q) st \<longleftrightarrow> shows_off e q st"
  by (auto simp: shows_off_def) (auto simp: take_list_def)

text \<open>One callback.\<close>

lemma one_call:
  assumes s: "shows_off e q st" and l: "listed l (fst st e)" and ok: "qs_ok kept ops st"
    and r: "room (length ops) (put_list e l q)"
  shows "shows_off e (fold (q_do kept) (off_event e ops) q) (fold spec_q ops st)"
    and "listed (fold (cl_do (kept e)) (on_event e ops) l) (fst (fold spec_q ops st) e)"
    and "aging (length ops) (put_list e l q)
      (put_list e (fold (cl_do (kept e)) (on_event e ops) l) (fold (q_do kept) (off_event e ops) q))"
proof -
  have "q_shows (put_list e l q) st" using s l by (simp add: shows_off_put)
  note q = q_dos_refine [OF this ok r, unfolded q_dos_split]
  show l': "listed (fold (cl_do (kept e)) (on_event e ops) l) (fst (fold spec_q ops st) e)"
    unfolding spec_on_event using cbl.shown_ops [OF l ok_on_event [OF ok]] .
  show "shows_off e (fold (q_do kept) (off_event e ops) q) (fold spec_q ops st)"
    using q(1) shows_off_put [OF l'] by blast
  show "aging (length ops) (put_list e l q)
      (put_list e (fold (cl_do (kept e)) (on_event e ops) l) (fold (q_do kept) (off_event e ops) q))"
    using q(2) .
qed

lemma spec_each_calls:
  assumes "shows_off e q st" and "listed l (fst st e)" and "calls_ok kept react e a es (st, s)"
    and "room (calls_ops react e a es (st, s)) (put_list e l q)"
    and "spec_calls react e a es (st, s) = (st', s')"
  shows "\<exists>q'. spec_each (list_reaction kept e a react) es (fst st e, q, s) = (True, fst st' e, q', s')
     \<and> shows_off e q' st'
     \<and> each_ok (kept e) (list_reaction kept e a react) es (fst st e, q, s)
     \<and> each_ops (list_reaction kept e a react) es (fst st e, q, s) \<le> calls_ops react e a es (st, s)
     \<and> aging (calls_ops react e a es (st, s)) (put_list e l q) (put_list e l q')"
  using assms
proof (induction es arbitrary: q st l s)
  case Nil
  then show ?case by auto
next
  case (Cons x es)
  obtain h cb where x: "x = (h, cb)" by (cases x)
  show ?case
  proof (cases "h \<in> fst ` set (fst (fst st e))")
    case False
    then show ?thesis using Cons.IH [of q st l s] Cons.prems x by simp
  next
    case True
    obtain ops s1 where re: "react cb a s = (ops, s1)" by (cases "react cb a s")
    let ?q = "fold (q_do kept) (off_event e ops) q" and ?st = "fold spec_q ops st"
      and ?l = "fold (cl_do (kept e)) (on_event e ops) l" and ?n = "calls_ops react e a es (fold spec_q ops st, s1)"
    have ok: "qs_ok kept ops st" "calls_ok kept react e a es (?st, s1)"
      and rm: "room (length ops + ?n) (put_list e l q)"
      and sc: "spec_calls react e a es (?st, s1) = (st', s')"
      using Cons.prems(3-5) x True re by auto
    note oc = one_call [OF Cons.prems(1,2) ok(1) room_mono [OF rm]]
    have oc': "shows_off e (take_list e ?q) ?st" "listed ?l (fst ?st e)" "aging (length ops) (put_list e l q) (put_list e ?l ?q)"
      using oc by auto
    have rm': "room ?n (put_list e ?l (take_list e ?q))" using room_aging [OF rm oc'(3)] by simp
    obtain q' where q': "spec_each (list_reaction kept e a react) es (fst ?st e, take_list e ?q, s1) = (True, fst st' e, q', s')"
      "shows_off e q' st'" "each_ok (kept e) (list_reaction kept e a react) es (fst ?st e, take_list e ?q, s1)"
      "each_ops (list_reaction kept e a react) es (fst ?st e, take_list e ?q, s1) \<le> ?n"
      "aging ?n (put_list e ?l (take_list e ?q)) (put_list e ?l q')"
      using Cons.IH [OF oc'(1,2) ok(2) rm' sc] by blast
    have lr: "list_reaction kept e a react h cb (q, s) = (True, on_event e ops, take_list e ?q, s1)"
      by (simp add: list_reaction_def re)
    have ages: "aging (length ops + ?n) (put_list e l q) (put_list e l q')"
      using aging_put [OF aging_trans [OF oc'(3)], of ?n e ?l q' l] q'(5) by simp
    have "each_ops (list_reaction kept e a react) (x # es) (fst st e, q, s)
        = length (on_event e ops) + each_ops (list_reaction kept e a react) es (fst ?st e, take_list e ?q, s1)"
      using x True lr spec_on_event [of ops st e] by simp
    then have "each_ops (list_reaction kept e a react) (x # es) (fst st e, q, s) \<le> length ops + ?n"
      using q'(4) on_event_length [of e ops] by simp
    moreover have "calls_ops react e a (x # es) (st, s) = length ops + ?n" using x True re by simp
    moreover have "spec_each (list_reaction kept e a react) (x # es) (fst st e, q, s) = (True, fst st' e, q', s')"
      using x True lr q'(1) spec_on_event [of ops st e] by simp
    moreover have "each_ok (kept e) (list_reaction kept e a react) (x # es) (fst st e, q, s)"
      using x True lr q'(3) spec_on_event [of ops st e] ok_on_event [OF ok(1), of e] by simp
    ultimately show ?thesis using q'(2) ages by auto
  qed
qed

section \<open>Processing\<close>

definition spec_dispatch :: "('c, 'a, 's) qreaction \<Rightarrow> int \<times> 'a \<Rightarrow> ('c, 'a) qspec \<times> 's \<Rightarrow> ('c, 'a) qspec \<times> 's" where
  "spec_dispatch react x st = spec_calls react (fst x) (snd x) (fst (fst (fst st) (fst x))) st"

definition dispatch_ok :: "(int \<Rightarrow> nat \<Rightarrow> bool) \<Rightarrow> ('c, 'a, 's) qreaction \<Rightarrow> int \<times> 'a \<Rightarrow> ('c, 'a) qspec \<times> 's \<Rightarrow> bool" where
  "dispatch_ok kept react x st \<longleftrightarrow> calls_ok kept react (fst x) (snd x) (fst (fst (fst st) (fst x))) st"

definition dispatch_ops :: "('c, 'a, 's) qreaction \<Rightarrow> int \<times> 'a \<Rightarrow> ('c, 'a) qspec \<times> 's \<Rightarrow> nat" where
  "dispatch_ops react x st = calls_ops react (fst x) (snd x) (fst (fst (fst st) (fst x))) st"

lemma listed_no_nodes:
  assumes "listed l st" and "cl_alloc l = 0"
  shows "st = ([], 0)"
proof -
  obtain xs where x: "rep l xs" "view l xs = st" using assms(1) by (auto simp: listed_def)
  have "xs = []" using rep_length [OF x(1)] assms(2) by simp
  then show ?thesis using x(2) assms(2) by (auto simp: view_def entries_def)
qed

lemma directDispatch_refines:
  assumes q: "q_shows q st" and ok: "dispatch_ok kept react (e, a) (st, s)"
    and rm: "room (dispatch_ops react (e, a) (st, s)) q"
    and sp: "spec_dispatch react (e, a) (st, s) = (st', s')"
  shows "\<exists>q'. directDispatch (reacts kept react) e a (q, s) = Some (q', s') \<and> q_shows q' st'
     \<and> aging (dispatch_ops react (e, a) (st, s)) q q'"
proof (cases "eventCallbackListMap q e")
  case None
  then have "cl_alloc (list_at e q) = 0" by (simp add: list_at_def CallbackList_def)
  then have "fst (fst st e) = []" using listed_no_nodes [of "list_at e q" "fst st e"] q by (simp add: q_shows_def)
  then show ?thesis using None q sp
    by (simp add: directDispatch_def eq_forEachIf_def doFindCallableList_def spec_dispatch_def)
next
  case (Some l)
  let ?q = "take_list e q" and ?R = "list_reaction kept e a react" and ?n = "dispatch_ops react (e, a) (st, s)"
  have pq: "put_list e l ?q = q" using Some by (simp add: put_list_def take_list_def fun_upd_idem)
  have la: "list_at e q = l" using Some by (simp add: list_at_def)
  have l: "listed l (fst st e)" using q la by (auto simp: q_shows_def)
  have so: "shows_off e ?q st" using q shows_off_put [OF l, of ?q] pq by simp
  obtain q' where q': "spec_each ?R (fst (fst st e)) (fst st e, ?q, s) = (True, fst st' e, q', s')"
    "shows_off e q' st'" "each_ok (kept e) ?R (fst (fst st e)) (fst st e, ?q, s)"
    "each_ops ?R (fst (fst st e)) (fst st e, ?q, s) \<le> ?n"
    "aging ?n q (put_list e l q')"
    using spec_each_calls [OF so l, of kept react a "fst (fst st e)" s st' s'] ok rm sp pq
    unfolding dispatch_ok_def dispatch_ops_def spec_dispatch_def by auto
  have "unat (cl_counter l) + each_ops ?R (fst (fst st e)) (fst st e, ?q, s) < 2 ^ 32"
    using rm [unfolded room_def, rule_format, of e] la q'(4) by simp
  then obtain l' where l': "doForEachIf (reacting (kept e) ?R) (l, ?q, s) = Some (True, l', q', s')"
    "listed l' (fst st' e)" "unat (cl_counter l') \<le> unat (cl_counter l) + ?n"
    using listed_each [OF l q'(3)] q'(1,4) by auto
  have "directDispatch (reacts kept react) e a (q, s) = Some (put_list e l' q', s')"
    using Some l'(1) by (simp add: directDispatch_def eq_forEachIf_def doFindCallableList_def in_list_reacting)
  moreover have "q_shows (put_list e l' q') st'" using q'(2) l'(2) by (simp add: shows_off_put)
  moreover have "aging ?n q (put_list e l' q')"
    using aging_put [OF q'(5)] l'(3) la by simp
  ultimately show ?thesis by blast
qed

fun spec_if :: "('c, 'a, 's) qreaction \<Rightarrow> ('a \<Rightarrow> 's \<Rightarrow> bool) \<Rightarrow> (int \<times> 'a) list \<Rightarrow> ('c, 'a) qspec \<times> 's
    \<Rightarrow> (int \<times> 'a) list \<times> nat \<times> ('c, 'a) qspec \<times> 's" where
  "spec_if react p [] st = ([], 0, st)"
| "spec_if react p (x # xs) st =
     (if p (snd x) (snd st) then
        let (rest, n, st') = spec_if react p xs (spec_dispatch react x st) in (rest, Suc n, st')
      else let (rest, n, st') = spec_if react p xs st in (x # rest, n, st'))"

fun if_ok :: "(int \<Rightarrow> nat \<Rightarrow> bool) \<Rightarrow> ('c, 'a, 's) qreaction \<Rightarrow> ('a \<Rightarrow> 's \<Rightarrow> bool) \<Rightarrow> (int \<times> 'a) list \<Rightarrow> ('c, 'a) qspec \<times> 's \<Rightarrow> bool" where
  "if_ok kept react p [] st \<longleftrightarrow> True"
| "if_ok kept react p (x # xs) st \<longleftrightarrow>
     (if p (snd x) (snd st) then dispatch_ok kept react x st \<and> if_ok kept react p xs (spec_dispatch react x st)
      else if_ok kept react p xs st)"

fun if_ops :: "('c, 'a, 's) qreaction \<Rightarrow> ('a \<Rightarrow> 's \<Rightarrow> bool) \<Rightarrow> (int \<times> 'a) list \<Rightarrow> ('c, 'a) qspec \<times> 's \<Rightarrow> nat" where
  "if_ops react p [] st = 0"
| "if_ops react p (x # xs) st =
     (if p (snd x) (snd st) then dispatch_ops react x st + if_ops react p xs (spec_dispatch react x st)
      else if_ops react p xs st)"

lemma process_if_items_refines:
  assumes "q_shows q st" and "if_ok kept react p xs (st, s)" and "room (if_ops react p xs (st, s)) q"
    and "spec_if react p xs (st, s) = (rest, n, st', s')"
  shows "\<exists>q'. process_if_items (reacts kept react) p (map Some xs) (q, s) = Some (map Some rest, replicate n None, q', s')
     \<and> q_shows q' st' \<and> aging (if_ops react p xs (st, s)) q q'"
  using assms
proof (induction xs arbitrary: q st s rest n)
  case Nil
  then show ?case by auto
next
  case (Cons x xs)
  obtain e a where x: "x = (e, a)" by (cases x)
  show ?case
  proof (cases "p a s")
    case False
    then obtain r1 where r1: "spec_if react p xs (st, s) = (r1, n, st', s')" "rest = x # r1"
      using Cons.prems(4) x by (cases "spec_if react p xs (st, s)") auto
    then show ?thesis using Cons.IH [of q st s r1 n] Cons.prems(1-3) x False by (auto simp: bi_get_def)
  next
    case True
    obtain st1 s1 where d: "spec_dispatch react x (st, s) = (st1, s1)" by (cases "spec_dispatch react x (st, s)")
    let ?n = "dispatch_ops react x (st, s)"
    have rm: "room (?n + if_ops react p xs (st1, s1)) q" using Cons.prems(3) x True d by simp
    obtain n1 where n1: "spec_if react p xs (st1, s1) = (rest, n1, st', s')" "n = Suc n1"
      using Cons.prems(4) x True d by (cases "spec_if react p xs (st1, s1)") auto
    obtain q1 where q1: "directDispatch (reacts kept react) e a (q, s) = Some (q1, s1)" "q_shows q1 st1" "aging ?n q q1"
      using directDispatch_refines [OF Cons.prems(1), of kept react e a s st1 s1] Cons.prems(2) x True d room_mono [OF rm, of ?n] by auto
    obtain q' where "process_if_items (reacts kept react) p (map Some xs) (q1, s1) = Some (map Some rest, replicate n1 None, q', s')"
      "q_shows q' st'" "aging (if_ops react p xs (st1, s1)) q1 q'"
      using Cons.IH [OF q1(2) _ room_aging [OF rm q1(3)] n1(1)] Cons.prems(2) x True d by auto
    then show ?thesis using q1(1) x True n1(2) d aging_trans [OF q1(3)] by (simp add: bi_get_def bi_clear_def doDispatchQueuedEvent_def)
  qed
qed

text \<open>\<open>process\<close> handles every event, as \<open>processIf\<close> with a predicate that always holds.\<close>

lemma process_items_if:
  "process_items call items st = map_option snd (process_if_items call (\<lambda>_ _. True) items st)"
  by (induction items arbitrary: st)
    (auto simp: doDispatchQueuedEvent_def bi_get_def bi_clear_def option.map_comp comp_def case_prod_beta split: option.split intro!: option.map_cong)

lemma spec_if_all: "fst (spec_if react (\<lambda>_ _. True) xs st) = [] \<and> fst (snd (spec_if react (\<lambda>_ _. True) xs st)) = length xs
    \<and> snd (snd (spec_if react (\<lambda>_ _. True) xs st)) = fold (spec_dispatch react) xs st"
  by (induction xs arbitrary: st) (auto simp: Let_def case_prod_beta)

fun spec_until :: "('c, 'a, 's) qreaction \<Rightarrow> ('a \<Rightarrow> 's \<Rightarrow> bool) \<Rightarrow> (int \<times> 'a) list \<Rightarrow> ('c, 'a) qspec \<times> 's
    \<Rightarrow> (int \<times> 'a) list \<times> ('c, 'a) qspec \<times> 's" where
  "spec_until react p [] st = ([], st)"
| "spec_until react p (x # xs) st =
     (if p (snd x) (snd st) then (x # xs, st) else spec_until react p xs (spec_dispatch react x st))"

fun until_ok :: "(int \<Rightarrow> nat \<Rightarrow> bool) \<Rightarrow> ('c, 'a, 's) qreaction \<Rightarrow> ('a \<Rightarrow> 's \<Rightarrow> bool) \<Rightarrow> (int \<times> 'a) list \<Rightarrow> ('c, 'a) qspec \<times> 's \<Rightarrow> bool" where
  "until_ok kept react p [] st \<longleftrightarrow> True"
| "until_ok kept react p (x # xs) st \<longleftrightarrow>
     (p (snd x) (snd st) \<or> dispatch_ok kept react x st \<and> until_ok kept react p xs (spec_dispatch react x st))"

fun until_ops :: "('c, 'a, 's) qreaction \<Rightarrow> ('a \<Rightarrow> 's \<Rightarrow> bool) \<Rightarrow> (int \<times> 'a) list \<Rightarrow> ('c, 'a) qspec \<times> 's \<Rightarrow> nat" where
  "until_ops react p [] st = 0"
| "until_ops react p (x # xs) st =
     (if p (snd x) (snd st) then 0 else dispatch_ops react x st + until_ops react p xs (spec_dispatch react x st))"

lemma process_until_items_refines:
  assumes "q_shows q st" and "until_ok kept react p xs (st, s)" and "room (until_ops react p xs (st, s)) q"
    and "spec_until react p xs (st, s) = (rest, st', s')"
  shows "\<exists>q' n. process_until_items (reacts kept react) p (map Some xs) (q, s) = Some (map Some rest, replicate n None, q', s')
     \<and> n + length rest = length xs \<and> q_shows q' st' \<and> aging (until_ops react p xs (st, s)) q q'"
  using assms
proof (induction xs arbitrary: q st s)
  case (Cons x xs)
  obtain e a where x: "x = (e, a)" by (cases x)
  show ?case
  proof (cases "p a s")
    case True
    then show ?thesis using Cons.prems x by (auto simp: bi_get_def)
  next
    case False
    obtain st1 s1 where d: "spec_dispatch react x (st, s) = (st1, s1)" by (cases "spec_dispatch react x (st, s)")
    let ?n = "dispatch_ops react x (st, s)"
    have rm: "room (?n + until_ops react p xs (st1, s1)) q" using Cons.prems(3) x False d by simp
    obtain q1 where q1: "directDispatch (reacts kept react) e a (q, s) = Some (q1, s1)" "q_shows q1 st1" "aging ?n q q1"
      using directDispatch_refines [OF Cons.prems(1), of kept react e a s st1 s1] Cons.prems(2) x False d room_mono [OF rm, of ?n] by auto
    obtain q' n where "process_until_items (reacts kept react) p (map Some xs) (q1, s1) = Some (map Some rest, replicate n None, q', s')"
      "n + length rest = length xs" "q_shows q' st'" "aging (until_ops react p xs (st1, s1)) q1 q'"
      using Cons.IH [OF q1(2) _ room_aging [OF rm q1(3)]] Cons.prems(2,4) x False d by auto
    then show ?thesis using q1(1) x False d aging_trans [OF q1(3)]
      by (intro exI [of _ q'] exI [of _ "Suc n"]) (simp add: bi_get_def bi_clear_def doDispatchQueuedEvent_def)
  qed
qed auto

section \<open>Building a queue\<close>

lemma EventQueue_shows: "q_shows EventQueue (\<lambda>_. ([], 0), [])"
  by (simp add: q_shows_def EventQueue_def list_at_def listed_empty)

lemma EventQueue_built:
  assumes "qs_ok kept ops (\<lambda>_. ([], 0), [])" and "length ops + n < 2 ^ 32"
  shows "q_shows (fold (q_do kept) ops EventQueue) (fold spec_q ops (\<lambda>_. ([], 0), []))"
    and "room n (fold (q_do kept) ops EventQueue)"
proof -
  have r: "room (length ops + n) EventQueue"
    using assms(2) by (simp add: room_def list_at_def EventQueue_def CallbackList_def)
  note b = q_dos_refine [OF EventQueue_shows assms(1) room_mono [OF r, of "length ops"], OF le_add1]
  show "q_shows (fold (q_do kept) ops EventQueue) (fold spec_q ops (\<lambda>_. ([], 0), []))" by (rule b(1))
  show "room n (fold (q_do kept) ops EventQueue)" using room_aging [OF r b(2)] .
qed

lemma emptied_shows: "q_shows q (L, P) \<Longrightarrow> q_shows ((guard_enter q)\<lparr>queueList := []\<rparr>) (L, [])"
  by (auto simp: q_shows_def guard_enter_def list_at_def)

lemma emptied_room [simp]: "room n ((guard_enter q)\<lparr>queueList := []\<rparr>) \<longleftrightarrow> room n q"
  by (simp add: room_def guard_enter_def list_at_def)

lemma give_back_shows:
  assumes "q_shows q (L, P)"
  shows "q_shows (fst (snd (give_back (map Some rest, replicate n None, q, s)))) (L, rest @ P)"
  using assms by (auto simp: give_back_def q_shows_def guard_leave_def list_at_def)

lemma event_process_core:
  assumes q: "q_shows q (L, P)" and ok: "if_ok kept react p P ((L, []), s)"
    and rm: "room (if_ops react p P ((L, []), s)) q"
    and sp: "spec_if react p P ((L, []), s) = (rest, n, (L', P'), s')"
  shows "\<exists>q'. processIf (reacts kept react) p (q, s) = Some (0 < n, q', s') \<and> q_shows q' (L', rest @ P')
     \<and> queueEmptyCounter q' = queueEmptyCounter q"
proof (cases P)
  case Nil
  then show ?thesis using q sp by (auto simp: processIf_def q_shows_def)
next
  case (Cons x xs)
  let ?q = "(guard_enter q)\<lparr>queueList := []\<rparr>"
  obtain q1 where q1: "process_if_items (reacts kept react) p (map Some P) (?q, s) = Some (map Some rest, replicate n None, q1, s')"
    "q_shows q1 (L', P')" "aging (if_ops react p P ((L, []), s)) ?q q1"
    using process_if_items_refines [OF emptied_shows [OF q] ok _ sp] rm by auto
  have "processIf (reacts kept react) p (q, s) = Some (give_back (map Some rest, replicate n None, q1, s'))"
    using q q1(1) Cons by (simp add: processIf_def q_shows_def)
  then show ?thesis
    using give_back_shows [OF q1(2), of rest n s'] q1(3) by (auto simp: give_back_def guard_leave_def guard_enter_def aging_def)
qed

lemma process_all_core:
  assumes q: "q_shows q (L, P)" and ok: "if_ok kept react (\<lambda>_ _. True) P ((L, []), s)"
    and rm: "room (if_ops react (\<lambda>_ _. True) P ((L, []), s)) q"
    and sp: "fold (spec_dispatch react) P ((L, []), s) = ((L', P'), s')"
  shows "\<exists>q'. process (reacts kept react) (q, s) = Some (P \<noteq> [], q', s') \<and> q_shows q' (L', P')
     \<and> queueEmptyCounter q' = queueEmptyCounter q"
proof (cases P)
  case Nil
  then show ?thesis using q sp by (auto simp: process_def q_shows_def)
next
  case (Cons x xs)
  let ?q = "(guard_enter q)\<lparr>queueList := []\<rparr>"
  obtain rest n st1 where "spec_if react (\<lambda>_ _. True) P ((L, []), s) = (rest, n, st1)" by (rule prod_cases3)
  then have si: "spec_if react (\<lambda>_ _. True) P ((L, []), s) = ([], length P, (L', P'), s')"
    using spec_if_all [of react P "((L, []), s)"] sp by simp
  obtain q1 where q1: "process_if_items (reacts kept react) (\<lambda>_ _. True) (map Some P) (?q, s) = Some ([], replicate (length P) None, q1, s')"
    "q_shows q1 (L', P')" "aging (if_ops react (\<lambda>_ _. True) P ((L, []), s)) ?q q1"
    using process_if_items_refines [OF emptied_shows [OF q] ok _ si] rm by auto
  have "process (reacts kept react) (q, s) = Some (True, guard_leave (q1\<lparr>freeList := freeList q1 @ replicate (length P) None\<rparr>), s')"
    using q q1(1) Cons by (simp add: process_def q_shows_def process_items_if)
  then show ?thesis using q1(2,3) Cons
    by (auto simp: q_shows_def guard_leave_def guard_enter_def aging_def list_at_def)
qed

text \<open>
  A queue with three listeners of event 1 and one of event 2, and three pending events: a
  listener that enqueues an event, one that removes itself, one that only records.
\<close>

definition sample_ops :: "(string, int) q_op list" where
  "sample_ops = [QListen 1 (Append ''again''), QListen 1 (Append ''once''), QListen 1 (Append ''log''), QListen 2 (Append ''log''),
     QEnqueue 1 10, QEnqueue 2 20, QEnqueue 1 30]"

definition sample_queue :: "(string, int) equeue" where
  "sample_queue = fold (q_do (\<lambda>_ _. True)) sample_ops EventQueue"

definition sample_react :: "string \<Rightarrow> int \<Rightarrow> (string \<times> int) list \<Rightarrow> (string, int) q_op list \<times> (string \<times> int) list" where
  "sample_react cb a s =
     (if cb = ''again'' then [QEnqueue 2 (a + 1)] else if cb = ''once'' then [QListen 1 (Remove 1)] else [], s @ [(cb, a)])"

definition sample_listeners :: "int \<Rightarrow> string entries \<times> nat" where
  "sample_listeners = (\<lambda>_. ([], 0))(1 := ([(0, ''again''), (1, ''once''), (2, ''log'')], 3), 2 := ([(0, ''log'')], 1))"

lemma sample_queue_shows: "q_shows sample_queue (sample_listeners, [(1, 10), (2, 20), (1, 30)])"
  and sample_queue_room: "n < 100 \<Longrightarrow> room n sample_queue"
proof -
  have ok: "qs_ok (\<lambda>_ _. True) sample_ops (\<lambda>_. ([], 0), [])" by (simp add: sample_ops_def)
  have sp: "fold spec_q sample_ops (\<lambda>_. ([], 0), []) = (sample_listeners, [(1, 10), (2, 20), (1, 30)])"
    by (simp add: sample_ops_def sample_listeners_def eval_nat_numeral fun_upd_twist)
  have len: "length sample_ops = 7" by (simp add: sample_ops_def)
  show "q_shows sample_queue (sample_listeners, [(1, 10), (2, 20), (1, 30)])"
    using EventQueue_built(1) [OF ok, of 0] sp len by (simp add: sample_queue_def)
  show "n < 100 \<Longrightarrow> room n sample_queue"
    using EventQueue_built(2) [OF ok, of n] len by (simp add: sample_queue_def)
qed

lemmas sample_simps = sample_react_def sample_listeners_def dispatch_ok_def dispatch_ops_def spec_dispatch_def

lemma listed_clone:
  assumes "listed l st"
  shows "\<exists>st'. listed (cloneFrom l) st' \<and> map snd (fst st') = map snd (fst st)"
proof -
  obtain xs where x: "rep l xs" "view l xs = st" using assms by (auto simp: listed_def)
  obtain ys where y: "rep (cloneFrom l) ys"
    "map (\<lambda>a. map_option cn_callback (cl_heap (cloneFrom l) a)) ys = map (\<lambda>a. map_option cn_callback (cl_heap l a)) xs"
    using cloneFrom_rep [OF x(1)] by blast
  have cb: "map (\<lambda>a. map_option cn_callback (cl_heap k a)) zs = map Some (map snd (entries k zs))" if "rep k zs" for k :: "'a clist" and zs
    using rep_dom [OF that] by (fastforce simp: entries_def nd_def)
  have "map snd (entries (cloneFrom l) ys) = map snd (entries l xs)"
    using y(2) cb [OF y(1)] cb [OF x(1)] by (simp del: map_map)
  then show ?thesis using y(1) x(2) by (intro exI [of _ "view (cloneFrom l) ys"]) (auto simp: listed_def view_def)
qed

definition buffers :: "('c, 'a) equeue \<Rightarrow> nat" where
  "buffers q = length (queueList q) + length (freeList q)"

lemma clear_items_full: "clear_items (map Some xs) = Some (replicate (length xs) None)"
  by (induction xs) (simp_all add: clear_items_def bi_clear_def)

section \<open>Properties\<close>

text \<open>
  C7: Processing with a predicate always returns. The events pending at the start are
  looked at in their order; those that satisfy the predicate are dispatched, each to the
  listeners its event has at that moment; the others stay pending, in order, in front of
  the events enqueued by callbacks meanwhile, which are not processed in this run. The
  result says whether any event was dispatched, every buffer is where it belongs, and the
  mark that processing is in progress is taken back.\<close>

theorem event_process_if:
  assumes q: "q_shows q (L, P)" and ok: "if_ok kept react p P ((L, []), s)"
    and rm: "room (if_ops react p P ((L, []), s)) q"
    and sp: "spec_if react p P ((L, []), s) = (rest, n, (L', P'), s')"
  shows "\<exists>q'. processIf (reacts kept react) p (q, s) = Some (0 < n, q', s') \<and> q_shows q' (L', rest @ P')
     \<and> queueEmptyCounter q' = queueEmptyCounter q"
  using event_process_core [OF assms] .

theorem event_process_if_witness:
  "\<exists>q'. processIf (reacts (\<lambda>_ _. True) sample_react) (\<lambda>a _. a \<noteq> 20) (sample_queue, []) =
       Some (True, q', [(''again'', 10), (''once'', 10), (''log'', 10), (''again'', 30), (''log'', 30)])
     \<and> q_shows q' (sample_listeners(1 := ([(0, ''again''), (2, ''log'')], 3)), [(2, 20), (2, 11), (2, 31)])
     \<and> queueEmptyCounter q' = queueEmptyCounter sample_queue"
proof -
  let ?p = "\<lambda>a (_ :: (string \<times> int) list). a \<noteq> (20 :: int)" and ?P = "[(1 :: int, 10 :: int), (2, 20), (1, 30)]"
  have sp: "spec_if sample_react ?p ?P ((sample_listeners, []), []) =
     ([(2, 20)], 2, (sample_listeners(1 := ([(0, ''again''), (2, ''log'')], 3)), [(2, 11), (2, 31)]),
      [(''again'', 10), (''once'', 10), (''log'', 10), (''again'', 30), (''log'', 30)])"
    by (simp add: sample_simps)
  have ok: "if_ok (\<lambda>_ _. True) sample_react ?p ?P ((sample_listeners, []), [])" by (simp add: sample_simps)
  have "if_ops sample_react ?p ?P ((sample_listeners, []), []) = 3" by (simp add: sample_simps)
  then have "room (if_ops sample_react ?p ?P ((sample_listeners, []), [])) sample_queue" using sample_queue_room [of 3] by simp
  from event_process_if [OF sample_queue_shows ok this sp] show ?thesis by simp
qed

text \<open>
  C18: Processing the queue always returns, dispatches every event that was pending, in
  the order of enqueueing, and leaves pending exactly the events the callbacks enqueued.
  It returns whether there was an event.\<close>

theorem event_process_all:
  assumes q: "q_shows q (L, P)" and ok: "if_ok kept react (\<lambda>_ _. True) P ((L, []), s)"
    and rm: "room (if_ops react (\<lambda>_ _. True) P ((L, []), s)) q"
    and sp: "fold (spec_dispatch react) P ((L, []), s) = ((L', P'), s')"
  shows "\<exists>q'. process (reacts kept react) (q, s) = Some (P \<noteq> [], q', s') \<and> q_shows q' (L', P')
     \<and> queueEmptyCounter q' = queueEmptyCounter q"
  using process_all_core [OF assms] .

theorem event_process_all_witness:
  "\<exists>q'. process (reacts (\<lambda>_ _. True) sample_react) (sample_queue, []) =
       Some (True, q', [(''again'', 10), (''once'', 10), (''log'', 10), (''log'', 20), (''again'', 30), (''log'', 30)])
     \<and> q_shows q' (sample_listeners(1 := ([(0, ''again''), (2, ''log'')], 3)), [(2, 11), (2, 31)])
     \<and> queueEmptyCounter q' = queueEmptyCounter sample_queue"
proof -
  let ?P = "[(1 :: int, 10 :: int), (2, 20), (1, 30)]"
  have sp: "fold (spec_dispatch sample_react) ?P ((sample_listeners, []), []) =
     ((sample_listeners(1 := ([(0, ''again''), (2, ''log'')], 3)), [(2, 11), (2, 31)]),
      [(''again'', 10), (''once'', 10), (''log'', 10), (''log'', 20), (''again'', 30), (''log'', 30)])"
    by (simp add: sample_simps)
  have ok: "if_ok (\<lambda>_ _. True) sample_react (\<lambda>_ _. True) ?P ((sample_listeners, []), [])" by (simp add: sample_simps)
  have "if_ops sample_react (\<lambda>_ _. True) ?P ((sample_listeners, []), []) = 3" by (simp add: sample_simps)
  then have "room (if_ops sample_react (\<lambda>_ _. True) ?P ((sample_listeners, []), [])) sample_queue"
    using sample_queue_room [of 3] by simp
  from event_process_all [OF sample_queue_shows ok this sp] show ?thesis by simp
qed

text \<open>
  \<open>processUntil\<close> always returns: it dispatches the pending events in order up to the
  first one that satisfies the predicate, and keeps that one and the following pending.\<close>

theorem event_process_until:
  assumes q: "q_shows q (L, P)" and ok: "until_ok kept react p P ((L, []), s)"
    and rm: "room (until_ops react p P ((L, []), s)) q"
    and sp: "spec_until react p P ((L, []), s) = (rest, (L', P'), s')"
  shows "\<exists>q'. processUntil (reacts kept react) p (q, s) = Some (length rest < length P, q', s') \<and> q_shows q' (L', rest @ P')
     \<and> queueEmptyCounter q' = queueEmptyCounter q"
proof (cases P)
  case Nil
  then show ?thesis using q sp by (auto simp: processUntil_def q_shows_def)
next
  case (Cons x xs)
  let ?q = "(guard_enter q)\<lparr>queueList := []\<rparr>"
  obtain q1 n where q1: "process_until_items (reacts kept react) p (map Some P) (?q, s) = Some (map Some rest, replicate n None, q1, s')"
    "n + length rest = length P" "q_shows q1 (L', P')" "aging (until_ops react p P ((L, []), s)) ?q q1"
    using process_until_items_refines [OF emptied_shows [OF q] ok _ sp] rm by auto
  have "processUntil (reacts kept react) p (q, s) = Some (give_back (map Some rest, replicate n None, q1, s'))"
    using q q1(1) Cons by (simp add: processUntil_def q_shows_def)
  then show ?thesis
    using give_back_shows [OF q1(3), of rest n s'] q1(2,4) by (auto simp: give_back_def guard_leave_def guard_enter_def aging_def)
qed

theorem event_process_until_witness:
  "\<exists>q'. processUntil (reacts (\<lambda>_ _. True) sample_react) (\<lambda>a _. a = 20) (sample_queue, []) =
       Some (True, q', [(''again'', 10), (''once'', 10), (''log'', 10)])
     \<and> q_shows q' (sample_listeners(1 := ([(0, ''again''), (2, ''log'')], 3)), [(2, 20), (1, 30), (2, 11)])
     \<and> queueEmptyCounter q' = queueEmptyCounter sample_queue"
proof -
  let ?p = "\<lambda>a (_ :: (string \<times> int) list). a = (20 :: int)" and ?P = "[(1 :: int, 10 :: int), (2, 20), (1, 30)]"
  have sp: "spec_until sample_react ?p ?P ((sample_listeners, []), []) =
     ([(2, 20), (1, 30)], (sample_listeners(1 := ([(0, ''again''), (2, ''log'')], 3)), [(2, 11)]),
      [(''again'', 10), (''once'', 10), (''log'', 10)])"
    by (simp add: sample_simps)
  have ok: "until_ok (\<lambda>_ _. True) sample_react ?p ?P ((sample_listeners, []), [])" by (simp add: sample_simps)
  have "until_ops sample_react ?p ?P ((sample_listeners, []), []) = 2" by (simp add: sample_simps)
  then have "room (until_ops sample_react ?p ?P ((sample_listeners, []), [])) sample_queue" using sample_queue_room [of 2] by simp
  from event_process_until [OF sample_queue_shows ok this sp] show ?thesis by simp
qed

text \<open>
  C21: The queue is first in, first out and recycles its buffers: an event is enqueued
  behind the others, in a recycled buffer whenever one is free; looking at and taking an
  event give the oldest one; clearing drops all. None of them touches the listeners, uses
  an empty buffer or loses one.\<close>

theorem event_queue_fifo:
  assumes "q_shows q (L, P)"
  shows "q_shows (enqueue e a q) (L, P @ [(e, a)])
     \<and> buffers (enqueue e a q) = (if freeList q = [] then Suc (buffers q) else buffers q)
     \<and> peekEvent q = Some (case P of [] \<Rightarrow> None | x # _ \<Rightarrow> Some x)
     \<and> (\<exists>q'. takeEvent q = Some (case P of [] \<Rightarrow> None | x # _ \<Rightarrow> Some x, q') \<and> q_shows q' (L, tl P) \<and> buffers q' = buffers q)
     \<and> (\<exists>q'. clearEvents q = Some q' \<and> q_shows q' (L, []) \<and> buffers q' = buffers q)"
proof (intro conjI)
  have f: "queueList q = map Some P" "set (freeList q) \<subseteq> {None}" using assms by (simp_all add: q_shows_def)
  show "q_shows (enqueue e a q) (L, P @ [(e, a)])"
    using q_do_refines [OF assms, of undefined "QEnqueue e a"] by (simp add: q_do_def)
  show "buffers (enqueue e a q) = (if freeList q = [] then Suc (buffers q) else buffers q)"
    by (cases "freeList q") (simp_all add: buffers_def)
  show "peekEvent q = Some (case P of [] \<Rightarrow> None | x # _ \<Rightarrow> Some x)"
    using f(1) by (cases P) (simp_all add: peekEvent_def bi_get_def)
  show "\<exists>q'. takeEvent q = Some (case P of [] \<Rightarrow> None | x # _ \<Rightarrow> Some x, q') \<and> q_shows q' (L, tl P) \<and> buffers q' = buffers q"
    using assms f by (cases P) (auto simp: takeEvent_def bi_get_def bi_clear_def q_shows_def buffers_def list_at_def)
  show "\<exists>q'. clearEvents q = Some q' \<and> q_shows q' (L, []) \<and> buffers q' = buffers q"
    using assms f by (auto simp: clearEvents_def clear_items_full q_shows_def buffers_def list_at_def)
qed

theorem event_queue_fifo_witness:
  "peekEvent sample_queue = Some (Some (1, 10))
   \<and> (\<exists>q'. takeEvent sample_queue = Some (Some (1, 10), q') \<and> q_shows q' (sample_listeners, [(2, 20), (1, 30)]))
   \<and> q_shows (enqueue 7 70 sample_queue) (sample_listeners, [(1, 10), (2, 20), (1, 30), (7, 70)])
   \<and> (\<exists>q'. clearEvents sample_queue = Some q' \<and> q_shows q' (sample_listeners, []))"
  using event_queue_fifo [OF sample_queue_shows] by auto

text \<open>
  A copy of a queue has, for every event, the same callbacks in the same order, and
  no pending events.\<close>

theorem event_queue_copy:
  assumes "q_shows q (L, P)"
  shows "\<exists>L'. q_shows (copy_queue q) (L', []) \<and> (\<forall>e. map snd (fst (L' e)) = map snd (fst (L e)))"
proof -
  have "\<exists>st. listed (list_at e (copy_queue q)) st \<and> map snd (fst st) = map snd (fst (L e))" for e
  proof (cases "eventCallbackListMap q e")
    case None
    then have "cl_alloc (list_at e q) = 0" by (simp add: list_at_def CallbackList_def)
    then have "fst (L e) = []" using assms listed_no_nodes [of "list_at e q" "L e"] by (simp add: q_shows_def)
    then show ?thesis using None listed_empty by (auto simp: list_at_def copy_queue_def)
  next
    case (Some l)
    then have "listed l (L e)" using assms by (auto simp: q_shows_def list_at_def dest: spec [of _ e])
    from listed_clone [OF this] show ?thesis using Some by (auto simp: list_at_def copy_queue_def)
  qed
  then obtain L' where "\<And>e. listed (list_at e (copy_queue q)) (L' e) \<and> map snd (fst (L' e)) = map snd (fst (L e))" by metis
  then show ?thesis by (intro exI [of _ L']) (auto simp: q_shows_def copy_queue_def EventQueue_def)
qed

theorem event_queue_copy_witness:
  "\<exists>L'. q_shows (copy_queue sample_queue) (L', []) \<and> map snd (fst (L' 1)) = [''again'', ''once'', ''log'']"
  using event_queue_copy [OF sample_queue_shows] by (auto simp: sample_listeners_def)

end
