(* ===== verification/Session.thy ===== *)
theory Session
  imports Event_Process Hex_Dump "HOL-Library.Sublist"
begin

text \<open>
  can_agent/server: canobj\_queue\_type.h, session.h and session.cc. A session serves one
  connected client: as a listener of the event queue it puts every published line into its
  own bounded queue, and on the I/O thread it moves lines from there to the socket.

  boost::lockfree::spsc\_queue is not part of the sources: its operations are the fields
  of \<open>'q spsc\<close>, and \<open>spsc_ok\<close> states what its documentation promises. The socket and
  the timer appear as the completions they deliver: \<open>handleWrite\<close> with an error code and
  the number of bytes transferred, and the timer's call of \<open>doCanObjTranspose\<close>. A write of a
  \<open>streambuf\<close> takes what it has written out of the buffer by itself, before it calls its
  handler, as the documentation of asio says; the handler then consumes the same number of
  bytes once more. After a successful write, which empties the buffer, that does nothing.
\<close>

section \<open>Queue nodes\<close>

definition kCanobjCapacity :: nat where "kCanobjCapacity = 256"

record CanobjQueueNodeT =
  node_bytes :: string     \<comment> \<open>\<open>can_obj_\<close>, 256 bytes\<close>
  node_len :: nat          \<comment> \<open>\<open>len_\<close>\<close>

text \<open>\<open>operator<<\<close> of a node writes \<open>len_\<close> bytes.\<close>

definition print_node :: "CanobjQueueNodeT \<Rightarrow> string res" where
  "print_node node = (if node_len node \<le> length (node_bytes node) then Inr (take (node_len node) (node_bytes node)) else Inl Read_Overrun)"

text \<open>
  \<open>os << node.can_obj_\<close> is the \<open>operator<<\<close> of the standard library for \<open>const unsigned char*\<close>: it writes
  the C string that starts the array.
\<close>

definition print_can_obj :: "CanobjQueueNodeT \<Rightarrow> string res" where
  "print_can_obj node = (if NUL \<in> set (node_bytes node) then Inr (cstr (node_bytes node)) else Inl Read_Overrun)"

definition kPpqCanObjEvtId :: int where "kPpqCanObjEvtId = 1"

section \<open>The bounded queue of a session\<close>

record 'q spsc =
  sp_empty :: 'q
  sp_push :: "CanobjQueueNodeT \<Rightarrow> 'q \<Rightarrow> bool \<times> 'q"
  sp_pop :: "'q \<Rightarrow> (CanobjQueueNodeT \<times> 'q) option"

definition spsc_ok :: "'q spsc \<Rightarrow> ('q \<Rightarrow> CanobjQueueNodeT list) \<Rightarrow> nat \<Rightarrow> bool" where
  "spsc_ok B contents cap \<longleftrightarrow>
     contents (sp_empty B) = []
     \<and> (\<forall>x q. length (contents q) < cap \<longrightarrow> fst (sp_push B x q) \<and> contents (snd (sp_push B x q)) = contents q @ [x])
     \<and> (\<forall>x q. cap \<le> length (contents q) \<longrightarrow> \<not> fst (sp_push B x q) \<and> contents (snd (sp_push B x q)) = contents q)
     \<and> (\<forall>q. contents q = [] \<longrightarrow> sp_pop B q = None)
     \<and> (\<forall>q x xs. contents q = x # xs \<longrightarrow> (\<exists>q'. sp_pop B q = Some (x, q') \<and> contents q' = xs))"

section \<open>Sessions\<close>

text \<open>What the session has outstanding: a write, the timer, or nothing (it has ended).\<close>

datatype outstanding = Nothing | Writing | Waiting

record 'q session =
  spsc_queue :: 'q
  shr_tx_buff :: string
  ppq_handle :: "nat option"
  outstanding :: outstanding
  delivered :: string       \<comment> \<open>the bytes the socket has taken\<close>
  dropped :: nat            \<comment> \<open>pushes that failed\<close>

definition Session :: "'q spsc \<Rightarrow> 'q session" where
  "Session B = \<lparr>spsc_queue = sp_empty B, shr_tx_buff = [], ppq_handle = None, outstanding = Nothing, delivered = [], dropped = 0\<rparr>"

definition consumeCanObjHandler :: "'q spsc \<Rightarrow> CanobjQueueNodeT \<Rightarrow> 'q session \<Rightarrow> 'q session" where
  "consumeCanObjHandler B node s =
     (let (ok, q) = sp_push B node (spsc_queue s)
      in if ok then s\<lparr>spsc_queue := q\<rparr> else s\<lparr>spsc_queue := q, dropped := Suc (dropped s)\<rparr>)"

text \<open>Up to eight lines are moved into the transmit buffer.\<close>

fun transpose_loop :: "'q spsc \<Rightarrow> nat \<Rightarrow> 'q session \<Rightarrow> 'q session res" where
  "transpose_loop B 0 s = Inr s"
| "transpose_loop B (Suc n) s =
     (case sp_pop B (spsc_queue s) of
        None \<Rightarrow> Inr s
      | Some (node, q) \<Rightarrow>
          and_then (print_can_obj node) (\<lambda>line.
            transpose_loop B n (s\<lparr>spsc_queue := q, shr_tx_buff := shr_tx_buff s @ line\<rparr>)))"

definition writeMessage :: "'q session \<Rightarrow> 'q session" where
  "writeMessage s = s\<lparr>outstanding := Writing\<rparr>"

definition doCanObjTranspose :: "'q spsc \<Rightarrow> 'q session \<Rightarrow> 'q session res" where
  "doCanObjTranspose B s =
     and_then (transpose_loop B 8 s) (\<lambda>s1.
       if shr_tx_buff s1 \<noteq> [] then Inr (writeMessage s1) else Inr (s1\<lparr>outstanding := Waiting\<rparr>))"

text \<open>
  The listener of a session is named by its id. \<open>use_count\<close> of the handle is positive
  while the node is referenced.
\<close>

type_synonym lines_queue = "(nat, CanobjQueueNodeT) equeue"

definition disconnectToEventqq :: "(int \<Rightarrow> nat \<Rightarrow> bool) \<Rightarrow> 'q session \<Rightarrow> lines_queue \<Rightarrow> lines_queue" where
  "disconnectToEventqq kept s q =
     (case ppq_handle s of
        None \<Rightarrow> q
      | Some h \<Rightarrow>
          if lock (kept kPpqCanObjEvtId) (list_at kPpqCanObjEvtId q) h
          then snd (removeListener kept kPpqCanObjEvtId h q) else q)"

definition ses_start :: "'q spsc \<Rightarrow> nat \<Rightarrow> 'q session \<times> lines_queue \<Rightarrow> ('q session \<times> lines_queue) res" where
  "ses_start B sid st =
     (let (s, q) = st; (h, q') = appendListener kPpqCanObjEvtId sid q
      in and_then (doCanObjTranspose B (s\<lparr>ppq_handle := Some h\<rparr>)) (\<lambda>s'. Inr (s', q')))"

text \<open>
  What the completion of \<open>async_write\<close> on a \<open>streambuf\<close> does before it calls the handler, as
  Boost.Asio documents it: \<open>n\<close> bytes have gone to the socket and are consumed from the buffer.
\<close>

definition async_write_done :: "nat \<Rightarrow> 'q session \<Rightarrow> 'q session" where
  "async_write_done n s = s\<lparr>shr_tx_buff := drop n (shr_tx_buff s), delivered := delivered s @ take n (shr_tx_buff s)\<rparr>"

definition handleWrite :: "'q spsc \<Rightarrow> (int \<Rightarrow> nat \<Rightarrow> bool) \<Rightarrow> bool \<Rightarrow> nat \<Rightarrow> 'q session \<times> lines_queue \<Rightarrow> ('q session \<times> lines_queue) res" where
  "handleWrite B kept ec bytesTransfered st =
     (let (s, q) = st; s1 = s\<lparr>shr_tx_buff := drop bytesTransfered (shr_tx_buff s)\<rparr>
      in if ec then Inr (s1\<lparr>outstanding := Nothing\<rparr>, disconnectToEventqq kept s1 q)
         else and_then (doCanObjTranspose B s1) (\<lambda>s'. Inr (s', q)))"

definition ses_destroy :: "(int \<Rightarrow> nat \<Rightarrow> bool) \<Rightarrow> 'q session \<times> lines_queue \<Rightarrow> lines_queue" where
  "ses_destroy kept st = disconnectToEventqq kept (fst st) (snd st)"

section \<open>Runs of one session\<close>

text \<open>
  What happens to a started session: a line is published to it, the timer expires, a write
  completes. asio completes a write with success only when the whole buffer has been
  written, and with an error after some part of it.
\<close>

datatype ses_event = Published CanobjQueueNodeT | Timer | Wrote | Write_Error nat

fun ses_step :: "'q spsc \<Rightarrow> (int \<Rightarrow> nat \<Rightarrow> bool) \<Rightarrow> ses_event \<Rightarrow> 'q session \<times> lines_queue \<Rightarrow> ('q session \<times> lines_queue) res" where
  "ses_step B kept (Published node) (s, q) = Inr (consumeCanObjHandler B node s, q)"
| "ses_step B kept Timer (s, q) = and_then (doCanObjTranspose B s) (\<lambda>s'. Inr (s', q))"
| "ses_step B kept Wrote (s, q) =
     (let n = length (shr_tx_buff s) in handleWrite B kept False n (async_write_done n s, q))"
| "ses_step B kept (Write_Error n) (s, q) = handleWrite B kept True n (async_write_done n s, q)"

fun ses_run :: "'q spsc \<Rightarrow> (int \<Rightarrow> nat \<Rightarrow> bool) \<Rightarrow> ses_event list \<Rightarrow> 'q session \<times> lines_queue \<Rightarrow> ('q session \<times> lines_queue) res" where
  "ses_run B kept [] st = Inr st"
| "ses_run B kept (ev # evs) st = and_then (ses_step B kept ev st) (ses_run B kept evs)"

text \<open>Completions come for what is outstanding.\<close>

fun ses_enabled :: "ses_event \<Rightarrow> 'q session \<Rightarrow> bool" where
  "ses_enabled (Published node) s \<longleftrightarrow> True"
| "ses_enabled Timer s \<longleftrightarrow> outstanding s = Waiting"
| "ses_enabled Wrote s \<longleftrightarrow> outstanding s = Writing"
| "ses_enabled (Write_Error n) s \<longleftrightarrow> outstanding s = Writing \<and> n \<le> length (shr_tx_buff s)"

fun ses_schedule :: "'q spsc \<Rightarrow> (int \<Rightarrow> nat \<Rightarrow> bool) \<Rightarrow> ses_event list \<Rightarrow> 'q session \<times> lines_queue \<Rightarrow> bool" where
  "ses_schedule B kept [] st \<longleftrightarrow> True"
| "ses_schedule B kept (ev # evs) st \<longleftrightarrow> ses_enabled ev (fst st)
     \<and> (case ses_step B kept ev st of Inl _ \<Rightarrow> True | Inr st' \<Rightarrow> ses_schedule B kept evs st')"

section \<open>Lines on their way\<close>

definition node_line :: "CanobjQueueNodeT \<Rightarrow> string" where
  "node_line node = cstr (node_bytes node)"

definition wf_node :: "CanobjQueueNodeT \<Rightarrow> bool" where
  "wf_node node \<longleftrightarrow> NUL \<in> set (node_bytes node)"

fun published :: "ses_event list \<Rightarrow> CanobjQueueNodeT list" where
  "published [] = []"
| "published (Published node # evs) = node # published evs"
| "published (_ # evs) = published evs"

text \<open>The published lines that found room in the queue of the session.\<close>

fun accepted :: "'q spsc \<Rightarrow> (int \<Rightarrow> nat \<Rightarrow> bool) \<Rightarrow> ses_event list \<Rightarrow> 'q session \<times> lines_queue \<Rightarrow> CanobjQueueNodeT list" where
  "accepted B kept [] st = []"
| "accepted B kept (ev # evs) st =
     (case ev of Published node \<Rightarrow> if fst (sp_push B node (spsc_queue (fst st))) then [node] else [] | _ \<Rightarrow> [])
     @ (case ses_step B kept ev st of Inl _ \<Rightarrow> [] | Inr st' \<Rightarrow> accepted B kept evs st')"

definition on_its_way :: "('q \<Rightarrow> CanobjQueueNodeT list) \<Rightarrow> 'q session \<Rightarrow> string" where
  "on_its_way contents s = delivered s @ shr_tx_buff s @ concat (map node_line (contents (spsc_queue s)))"

lemma spsc_pushes:
  assumes "spsc_ok B contents cap"
  shows "contents (snd (sp_push B x q)) = (if length (contents q) < cap then contents q @ [x] else contents q)"
    and "fst (sp_push B x q) \<longleftrightarrow> length (contents q) < cap"
  using assms by (cases "length (contents q) < cap"; simp add: spsc_ok_def not_less)+

lemma spsc_pops:
  assumes "spsc_ok B contents cap"
  shows "contents q = [] \<Longrightarrow> sp_pop B q = None"
    and "contents q = x # xs \<Longrightarrow> \<exists>q'. sp_pop B q = Some (x, q') \<and> contents q' = xs"
  using assms by (simp_all add: spsc_ok_def)

lemma transpose_moves:
  assumes "spsc_ok B contents cap" and "list_all wf_node (contents (spsc_queue s))"
  shows "\<exists>q. transpose_loop B n s =
       Inr (s\<lparr>spsc_queue := q, shr_tx_buff := shr_tx_buff s @ concat (map node_line (take n (contents (spsc_queue s))))\<rparr>)
     \<and> contents q = drop n (contents (spsc_queue s))"
  using assms(2)
proof (induction n arbitrary: s)
  case 0
  then show ?case by (intro exI [of _ "spsc_queue s"]) simp
next
  case (Suc n)
  show ?case
  proof (cases "contents (spsc_queue s)")
    case Nil
    then show ?thesis using spsc_pops(1) [OF assms(1) Nil] by (intro exI [of _ "spsc_queue s"]) simp
  next
    case (Cons x xs)
    then obtain q where q: "sp_pop B (spsc_queue s) = Some (x, q)" "contents q = xs" using spsc_pops(2) [OF assms(1)] by blast
    have x: "print_can_obj x = Inr (node_line x)" using Suc.prems Cons by (simp add: print_can_obj_def wf_node_def node_line_def)
    from Suc.IH [of "s\<lparr>spsc_queue := q, shr_tx_buff := shr_tx_buff s @ node_line x\<rparr>"] Suc.prems Cons q x
    show ?thesis by simp
  qed
qed

text \<open>
  The state of a running session: a write is outstanding exactly while the transmit buffer
  holds something.
\<close>

definition ses_inv :: "('q \<Rightarrow> CanobjQueueNodeT list) \<Rightarrow> 'q session \<Rightarrow> bool" where
  "ses_inv contents s \<longleftrightarrow> list_all wf_node (contents (spsc_queue s))
     \<and> (outstanding s = Writing \<longrightarrow> shr_tx_buff s \<noteq> []) \<and> (outstanding s = Waiting \<longrightarrow> shr_tx_buff s = [])"

lemma doCanObjTranspose_ok:
  assumes "spsc_ok B contents cap" and "list_all wf_node (contents (spsc_queue s))"
  shows "\<exists>s'. doCanObjTranspose B s = Inr s' \<and> ses_inv contents s' \<and> outstanding s' \<noteq> Nothing
     \<and> on_its_way contents s' = on_its_way contents s \<and> dropped s' = dropped s \<and> ppq_handle s' = ppq_handle s
     \<and> delivered s' = delivered s \<and> contents (spsc_queue s') = drop 8 (contents (spsc_queue s))"
proof -
  obtain q where q: "transpose_loop B 8 s =
       Inr (s\<lparr>spsc_queue := q, shr_tx_buff := shr_tx_buff s @ concat (map node_line (take 8 (contents (spsc_queue s))))\<rparr>)"
    "contents q = drop 8 (contents (spsc_queue s))" using transpose_moves [OF assms] by blast
  have w: "list_all wf_node (contents q)" using assms(2) q(2) by (auto simp: list_all_iff dest: in_set_dropD)
  have "concat (map node_line (contents (spsc_queue s))) = concat (map node_line (take 8 (contents (spsc_queue s)))) @ concat (map node_line (contents q))"
    unfolding q(2) by (metis append_take_drop_id concat_append map_append)
  then show ?thesis using q w
    by (simp add: doCanObjTranspose_def writeMessage_def ses_inv_def on_its_way_def)
qed

text \<open>A successful write empties the buffer; a failed one ends the session.\<close>

lemma wrote_step:
  "ses_step B kept Wrote (s, q) =
     and_then (doCanObjTranspose B (s\<lparr>delivered := delivered s @ shr_tx_buff s, shr_tx_buff := []\<rparr>)) (\<lambda>s'. Inr (s', q))"
  by (simp add: handleWrite_def async_write_done_def Let_def)

lemma error_step:
  "ses_step B kept (Write_Error n) (s, q) =
     Inr (s\<lparr>shr_tx_buff := drop (n + n) (shr_tx_buff s), delivered := delivered s @ take n (shr_tx_buff s), outstanding := Nothing\<rparr>,
       disconnectToEventqq kept s q)"
  by (simp add: handleWrite_def async_write_done_def disconnectToEventqq_def Let_def)

lemma accepted_none: "published [ev] = [] \<Longrightarrow> accepted B kept [ev] st = []"
  by (cases ev) (auto split: sum.split)

lemma ses_step_ok:
  assumes B: "spsc_ok B contents 2048" and i: "ses_inv contents s" and en: "ses_enabled ev s"
    and wf: "list_all wf_node (published [ev])"
  shows "\<exists>s' q'. ses_step B kept ev (s, q) = Inr (s', q') \<and> ses_inv contents s'
     \<and> ((\<forall>n. ev \<noteq> Write_Error n) \<longrightarrow>
          on_its_way contents s' = on_its_way contents s @ concat (map node_line (accepted B kept [ev] (s, q))))
     \<and> prefix (delivered s') (on_its_way contents s) \<and> (outstanding s = Nothing \<longrightarrow> delivered s' = delivered s)
     \<and> dropped s + length (published [ev]) = dropped s' + length (accepted B kept [ev] (s, q))
     \<and> subseq (accepted B kept [ev] (s, q)) (published [ev])
     \<and> (outstanding s' = Nothing \<longleftrightarrow> outstanding s = Nothing \<or> (\<exists>n. ev = Write_Error n))"
proof (cases ev)
  case (Published node)
  obtain ok q1 where p: "sp_push B node (spsc_queue s) = (ok, q1)" by fastforce
  have "ok \<longleftrightarrow> length (contents (spsc_queue s)) < 2048"
    "contents q1 = (if ok then contents (spsc_queue s) @ [node] else contents (spsc_queue s))"
    using spsc_pushes [OF B, of node "spsc_queue s"] p by auto
  then show ?thesis using i wf Published p
    by (auto simp: consumeCanObjHandler_def ses_inv_def on_its_way_def)
next
  case Timer
  then show ?thesis using doCanObjTranspose_ok [OF B, of s] i en by (auto simp: ses_inv_def on_its_way_def)
next
  case Wrote
  let ?s = "s\<lparr>delivered := delivered s @ shr_tx_buff s, shr_tx_buff := []\<rparr>"
  have "on_its_way contents ?s = on_its_way contents s" by (simp add: on_its_way_def)
  then show ?thesis using doCanObjTranspose_ok [OF B, of ?s] i en unfolding Wrote wrote_step
    by (auto simp: ses_inv_def on_its_way_def accepted_none simp del: ses_step.simps accepted.simps)
next
  case (Write_Error n)
  have "prefix (take n (shr_tx_buff s)) (shr_tx_buff s @ concat (map node_line (contents (spsc_queue s))))"
    by (metis append_assoc append_take_drop_id prefixI)
  then show ?thesis using i en unfolding Write_Error error_step
    by (auto simp: ses_inv_def on_its_way_def accepted_none simp del: ses_step.simps accepted.simps)
qed

lemma accepted_split:
  assumes "ses_step B kept ev st = Inr st'"
  shows "accepted B kept (ev # evs) st = accepted B kept [ev] st @ accepted B kept evs st'"
  using assms by simp

lemma published_split: "published (ev # evs) = published [ev] @ published evs"
  by (cases ev) auto

lemma ses_run_ok:
  assumes B: "spsc_ok B contents 2048" and i: "ses_inv contents s" and sc: "ses_schedule B kept evs (s, q)"
    and wf: "list_all wf_node (published evs)"
  shows "\<exists>s' q'. ses_run B kept evs (s, q) = Inr (s', q') \<and> ses_inv contents s'
     \<and> ((\<forall>n. Write_Error n \<notin> set evs) \<longrightarrow>
          on_its_way contents s' = on_its_way contents s @ concat (map node_line (accepted B kept evs (s, q))))
     \<and> prefix (delivered s') (on_its_way contents s @ concat (map node_line (accepted B kept evs (s, q))))
     \<and> (outstanding s = Nothing \<longrightarrow> delivered s' = delivered s)
     \<and> dropped s + length (published evs) = dropped s' + length (accepted B kept evs (s, q))
     \<and> subseq (accepted B kept evs (s, q)) (published evs)
     \<and> (outstanding s' = Nothing \<longleftrightarrow> outstanding s = Nothing \<or> (\<exists>n. Write_Error n \<in> set evs))"
  using i sc wf
proof (induction evs arbitrary: s q)
  case (Cons ev evs)
  have wf: "list_all wf_node (published [ev])" "list_all wf_node (published evs)"
    using Cons.prems(3) published_split [of ev evs] by simp_all
  have en: "ses_enabled ev s" using Cons.prems(2) by simp
  obtain s1 q1 where s1: "ses_step B kept ev (s, q) = Inr (s1, q1)" "ses_inv contents s1"
    "(\<forall>n. ev \<noteq> Write_Error n) \<longrightarrow>
       on_its_way contents s1 = on_its_way contents s @ concat (map node_line (accepted B kept [ev] (s, q)))"
    "prefix (delivered s1) (on_its_way contents s)" "outstanding s = Nothing \<longrightarrow> delivered s1 = delivered s"
    "dropped s + length (published [ev]) = dropped s1 + length (accepted B kept [ev] (s, q))"
    "subseq (accepted B kept [ev] (s, q)) (published [ev])"
    "outstanding s1 = Nothing \<longleftrightarrow> outstanding s = Nothing \<or> (\<exists>n. ev = Write_Error n)"
    using ses_step_ok [OF B Cons.prems(1) en wf(1), of kept q] by blast
  obtain s' q' where s': "ses_run B kept evs (s1, q1) = Inr (s', q')" "ses_inv contents s'"
    "(\<forall>n. Write_Error n \<notin> set evs) \<longrightarrow>
       on_its_way contents s' = on_its_way contents s1 @ concat (map node_line (accepted B kept evs (s1, q1)))"
    "prefix (delivered s') (on_its_way contents s1 @ concat (map node_line (accepted B kept evs (s1, q1))))"
    "outstanding s1 = Nothing \<longrightarrow> delivered s' = delivered s1"
    "dropped s1 + length (published evs) = dropped s' + length (accepted B kept evs (s1, q1))"
    "subseq (accepted B kept evs (s1, q1)) (published evs)"
    "outstanding s' = Nothing \<longleftrightarrow> outstanding s1 = Nothing \<or> (\<exists>n. Write_Error n \<in> set evs)"
    using Cons.IH [OF s1(2) _ wf(2), of q1] Cons.prems(2) s1(1) by auto
  note a = accepted_split [OF s1(1), of evs] and p = published_split [of ev evs]
  show ?case
  proof (intro exI conjI)
    show "ses_run B kept (ev # evs) (s, q) = Inr (s', q')" using s1(1) s'(1) by simp
    show "(\<forall>n. Write_Error n \<notin> set (ev # evs)) \<longrightarrow>
        on_its_way contents s' = on_its_way contents s @ concat (map node_line (accepted B kept (ev # evs) (s, q)))"
      unfolding a using s1(3) s'(3) by auto
    show "prefix (delivered s') (on_its_way contents s @ concat (map node_line (accepted B kept (ev # evs) (s, q))))"
      unfolding a using s1(3,4,8) s'(4,5) by (cases "\<exists>n. ev = Write_Error n") (auto intro: prefix_prefix)
    show "dropped s + length (published (ev # evs)) = dropped s' + length (accepted B kept (ev # evs) (s, q))"
      unfolding a p using s1(6) s'(6) by simp
    show "subseq (accepted B kept (ev # evs) (s, q)) (published (ev # evs))"
      unfolding a p using s1(7) s'(7) by (rule list_emb_append_mono)
  qed (use s1(5,8) s'(2,5,8) in auto)
qed (auto simp: on_its_way_def)

section \<open>Draining a session\<close>

text \<open>How many completions a session needs until the client has everything.\<close>

definition need :: "('q \<Rightarrow> CanobjQueueNodeT list) \<Rightarrow> 'q session \<Rightarrow> nat" where
  "need contents s =
     (if outstanding s = Waiting \<and> contents (spsc_queue s) = [] then 0 else Suc ((length (contents (spsc_queue s)) + 7) div 8))"

lemma need_pred: "need contents s - 1 = (length (contents (spsc_queue s)) + 7) div 8"
  by (simp add: need_def)

lemma transposed:
  assumes "spsc_ok B contents cap" and "list_all wf_node (contents (spsc_queue s))" and "shr_tx_buff s = []"
  shows "\<exists>s'. doCanObjTranspose B s = Inr s' \<and> ses_inv contents s' \<and> outstanding s' \<noteq> Nothing
     \<and> on_its_way contents s' = on_its_way contents s \<and> need contents s' \<le> (length (contents (spsc_queue s)) + 7) div 8"
proof -
  obtain s' where s': "doCanObjTranspose B s = Inr s'" "ses_inv contents s'" "outstanding s' \<noteq> Nothing"
    "on_its_way contents s' = on_its_way contents s" "delivered s' = delivered s"
    "contents (spsc_queue s') = drop 8 (contents (spsc_queue s))"
    using doCanObjTranspose_ok [OF assms(1,2)] by blast
  have "need contents s' \<le> (length (contents (spsc_queue s)) + 7) div 8"
  proof (cases "contents (spsc_queue s)")
    case Nil
    then have "shr_tx_buff s' = []" using s'(4-6) assms(3) by (simp add: on_its_way_def)
    then have "outstanding s' = Waiting" using s'(2,3) by (cases "outstanding s'") (auto simp: ses_inv_def)
    then show ?thesis using Nil s'(6) by (simp add: need_def)
  next
    case (Cons x xs)
    have "Suc ((length xs - 7 + 7) div 8) \<le> (8 + length xs) div 8" by (cases "7 \<le> length xs") auto
    then show ?thesis using Cons s'(6) by (auto simp: need_def)
  qed
  then show ?thesis using s' by blast
qed

lemma drain_step:
  assumes B: "spsc_ok B contents cap" and i: "ses_inv contents s" "outstanding s \<noteq> Nothing" and en: "ses_enabled ev s"
    and ev: "ev = Timer \<or> ev = Wrote"
  shows "\<exists>s'. ses_step B kept ev (s, q) = Inr (s', q) \<and> ses_inv contents s' \<and> outstanding s' \<noteq> Nothing
     \<and> on_its_way contents s' = on_its_way contents s \<and> need contents s' \<le> need contents s - 1"
proof -
  let ?s = "s\<lparr>delivered := delivered s @ shr_tx_buff s, shr_tx_buff := []\<rparr>"
  have w: "on_its_way contents ?s = on_its_way contents s" by (simp add: on_its_way_def)
  have wf: "list_all wf_node (contents (spsc_queue s))" using i(1) by (simp add: ses_inv_def)
  show ?thesis unfolding need_pred
  proof (cases "outstanding s = Waiting")
    case True
    then have "ev = Timer" "shr_tx_buff s = []" using ev en i by (auto simp: ses_inv_def)
    then show "\<exists>s'. ses_step B kept ev (s, q) = Inr (s', q) \<and> ses_inv contents s' \<and> outstanding s' \<noteq> Nothing
       \<and> on_its_way contents s' = on_its_way contents s \<and> need contents s' \<le> (length (contents (spsc_queue s)) + 7) div 8"
      using transposed [OF B wf] by auto
  next
    case False
    then have "ev = Wrote" using ev en by auto
    then show "\<exists>s'. ses_step B kept ev (s, q) = Inr (s', q) \<and> ses_inv contents s' \<and> outstanding s' \<noteq> Nothing
       \<and> on_its_way contents s' = on_its_way contents s \<and> need contents s' \<le> (length (contents (spsc_queue s)) + 7) div 8"
      using transposed [OF B, of ?s] wf w unfolding \<open>ev = Wrote\<close> wrote_step by auto
  qed
qed

lemma drain_run:
  assumes B: "spsc_ok B contents cap" and "ses_inv contents s" "outstanding s \<noteq> Nothing" and "ses_schedule B kept evs (s, q)"
    and "set evs \<subseteq> {Timer, Wrote}"
  shows "\<exists>s'. ses_run B kept evs (s, q) = Inr (s', q) \<and> ses_inv contents s' \<and> outstanding s' \<noteq> Nothing
     \<and> on_its_way contents s' = on_its_way contents s \<and> need contents s' \<le> need contents s - length evs"
  using assms(2-5)
proof (induction evs arbitrary: s)
  case (Cons ev evs)
  then obtain s1 where s1: "ses_step B kept ev (s, q) = Inr (s1, q)" "ses_inv contents s1" "outstanding s1 \<noteq> Nothing"
     "on_its_way contents s1 = on_its_way contents s" "need contents s1 \<le> need contents s - 1"
    using drain_step [OF B, of s ev kept q] by auto
  with Cons.IH [of s1] Cons.prems(3,4) show ?case by fastforce
qed simp

lemma drained: "ses_inv contents s \<Longrightarrow> outstanding s \<noteq> Nothing \<Longrightarrow> need contents s = 0 \<Longrightarrow> delivered s = on_its_way contents s"
  by (auto simp: need_def ses_inv_def on_its_way_def split: if_splits)

section \<open>Properties\<close>

text \<open>A queue with the documented behaviour.\<close>

definition list_spsc :: "CanobjQueueNodeT list spsc" where
  "list_spsc = \<lparr>sp_empty = [],
     sp_push = (\<lambda>x q. if length q < 2048 then (True, q @ [x]) else (False, q)),
     sp_pop = (\<lambda>q. case q of [] \<Rightarrow> None | x # xs \<Rightarrow> Some (x, xs))\<rparr>"

lemma list_spsc_ok: "spsc_ok list_spsc (\<lambda>q. q) 2048"
  by (auto simp: spsc_ok_def list_spsc_def)

text \<open>
  C4: A session never tears, reorders, repeats or invents lines. Under every schedule of
  publications, timer expirations and write completions it runs without fault. Until a
  write fails, the bytes the client has got, followed by the transmit buffer and the waiting
  lines, are exactly what was there before and the lines accepted since, in the order of
  publication; after a failed write the client still has got a prefix of that. A line is
  refused only because the queue is full, and every refusal is counted. The session has a
  write or the timer outstanding exactly until a write fails.\<close>

theorem session_streams_in_order:
  assumes "spsc_ok B contents 2048" and "ses_inv contents s" and "ses_schedule B kept evs (s, q)"
    and "list_all wf_node (published evs)"
  shows "\<exists>s' q'. ses_run B kept evs (s, q) = Inr (s', q')
     \<and> ((\<forall>n. Write_Error n \<notin> set evs) \<longrightarrow>
          on_its_way contents s' = on_its_way contents s @ concat (map node_line (accepted B kept evs (s, q))))
     \<and> prefix (delivered s') (on_its_way contents s @ concat (map node_line (accepted B kept evs (s, q))))
     \<and> subseq (accepted B kept evs (s, q)) (published evs)
     \<and> dropped s + length (published evs) = dropped s' + length (accepted B kept evs (s, q))
     \<and> (outstanding s' = Nothing \<longleftrightarrow> outstanding s = Nothing \<or> (\<exists>n. Write_Error n \<in> set evs))"
  using ses_run_ok [OF assms] by blast

definition sample_node :: "string \<Rightarrow> CanobjQueueNodeT" where
  "sample_node l = \<lparr>node_bytes = l @ replicate (256 - length l) NUL, node_len = length l\<rparr>"

definition sample_session :: "CanobjQueueNodeT list session" where
  "sample_session = (Session list_spsc)\<lparr>outstanding := Waiting, ppq_handle := Some 0\<rparr>"

definition sample_events :: "ses_event list" where
  "sample_events = [Published (sample_node ''one''), Timer, Published (sample_node ''two''), Wrote, Write_Error 1]"

theorem session_streams_in_order_witness:
  "\<exists>s' q'. ses_run list_spsc (\<lambda>_ _. False) sample_events (sample_session, EventQueue) = Inr (s', q')
     \<and> prefix (delivered s') ''onetwo'' \<and> dropped s' = 0 \<and> outstanding s' = Nothing"
proof -
  have ev: "ses_schedule list_spsc (\<lambda>_ _. False) sample_events (sample_session, EventQueue)"
    "accepted list_spsc (\<lambda>_ _. False) sample_events (sample_session, EventQueue) = [sample_node ''one'', sample_node ''two'']"
    "published sample_events = [sample_node ''one'', sample_node ''two'']"
    by code_simp+
  have "ses_inv (\<lambda>q. q) sample_session" by (simp add: ses_inv_def sample_session_def Session_def list_spsc_def)
  moreover have "list_all wf_node (published sample_events)" unfolding ev(3) by (simp add: wf_node_def sample_node_def)
  moreover have "concat (map node_line [sample_node ''one'', sample_node ''two'']) = ''onetwo''" by code_simp
  moreover have "Write_Error 1 \<in> set sample_events" by (simp add: sample_events_def)
  ultimately show ?thesis
    using session_streams_in_order [OF list_spsc_ok _ ev(1)] ev(2,3)
    by (auto simp: sample_session_def Session_def on_its_way_def list_spsc_def)
qed

text \<open>
  C5: A session drains. While writes succeed there is always a completion to come, and once
  no more lines are published, one completion per eight waiting lines and one more suffice,
  whatever the schedule: the client then has got every accepted line.\<close>

theorem session_drains:
  assumes "spsc_ok B contents 2048" and "ses_inv contents s" and "outstanding s \<noteq> Nothing" and "ses_schedule B kept evs (s, q)"
    and "set evs \<subseteq> {Timer, Wrote}"
  shows "\<exists>s'. ses_run B kept evs (s, q) = Inr (s', q) \<and> (ses_enabled Timer s' \<or> ses_enabled Wrote s')
     \<and> on_its_way contents s' = on_its_way contents s
     \<and> ((length (contents (spsc_queue s)) + 7) div 8 + 1 \<le> length evs \<longrightarrow> delivered s' = on_its_way contents s)"
proof -
  obtain s' where s': "ses_run B kept evs (s, q) = Inr (s', q)" "ses_inv contents s'" "outstanding s' \<noteq> Nothing"
     "on_its_way contents s' = on_its_way contents s" "need contents s' \<le> need contents s - length evs"
    using drain_run [OF assms] by blast
  have "need contents s \<le> (length (contents (spsc_queue s)) + 7) div 8 + 1" by (simp add: need_def)
  with s' show ?thesis using drained [OF s'(2,3)] by (cases "outstanding s'") auto
qed

theorem session_drains_witness:
  "\<exists>s'. ses_run list_spsc (\<lambda>_ _. False) [Timer, Wrote] (sample_session\<lparr>spsc_queue := [sample_node ''one'', sample_node ''two'']\<rparr>, EventQueue)
       = Inr (s', EventQueue) \<and> delivered s' = ''onetwo''"
proof -
  let ?s = "sample_session\<lparr>spsc_queue := [sample_node ''one'', sample_node ''two'']\<rparr>"
  have "ses_schedule list_spsc (\<lambda>_ _. False) [Timer, Wrote] (?s, EventQueue)" and o: "on_its_way (\<lambda>q. q) ?s = ''onetwo''"
    by code_simp+
  moreover have "ses_inv (\<lambda>q. q) ?s" "outstanding ?s \<noteq> Nothing"
    by (simp_all add: ses_inv_def sample_session_def Session_def wf_node_def sample_node_def)
  ultimately have "\<exists>s'. ses_run list_spsc (\<lambda>_ _. False) [Timer, Wrote] (?s, EventQueue) = Inr (s', EventQueue)
      \<and> (ses_enabled Timer s' \<or> ses_enabled Wrote s') \<and> on_its_way (\<lambda>q. q) s' = on_its_way (\<lambda>q. q) ?s
      \<and> ((length (spsc_queue ?s) + 7) div 8 + 1 \<le> length [Timer, Wrote] \<longrightarrow> delivered s' = on_its_way (\<lambda>q. q) ?s)"
    by (intro session_drains [OF list_spsc_ok]) auto
  then show ?thesis unfolding o by auto
qed

lemma error_disconnects:
  assumes "q_shows q (L, P)" and "ppq_handle s = Some h" and "(h, sid) \<in> set (fst (L kPpqCanObjEvtId))"
  shows "q_shows (disconnectToEventqq kept s q) (L(kPpqCanObjEvtId := spec_op (Remove h) (L kPpqCanObjEvtId)), P)"
proof -
  let ?l = "list_at kPpqCanObjEvtId q"
  have l: "listed ?l (L kPpqCanObjEvtId)" using assms(1) by (simp add: q_shows_def)
  then obtain xs where x: "rep ?l xs" "view ?l xs = L kPpqCanObjEvtId" by (auto simp: listed_def)
  have "h \<in> set xs" using assms(3) x(2) view_handles [of ?l xs] by force
  then have lk: "lock (kept kPpqCanObjEvtId) ?l h"
    using rep_dom [OF x(1)] rep_counter [OF x(1), of h] by (fastforce simp: lock_def)
  have ok: "q_ok kept (QListen kPpqCanObjEvtId (Remove h)) (L, P)"
    using assms(3) by (cases "L kPpqCanObjEvtId") force
  have "q_do kept (QListen kPpqCanObjEvtId (Remove h)) q = snd (removeListener kept kPpqCanObjEvtId h q)" by (simp add: q_do_def)
  then show ?thesis using q_do_refines [OF assms(1) ok] lk assms(2) by (simp add: disconnectToEventqq_def)
qed

text \<open>
  C22: A session whose write fails takes its listener out of the event queue and nothing
  else: the other listeners and the pending events stay, and it will be given no further
  line. The client has got the bytes written, and no write or timer is left outstanding. As
  many bytes again are dropped from the transmit buffer, which is not written any more.\<close>

theorem session_error_disconnects:
  assumes "q_shows q (L, P)" and "ppq_handle s = Some h" and "(h, sid) \<in> set (fst (L kPpqCanObjEvtId))"
  shows "\<exists>s' q'. ses_step B kept (Write_Error n) (s, q) = Inr (s', q')
     \<and> q_shows q' (L(kPpqCanObjEvtId := spec_op (Remove h) (L kPpqCanObjEvtId)), P)
     \<and> delivered s' = delivered s @ take n (shr_tx_buff s) \<and> shr_tx_buff s' = drop (n + n) (shr_tx_buff s)
     \<and> spsc_queue s' = spsc_queue s \<and> outstanding s' = Nothing"
  using error_disconnects [OF assms, of kept] unfolding error_step by auto

definition two_listeners :: lines_queue where
  "two_listeners = fold (q_do (\<lambda>_ _. False)) [QListen 1 (Append 7), QListen 1 (Append 8)] EventQueue"

lemma two_listeners_shows: "q_shows two_listeners ((\<lambda>_. ([], 0))(1 := ([(0, 7), (1, 8)], 2)), [])"
proof -
  let ?ops = "[QListen 1 (Append 7), QListen 1 (Append 8)] :: (nat, CanobjQueueNodeT) q_op list"
  have "fold spec_q ?ops (\<lambda>_. ([], 0), []) = ((\<lambda>_. ([], 0))(1 := ([(0, 7), (1, 8)], 2)), [])"
    by (simp add: eval_nat_numeral)
  then show ?thesis using EventQueue_built(1) [of "\<lambda>_ _. False" ?ops 0] by (simp add: two_listeners_def)
qed

theorem session_error_disconnects_witness:
  "\<exists>s' q'. ses_step list_spsc (\<lambda>_ _. False) (Write_Error 1) (sample_session\<lparr>shr_tx_buff := ''abc''\<rparr>, two_listeners) = Inr (s', q')
     \<and> q_shows q' ((\<lambda>_. ([], 0))(1 := ([(1, 8)], 2)), []) \<and> delivered s' = ''a'' \<and> shr_tx_buff s' = ''c''"
proof -
  have "ppq_handle (sample_session\<lparr>shr_tx_buff := ''abc''\<rparr>) = Some 0" by (simp add: sample_session_def)
  from session_error_disconnects [OF two_listeners_shows this, of 7 list_spsc "\<lambda>_ _. False" 1]
  show ?thesis unfolding kPpqCanObjEvtId_def
    by (auto simp: sample_session_def Session_def numeral_2_eq_2 simp del: ses_step.simps)
qed

end
