(* ===== verification/Tick_Ext.thy ===== *)
theory Tick_Ext
  imports Prelude Complex_Main
begin

text \<open>
  3rd/include/ticks/tick\_ext.h: the time stamps of the agent, extrapolated from the cycle
  counter. The readings of the cycle counter (\<open>my_get_tick\<close>) and of the system clock (in
  microseconds) are arguments. The arithmetic of \<open>double\<close> is the record \<open>'d fp\<close>: the
  conversions, the four operations and the comparison the code uses.
\<close>

section \<open>Floating point and clock readings\<close>

record 'd fp =
  fp_of :: "uint64 \<Rightarrow> 'd"
  fp_to :: "'d \<Rightarrow> uint64"
  fp_add :: "'d \<Rightarrow> 'd \<Rightarrow> 'd"
  fp_sub :: "'d \<Rightarrow> 'd \<Rightarrow> 'd"
  fp_mul :: "'d \<Rightarrow> 'd \<Rightarrow> 'd"
  fp_div :: "'d \<Rightarrow> 'd \<Rightarrow> 'd"
  fp_gt :: "'d \<Rightarrow> 'd \<Rightarrow> bool"

definition fp_zero :: "'d fp \<Rightarrow> 'd" where "fp_zero F = fp_of F 0"

text \<open>The readings of one call: the counter, the clock, and the counter once more.\<close>

record reading =
  rd_tick :: uint64
  rd_now :: uint64
  rd_tick2 :: uint64

section \<open>Calibration: tickUpdate\<close>

datatype stage = Stage_init | Stage_tick0 | Stage_tick1 | Stage_finish

record 'd tickUpdate =
  tu_tick0 :: uint64
  tu_tick1 :: uint64
  tu_tm0 :: uint64
  tu_tm1 :: uint64
  tu_delta_ratio :: 'd
  tu_stat :: stage

definition tickUpdate_new :: "'d fp \<Rightarrow> 'd tickUpdate" where
  "tickUpdate_new F = \<lparr>tu_tick0 = 0, tu_tick1 = 0, tu_tm0 = 0, tu_tm1 = 0, tu_delta_ratio = fp_zero F, tu_stat = Stage_init\<rparr>"

definition is_ellapsed :: "'d fp \<Rightarrow> uint64 \<Rightarrow> 'd tickUpdate \<Rightarrow> bool" where
  "is_ellapsed F nowTick u =
     (if fp_gt F (tu_delta_ratio u) (fp_zero F) then
        let now_tm = fp_mul F (fp_of F nowTick) (tu_delta_ratio u)
        in fp_gt F (fp_sub F now_tm (fp_of F (tu_tm0 u))) (fp_of F 1000)
      else nowTick - tu_tick0 u > 1000 * 1000 * 100)"

definition tu_update :: "'d fp \<Rightarrow> reading \<Rightarrow> 'd tickUpdate \<Rightarrow> bool \<times> 'd tickUpdate" where
  "tu_update F r u =
     (if tu_stat u = Stage_init then
        (False, u\<lparr>tu_tm1 := rd_now r, tu_tm0 := rd_now r, tu_tick1 := rd_tick r, tu_tick0 := rd_tick r, tu_stat := Stage_tick0\<rparr>)
      else if tu_stat u = Stage_tick0 then (False, u\<lparr>tu_stat := Stage_tick1\<rparr>)
      else if tu_stat u = Stage_tick1 \<and> is_ellapsed F (rd_tick r) u then
        let tm1 = rd_now r; tick1 = rd_tick2 r
        in (True, u\<lparr>tu_tm1 := tm1, tu_tick1 := tick1,
              tu_delta_ratio := fp_div F (fp_of F (tm1 - tu_tm0 u)) (fp_of F (tick1 - tu_tick0 u)),
              tu_stat := Stage_finish\<rparr>)
      else (False, u))"

definition reset_state :: "'d tickUpdate \<Rightarrow> 'd tickUpdate" where
  "reset_state u = u\<lparr>tu_stat := Stage_tick0, tu_tick1 := tu_tick0 u, tu_tm0 := tu_tm1 u\<rparr>"

section \<open>Time stamps: tickExt\<close>

record 'd tickExt =
  mile_stone_tick :: uint64
  mile_stone_tm64 :: uint64
  te_delta_ratio :: 'd
  valid_tick :: bool
  te_tu :: "'d tickUpdate"

definition beginInitTick :: "uint64 \<Rightarrow> uint64 \<Rightarrow> 'd tickExt \<Rightarrow> 'd tickExt" where
  "beginInitTick now tick e = e\<lparr>mile_stone_tm64 := now, mile_stone_tick := tick\<rparr>"

definition tickExt_new :: "'d fp \<Rightarrow> uint64 \<Rightarrow> uint64 \<Rightarrow> 'd tickExt" where
  "tickExt_new F now tick =
     beginInitTick now tick \<lparr>mile_stone_tick = 0, mile_stone_tm64 = 0, te_delta_ratio = fp_zero F,
       valid_tick = False, te_tu = tickUpdate_new F\<rparr>"

definition getTick :: "'d fp \<Rightarrow> uint64 \<Rightarrow> 'd tickExt \<Rightarrow> uint64" where
  "getTick F tick e =
     (if \<not> valid_tick e then 0
      else let tick_diff = tick - mile_stone_tick e
           in fp_to F (fp_add F (fp_of F (mile_stone_tm64 e)) (fp_mul F (fp_of F tick_diff) (te_delta_ratio e))))"

definition updateTick :: "'d fp \<Rightarrow> reading \<Rightarrow> 'd tickExt \<Rightarrow> 'd tickExt" where
  "updateTick F r e =
     (let (done, u) = tu_update F r (te_tu e)
      in if done then e\<lparr>mile_stone_tick := tu_tick0 u, mile_stone_tm64 := tu_tm0 u, te_tu := reset_state u\<rparr>
         else e\<lparr>te_tu := u\<rparr>)"

definition endInitTick :: "'d fp \<Rightarrow> uint64 \<Rightarrow> uint64 \<Rightarrow> 'd tickExt \<Rightarrow> int \<times> 'd tickExt" where
  "endInitTick F tm64 tick2 e =
     (if tm64 < mile_stone_tm64 e \<or> tick2 < mile_stone_tick e then (- 1, e\<lparr>valid_tick := False\<rparr>)
      else if tm64 - mile_stone_tm64 e < 10 \<or> tick2 - mile_stone_tick e < 1000 then (0, e\<lparr>valid_tick := False\<rparr>)
      else (0, e\<lparr>te_delta_ratio := fp_div F (fp_of F (tm64 - mile_stone_tm64 e)) (fp_of F (tick2 - mile_stone_tick e)),
                valid_tick := True\<rparr>))"

section \<open>Properties\<close>

text \<open>
  Ending the initialisation: the time stamps become valid exactly when at least 10
  microseconds and 1000 ticks have passed since its begin and neither clock went back. The
  result \<open>-1\<close> reports only clocks that went back; an interval that is too short leaves the
  time stamps invalid (every \<open>getTick\<close> is 0) with the same result 0 as success.\<close>

theorem tick_init_result:
  "(valid_tick (snd (endInitTick F tm tick e)) =
     (unat (mile_stone_tm64 e) + 10 \<le> unat tm \<and> unat (mile_stone_tick e) + 1000 \<le> unat tick))
   \<and> fst (endInitTick F tm tick e) = (if tm < mile_stone_tm64 e \<or> tick < mile_stone_tick e then - 1 else 0)
   \<and> (valid_tick (snd (endInitTick F tm tick e)) \<or> getTick F t (snd (endInitTick F tm tick e)) = 0)"
proof (intro conjI)
  have sub: "\<not> y < x \<Longrightarrow> \<not> y - x < d \<longleftrightarrow> unat x + unat d \<le> unat y" for x y d :: uint64
    by (auto simp: word_less_nat_alt unat_sub word_le_nat_alt)
  have d: "unat (10 :: uint64) = 10" "unat (1000 :: uint64) = 1000" by simp_all
  show "valid_tick (snd (endInitTick F tm tick e)) =
     (unat (mile_stone_tm64 e) + 10 \<le> unat tm \<and> unat (mile_stone_tick e) + 1000 \<le> unat tick)"
    using sub [of tm "mile_stone_tm64 e" 10] sub [of tick "mile_stone_tick e" 1000]
    unfolding d by (auto simp: endInitTick_def word_less_nat_alt)
qed (simp_all add: endInitTick_def getTick_def)

section \<open>Recalibration\<close>

fun tick_run :: "'d fp \<Rightarrow> reading list \<Rightarrow> 'd tickExt \<Rightarrow> 'd tickExt" where
  "tick_run F [] e = e"
| "tick_run F (r # rs) e = tick_run F rs (updateTick F r e)"

text \<open>
  The recalibrations of a sequence of calls, by their clock readings, from the tick \<open>k\<close> of the
  first call, the time \<open>t\<close> of the last recalibration and the ratio \<open>d\<close> it gave: one call passes,
  then the first call for which enough time has gone by recalibrates.
\<close>

fun recalibrated :: "'d fp \<Rightarrow> uint64 \<Rightarrow> uint64 \<Rightarrow> 'd \<Rightarrow> bool \<Rightarrow> reading list \<Rightarrow> uint64 list" where
  "recalibrated F k t d pass [] = []"
| "recalibrated F k t d True (r # rs) = recalibrated F k t d False rs"
| "recalibrated F k t d False (r # rs) =
     (if (if fp_gt F d (fp_of F 0) then fp_gt F (fp_sub F (fp_mul F (fp_of F (rd_tick r)) d) (fp_of F t)) (fp_of F 1000)
          else rd_tick r - k > 100000000)
      then rd_now r # recalibrated F k (rd_now r) (fp_div F (fp_of F (rd_now r - t)) (fp_of F (rd_tick2 r - k))) True rs
      else recalibrated F k t d False rs)"

lemma tick_run_recalibrated:
  assumes "tu_stat (te_tu e) \<in> {Stage_tick0, Stage_tick1}"
    and "ts = recalibrated F (tu_tick0 (te_tu e)) (tu_tm0 (te_tu e)) (tu_delta_ratio (te_tu e)) (tu_stat (te_tu e) = Stage_tick0) rs"
  shows "mile_stone_tick (tick_run F rs e) = (if ts = [] then mile_stone_tick e else tu_tick0 (te_tu e))
     \<and> mile_stone_tm64 (tick_run F rs e) = (if ts = [] then mile_stone_tm64 e else (tu_tm0 (te_tu e) # ts) ! (length ts - 1))
     \<and> te_delta_ratio (tick_run F rs e) = te_delta_ratio e \<and> valid_tick (tick_run F rs e) = valid_tick e"
  using assms
proof (induction rs arbitrary: e ts)
  case (Cons r rs)
  let ?u = "te_tu e" and ?e = "updateTick F r e"
  show ?case
  proof (cases "tu_stat ?u = Stage_tick0")
    case True
    then have "?e = e\<lparr>te_tu := ?u\<lparr>tu_stat := Stage_tick1\<rparr>\<rparr>" by (simp add: updateTick_def tu_update_def)
    then show ?thesis using Cons.IH [of ?e ts] Cons.prems(2) True by simp
  next
    case False
    then have st: "tu_stat ?u = Stage_tick1" using Cons.prems(1) by simp
    have el: "is_ellapsed F (rd_tick r) ?u \<longleftrightarrow>
        (if fp_gt F (tu_delta_ratio ?u) (fp_of F 0)
         then fp_gt F (fp_sub F (fp_mul F (fp_of F (rd_tick r)) (tu_delta_ratio ?u)) (fp_of F (tu_tm0 ?u))) (fp_of F 1000)
         else rd_tick r - tu_tick0 ?u > 100000000)"
      by (simp add: is_ellapsed_def fp_zero_def Let_def)
    show ?thesis
    proof (cases "is_ellapsed F (rd_tick r) ?u")
      case True
      let ?d = "fp_div F (fp_of F (rd_now r - tu_tm0 ?u)) (fp_of F (rd_tick2 r - tu_tick0 ?u))"
      let ?ts = "recalibrated F (tu_tick0 ?u) (rd_now r) ?d True rs"
      have ts: "ts = rd_now r # ?ts" using Cons.prems(2) True el st by simp
      have "tu_stat (te_tu ?e) = Stage_tick0" "tu_tick0 (te_tu ?e) = tu_tick0 ?u" "tu_tm0 (te_tu ?e) = rd_now r"
        "tu_delta_ratio (te_tu ?e) = ?d" "mile_stone_tick ?e = tu_tick0 ?u" "mile_stone_tm64 ?e = tu_tm0 ?u"
        "te_delta_ratio ?e = te_delta_ratio e" "valid_tick ?e = valid_tick e"
        using st True by (simp_all add: updateTick_def tu_update_def reset_state_def Let_def)
      then show ?thesis using Cons.IH [of ?e ?ts] by (cases ?ts) (simp_all add: ts)
    next
      case False
      then have "?e = e" using st by (simp add: updateTick_def tu_update_def)
      then show ?thesis using Cons.IH [of e ts] Cons.prems el False st by simp
    qed
  qed
qed simp

text \<open>
  C38: Recalibration moves the time of the milestone but not its tick. From the first call
  \<open>r\<close> of \<open>updateTick\<close> on, each recalibration moves the time of the milestone to that of the
  recalibration before it, or of the first call; the tick of the milestone is the one of the
  first call, from the first recalibration on and for ever; and the ratio \<open>getTick\<close> uses is
  never the recalibrated one.\<close>

theorem tick_milestone_stale:
  assumes "tu_stat (te_tu e) = Stage_init"
    and "ts = recalibrated F (rd_tick r) (rd_now r) (tu_delta_ratio (te_tu e)) True rs"
  shows "mile_stone_tm64 (tick_run F (r # rs) e) = (if ts = [] then mile_stone_tm64 e else (rd_now r # ts) ! (length ts - 1))
     \<and> mile_stone_tick (tick_run F (r # rs) e) = (if ts = [] then mile_stone_tick e else rd_tick r)
     \<and> te_delta_ratio (tick_run F (r # rs) e) = te_delta_ratio e \<and> valid_tick (tick_run F (r # rs) e) = valid_tick e"
proof -
  have "updateTick F r e = e\<lparr>te_tu := (te_tu e)\<lparr>tu_tm1 := rd_now r, tu_tm0 := rd_now r, tu_tick1 := rd_tick r,
      tu_tick0 := rd_tick r, tu_stat := Stage_tick0\<rparr>\<rparr>"
    using assms(1) by (simp add: updateTick_def tu_update_def)
  then show ?thesis using tick_run_recalibrated [of "updateTick F r e" ts F rs] assms(2) by simp
qed

text \<open>Exact arithmetic, and a counter that advances once per microsecond.\<close>

definition real_fp :: "real fp" where
  "real_fp = \<lparr>fp_of = (\<lambda>w. real (unat w)), fp_to = (\<lambda>x. of_nat (nat \<lfloor>x\<rfloor>)), fp_add = (+), fp_sub = (-),
     fp_mul = (*), fp_div = (/), fp_gt = (>)\<rparr>"

definition at_time :: "uint64 \<Rightarrow> reading" where
  "at_time t = \<lparr>rd_tick = t, rd_now = t, rd_tick2 = t\<rparr>"

definition started :: "real tickExt" where
  "started = snd (endInitTick real_fp 10000 10000 (tickExt_new real_fp 0 0))"

definition sample_readings :: "reading list" where
  "sample_readings = [at_time 10001, at_time 100020000, at_time 100020001, at_time 100030000]"

theorem tick_milestone_stale_witness:
  "mile_stone_tick (tick_run real_fp (at_time 10000 # sample_readings) started) = 10000
   \<and> mile_stone_tm64 (tick_run real_fp (at_time 10000 # sample_readings) started) = 100020000"
proof -
  have s: "tu_stat (te_tu started) = Stage_init" "tu_delta_ratio (te_tu started) = 0"
    by (simp_all add: started_def endInitTick_def tickExt_new_def beginInitTick_def tickUpdate_new_def fp_zero_def real_fp_def)
  have "[100020000, 100030000] = recalibrated real_fp (rd_tick (at_time 10000)) (rd_now (at_time 10000)) (tu_delta_ratio (te_tu started)) True sample_readings"
    unfolding s(2) by (simp add: sample_readings_def at_time_def real_fp_def)
  from tick_milestone_stale [OF s(1) this] show ?thesis by (simp add: at_time_def)
qed

text \<open>
  With exact arithmetic and perfect clocks the time stamps run ahead after the second
  recalibration: the time between the first two milestones is counted twice.\<close>

theorem tick_runs_ahead:
  "getTick real_fp 100030000
     (tick_run real_fp [at_time 10000, at_time 10001, at_time 100020000] started) = 100030000
   \<and> getTick real_fp 100030000
     (tick_run real_fp [at_time 10000, at_time 10001, at_time 100020000, at_time 100020001, at_time 100030000] started) = 200040000"
  by (simp add: started_def endInitTick_def tickExt_new_def beginInitTick_def tickUpdate_new_def real_fp_def fp_zero_def
      updateTick_def tu_update_def reset_state_def is_ellapsed_def at_time_def getTick_def Let_def)

end
