(* ===== verification/Direct_Can.thy ===== *)
theory Direct_Can
  imports Host
begin

text \<open>
  The direct backends: libControlCAN/src/lib_control_can_imp_dc.cc (CanImpDirectCan, which
  loads every configured driver when it is constructed) and lib_control_can_imp_dc2.cc
  (CanImpDirectCan2, which loads the driver of one device type when the device is opened).

  Both read kerneldlls/kerneldll.ini beside the executable.
  Constructing an Ini object may not return or may fault, so the operations that read the
  configuration have a result of type \<open>res option\<close>.

  \<open>dll_load_dll_type* load_library\<close> never returns a null pointer (\<open>new\<close> throws instead),
  so the branches \<open>if (!up) continue;\<close> are never taken and do not appear.
\<close>

section \<open>Configuration\<close>

definition kerneldlls :: "'d host \<Rightarrow> string" where
  "kerneldlls h = host_join h (host_parent h (getexepath h)) ''kerneldlls''"

definition kerneldll_ini :: "'d host \<Rightarrow> string" where
  "kerneldll_ini h = host_join h (kerneldlls h) ''kerneldll.ini''"

definition load_library_s :: "'d host \<Rightarrow> string \<Rightarrow> 'd dll_load_dll_type res" where
  "load_library_s h path = dll_ctor (host_load h) path"

text \<open>
  The table \<open>ini["KERNELDLL"]\<close> in iteration order; \<open>Inr None\<close> when the file does not exist.
\<close>

definition kernel_section :: "'d host \<Rightarrow> (string \<times> string) list option res option" where
  "kernel_section h =
     (if host_exists h (kerneldll_ini h) then
        map_option (\<lambda>r. and_then r (\<lambda>ini.
          let (ini', a) = ini_subscript ini ''KERNELDLL''
          in Inr (Some (host_order h (ini_heap ini' a)))))
        (Ini_file (host_uchar h) (kerneldll_ini h) (host_text h (kerneldll_ini h)) True)
      else Some (Inr None))"

section \<open>CanImpDirectCan\<close>

record 'd direct_can =
  lib_map :: "DWORD \<rightharpoonup> 'd dll_load_dll_type"

text \<open>The loop of the constructor; \<open>std::map::insert\<close> keeps an existing entry.\<close>

fun dc_scan :: "'d host \<Rightarrow> (string \<times> string) list \<Rightarrow> 'd direct_can \<Rightarrow> 'd direct_can res" where
  "dc_scan h [] s = Inr s"
| "dc_scan h ((k, v) # kvs) s =
     (case host_lex h k of
        None \<Rightarrow> dc_scan h kvs s
      | Some type \<Rightarrow>
          let temp_path = host_join h (kerneldlls h) v in
          if \<not> host_exists h temp_path then dc_scan h kvs s
          else and_then (load_library_s h temp_path) (\<lambda>up.
            dc_scan h kvs (if lib_map s type = None
              then s\<lparr>lib_map := (lib_map s)(type \<mapsto> up)\<rparr> else s)))"

definition CanImpDirectCan :: "'d host \<Rightarrow> 'd direct_can res option" where
  "CanImpDirectCan h =
     map_option (\<lambda>r. and_then r (\<lambda>sec.
       case sec of None \<Rightarrow> Inr \<lparr>lib_map = Map.empty\<rparr>
       | Some kvs \<Rightarrow> dc_scan h kvs \<lparr>lib_map = Map.empty\<rparr>)) (kernel_section h)"

definition dc_VCI_OpenDevice :: "'d direct_can \<Rightarrow> 'd vci_open_device_t" where
  "dc_VCI_OpenDevice s deviceType deviceInd reserved d =
     (case lib_map s deviceType of
        Some lib \<Rightarrow> fOpenDevice lib deviceType deviceInd reserved d
      | None \<Rightarrow> (STATUS_ERR, d))"

definition dc_VCI_CloseDevice :: "'d direct_can \<Rightarrow> 'd vci_close_device_t" where
  "dc_VCI_CloseDevice s deviceType deviceInd d =
     (case lib_map s deviceType of
        Some lib \<Rightarrow> fCloseDevice lib deviceType deviceInd d
      | None \<Rightarrow> (STATUS_ERR, d))"

definition dc_VCI_ReadBoardInfo :: "'d direct_can \<Rightarrow> 'd vci_read_board_info_t" where
  "dc_VCI_ReadBoardInfo s deviceType deviceInd pInfo d =
     (case lib_map s deviceType of
        Some lib \<Rightarrow> fReadBoardInfo lib deviceType deviceInd pInfo d
      | None \<Rightarrow> (STATUS_ERR, pInfo, d))"

definition dc_VCI_InitCAN :: "'d direct_can \<Rightarrow> 'd vci_init_can_t" where
  "dc_VCI_InitCAN s deviceType deviceInd canInd pInitConfig d =
     (case lib_map s deviceType of
        Some lib \<Rightarrow> fInitCan lib deviceType deviceInd canInd pInitConfig d
      | None \<Rightarrow> (STATUS_ERR, pInitConfig, d))"

definition dc_VCI_ReadErrInfo :: "'d direct_can \<Rightarrow> 'd vci_read_err_info_t" where
  "dc_VCI_ReadErrInfo s deviceType deviceInd canInd pErrInfo d =
     (case lib_map s deviceType of
        Some lib \<Rightarrow> fReadErrInfo lib deviceType deviceInd canInd pErrInfo d
      | None \<Rightarrow> (STATUS_ERR, pErrInfo, d))"

definition dc_VCI_ReadCANStatus :: "'d direct_can \<Rightarrow> 'd vci_read_can_status_t" where
  "dc_VCI_ReadCANStatus s deviceType deviceInd canInd pCANStatus d =
     (case lib_map s deviceType of
        Some lib \<Rightarrow> fReadCanStatus lib deviceType deviceInd canInd pCANStatus d
      | None \<Rightarrow> (STATUS_ERR, pCANStatus, d))"

definition dc_VCI_GetReference :: "'d direct_can \<Rightarrow> 'd vci_get_reference_t" where
  "dc_VCI_GetReference s deviceType deviceInd canInd refType pData d =
     (case lib_map s deviceType of
        Some lib \<Rightarrow> fGetReference lib deviceType deviceInd canInd refType pData d
      | None \<Rightarrow> (STATUS_ERR, pData, d))"

definition dc_VCI_SetReference :: "'d direct_can \<Rightarrow> 'd vci_set_reference_t" where
  "dc_VCI_SetReference s deviceType deviceInd canInd refType pData d =
     (case lib_map s deviceType of
        Some lib \<Rightarrow> fSetReference lib deviceType deviceInd canInd refType pData d
      | None \<Rightarrow> (STATUS_ERR, pData, d))"

definition dc_VCI_GetReceiveNum :: "'d direct_can \<Rightarrow> 'd vci_get_receive_num_t" where
  "dc_VCI_GetReceiveNum s deviceType deviceInd canInd d =
     (case lib_map s deviceType of
        Some lib \<Rightarrow> fGetReceiveNum lib deviceType deviceInd canInd d
      | None \<Rightarrow> (0, d))"

definition dc_VCI_ClearBuffer :: "'d direct_can \<Rightarrow> 'd vci_clear_buffer_t" where
  "dc_VCI_ClearBuffer s deviceType deviceInd canInd d =
     (case lib_map s deviceType of
        Some lib \<Rightarrow> fClearBuffer lib deviceType deviceInd canInd d
      | None \<Rightarrow> (STATUS_ERR, d))"

definition dc_VCI_StartCAN :: "'d direct_can \<Rightarrow> 'd vci_start_can_t" where
  "dc_VCI_StartCAN s deviceType deviceInd canInd d =
     (case lib_map s deviceType of
        Some lib \<Rightarrow> fStartCan lib deviceType deviceInd canInd d
      | None \<Rightarrow> (STATUS_ERR, d))"

definition dc_VCI_ResetCAN :: "'d direct_can \<Rightarrow> 'd vci_reset_can_t" where
  "dc_VCI_ResetCAN s deviceType deviceInd canInd d =
     (case lib_map s deviceType of
        Some lib \<Rightarrow> fResetCan lib deviceType deviceInd canInd d
      | None \<Rightarrow> (STATUS_ERR, d))"

definition dc_VCI_Transmit :: "'d direct_can \<Rightarrow> 'd vci_transmit_t" where
  "dc_VCI_Transmit s deviceType deviceInd canInd pSend len d =
     (case lib_map s deviceType of
        Some lib \<Rightarrow> fTransmit lib deviceType deviceInd canInd pSend len d
      | None \<Rightarrow> (STATUS_ERR, pSend, d))"

definition dc_VCI_Receive :: "'d direct_can \<Rightarrow> 'd vci_receive_t" where
  "dc_VCI_Receive s deviceType deviceInd canInd pReceive len waitTime d =
     (case lib_map s deviceType of
        Some lib \<Rightarrow> fReceive lib deviceType deviceInd canInd pReceive len waitTime d
      | None \<Rightarrow> (0, pReceive, d))"

section \<open>CanImpDirectCan2\<close>

record 'd direct_can2 =
  dc2_dev_type :: "DWORD option"
  dc2_lib :: "'d dll_load_dll_type option"

definition CanImpDirectCan2 :: "'d direct_can2" where
  "CanImpDirectCan2 = \<lparr>dc2_dev_type = None, dc2_lib = None\<rparr>"

text \<open>The search loop of \<open>VCI_OpenDevice\<close>, which ends at the first driver it loads.\<close>

fun dc2_scan :: "'d host \<Rightarrow> DWORD \<Rightarrow> (string \<times> string) list \<Rightarrow> 'd direct_can2 \<Rightarrow> 'd direct_can2 res" where
  "dc2_scan h deviceType [] s = Inr s"
| "dc2_scan h deviceType ((k, v) # kvs) s =
     (case host_lex h k of
        None \<Rightarrow> dc2_scan h deviceType kvs s
      | Some type \<Rightarrow>
          if type \<noteq> deviceType then dc2_scan h deviceType kvs s
          else let temp_path = host_join h (kerneldlls h) v in
          if \<not> host_exists h temp_path then dc2_scan h deviceType kvs s
          else and_then (load_library_s h temp_path) (\<lambda>up.
            Inr (s\<lparr>dc2_dev_type := Some type, dc2_lib := Some up\<rparr>)))"

definition dc2_VCI_OpenDevice ::
  "'d host \<Rightarrow> 'd direct_can2 \<Rightarrow> DWORD \<Rightarrow> DWORD \<Rightarrow> DWORD \<Rightarrow> 'd \<Rightarrow> (vciReturnType \<times> 'd direct_can2 \<times> 'd) res option" where
  "dc2_VCI_OpenDevice h s deviceType deviceInd reserved d =
     (let s0 = s\<lparr>dc2_dev_type := None, dc2_lib := None\<rparr> in
      map_option (\<lambda>r. and_then r (\<lambda>sec.
        and_then (case sec of None \<Rightarrow> Inr s0 | Some kvs \<Rightarrow> dc2_scan h deviceType kvs s0) (\<lambda>s1.
          case (dc2_dev_type s1, dc2_lib s1) of
            (Some _, Some lib) \<Rightarrow>
              (let (err, d') = fOpenDevice lib deviceType deviceInd reserved d in Inr (err, s1, d'))
          | _ \<Rightarrow> Inr (STATUS_ERR, s1, d)))) (kernel_section h))"

text \<open>The guard \<open>_dev_type && _lib && *_dev_type == deviceType\<close>.\<close>

definition dc2_route :: "'d direct_can2 \<Rightarrow> DWORD \<Rightarrow> 'd dll_load_dll_type option" where
  "dc2_route s deviceType =
     (case (dc2_dev_type s, dc2_lib s) of
        (Some type, Some lib) \<Rightarrow> if type = deviceType then Some lib else None
      | _ \<Rightarrow> None)"

definition dc2_VCI_CloseDevice ::
  "'d direct_can2 \<Rightarrow> DWORD \<Rightarrow> DWORD \<Rightarrow> 'd \<Rightarrow> vciReturnType \<times> 'd direct_can2 \<times> 'd" where
  "dc2_VCI_CloseDevice s deviceType deviceInd d =
     (case dc2_route s deviceType of
        Some lib \<Rightarrow>
          (let (err, d') = fCloseDevice lib deviceType deviceInd d
           in (err, s\<lparr>dc2_dev_type := None, dc2_lib := None\<rparr>, d'))
      | None \<Rightarrow> (STATUS_ERR, s\<lparr>dc2_dev_type := None, dc2_lib := None\<rparr>, d))"

definition dc2_VCI_ReadBoardInfo :: "'d direct_can2 \<Rightarrow> 'd vci_read_board_info_t" where
  "dc2_VCI_ReadBoardInfo s deviceType deviceInd pInfo d =
     (case dc2_route s deviceType of
        Some lib \<Rightarrow> fReadBoardInfo lib deviceType deviceInd pInfo d
      | None \<Rightarrow> (STATUS_ERR, pInfo, d))"

definition dc2_VCI_InitCAN :: "'d direct_can2 \<Rightarrow> 'd vci_init_can_t" where
  "dc2_VCI_InitCAN s deviceType deviceInd canInd pInitConfig d =
     (case dc2_route s deviceType of
        Some lib \<Rightarrow> fInitCan lib deviceType deviceInd canInd pInitConfig d
      | None \<Rightarrow> (STATUS_ERR, pInitConfig, d))"

definition dc2_VCI_ReadErrInfo :: "'d direct_can2 \<Rightarrow> 'd vci_read_err_info_t" where
  "dc2_VCI_ReadErrInfo s deviceType deviceInd canInd pErrInfo d =
     (case dc2_route s deviceType of
        Some lib \<Rightarrow> fReadErrInfo lib deviceType deviceInd canInd pErrInfo d
      | None \<Rightarrow> (STATUS_ERR, pErrInfo, d))"

definition dc2_VCI_ReadCANStatus :: "'d direct_can2 \<Rightarrow> 'd vci_read_can_status_t" where
  "dc2_VCI_ReadCANStatus s deviceType deviceInd canInd pCANStatus d =
     (case dc2_route s deviceType of
        Some lib \<Rightarrow> fReadCanStatus lib deviceType deviceInd canInd pCANStatus d
      | None \<Rightarrow> (STATUS_ERR, pCANStatus, d))"

definition dc2_VCI_GetReference :: "'d direct_can2 \<Rightarrow> 'd vci_get_reference_t" where
  "dc2_VCI_GetReference s deviceType deviceInd canInd refType pData d =
     (case dc2_route s deviceType of
        Some lib \<Rightarrow> fGetReference lib deviceType deviceInd canInd refType pData d
      | None \<Rightarrow> (STATUS_ERR, pData, d))"

definition dc2_VCI_SetReference :: "'d direct_can2 \<Rightarrow> 'd vci_set_reference_t" where
  "dc2_VCI_SetReference s deviceType deviceInd canInd refType pData d =
     (case dc2_route s deviceType of
        Some lib \<Rightarrow> fSetReference lib deviceType deviceInd canInd refType pData d
      | None \<Rightarrow> (STATUS_ERR, pData, d))"

definition dc2_VCI_GetReceiveNum :: "'d direct_can2 \<Rightarrow> 'd vci_get_receive_num_t" where
  "dc2_VCI_GetReceiveNum s deviceType deviceInd canInd d =
     (case dc2_route s deviceType of
        Some lib \<Rightarrow> fGetReceiveNum lib deviceType deviceInd canInd d
      | None \<Rightarrow> (0, d))"

definition dc2_VCI_ClearBuffer :: "'d direct_can2 \<Rightarrow> 'd vci_clear_buffer_t" where
  "dc2_VCI_ClearBuffer s deviceType deviceInd canInd d =
     (case dc2_route s deviceType of
        Some lib \<Rightarrow> fClearBuffer lib deviceType deviceInd canInd d
      | None \<Rightarrow> (STATUS_ERR, d))"

definition dc2_VCI_StartCAN :: "'d direct_can2 \<Rightarrow> 'd vci_start_can_t" where
  "dc2_VCI_StartCAN s deviceType deviceInd canInd d =
     (case dc2_route s deviceType of
        Some lib \<Rightarrow> fStartCan lib deviceType deviceInd canInd d
      | None \<Rightarrow> (STATUS_ERR, d))"

definition dc2_VCI_ResetCAN :: "'d direct_can2 \<Rightarrow> 'd vci_reset_can_t" where
  "dc2_VCI_ResetCAN s deviceType deviceInd canInd d =
     (case dc2_route s deviceType of
        Some lib \<Rightarrow> fResetCan lib deviceType deviceInd canInd d
      | None \<Rightarrow> (STATUS_ERR, d))"

definition dc2_VCI_Transmit :: "'d direct_can2 \<Rightarrow> 'd vci_transmit_t" where
  "dc2_VCI_Transmit s deviceType deviceInd canInd pSend len d =
     (case dc2_route s deviceType of
        Some lib \<Rightarrow> fTransmit lib deviceType deviceInd canInd pSend len d
      | None \<Rightarrow> (STATUS_ERR, pSend, d))"

definition dc2_VCI_Receive :: "'d direct_can2 \<Rightarrow> 'd vci_receive_t" where
  "dc2_VCI_Receive s deviceType deviceInd canInd pReceive len waitTime d =
     (case dc2_route s deviceType of
        Some lib \<Rightarrow> fReceive lib deviceType deviceInd canInd pReceive len waitTime d
      | None \<Rightarrow> (0, pReceive, d))"

section \<open>The virtual calls\<close>

text \<open>\<open>CanImpInterface\<close>'s virtual functions on an object of each class.\<close>

fun dc_call :: "'d direct_can \<Rightarrow> vci_call \<Rightarrow> 'd \<Rightarrow> vci_reply \<times> 'd" where
  "dc_call s (C_ReadBoardInfo t i p) d =
     (let (err, p', d') = dc_VCI_ReadBoardInfo s t i p d in (R_Board err p', d'))"
| "dc_call s (C_InitCAN t i c p) d =
     (let (err, p', d') = dc_VCI_InitCAN s t i c p d in (R_Config err p', d'))"
| "dc_call s (C_ReadErrInfo t i c p) d =
     (let (err, p', d') = dc_VCI_ReadErrInfo s t i c p d in (R_Err err p', d'))"
| "dc_call s (C_ReadCANStatus t i c p) d =
     (let (err, p', d') = dc_VCI_ReadCANStatus s t i c p d in (R_Status err p', d'))"
| "dc_call s (C_GetReference t i c k p) d =
     (let (err, p', d') = dc_VCI_GetReference s t i c k p d in (R_Ref err p', d'))"
| "dc_call s (C_SetReference t i c k p) d =
     (let (err, p', d') = dc_VCI_SetReference s t i c k p d in (R_Ref err p', d'))"
| "dc_call s (C_GetReceiveNum t i c) d =
     (let (err, d') = dc_VCI_GetReceiveNum s t i c d in (R_Plain err, d'))"
| "dc_call s (C_ClearBuffer t i c) d =
     (let (err, d') = dc_VCI_ClearBuffer s t i c d in (R_Plain err, d'))"
| "dc_call s (C_StartCAN t i c) d =
     (let (err, d') = dc_VCI_StartCAN s t i c d in (R_Plain err, d'))"
| "dc_call s (C_ResetCAN t i c) d =
     (let (err, d') = dc_VCI_ResetCAN s t i c d in (R_Plain err, d'))"
| "dc_call s (C_Transmit t i c p n) d =
     (let (err, p', d') = dc_VCI_Transmit s t i c p n d in (R_Objs err p', d'))"
| "dc_call s (C_Receive t i c p n w) d =
     (let (err, p', d') = dc_VCI_Receive s t i c p n w d in (R_Objs err p', d'))"

fun dc2_call :: "'d direct_can2 \<Rightarrow> vci_call \<Rightarrow> 'd \<Rightarrow> vci_reply \<times> 'd" where
  "dc2_call s (C_ReadBoardInfo t i p) d =
     (let (err, p', d') = dc2_VCI_ReadBoardInfo s t i p d in (R_Board err p', d'))"
| "dc2_call s (C_InitCAN t i c p) d =
     (let (err, p', d') = dc2_VCI_InitCAN s t i c p d in (R_Config err p', d'))"
| "dc2_call s (C_ReadErrInfo t i c p) d =
     (let (err, p', d') = dc2_VCI_ReadErrInfo s t i c p d in (R_Err err p', d'))"
| "dc2_call s (C_ReadCANStatus t i c p) d =
     (let (err, p', d') = dc2_VCI_ReadCANStatus s t i c p d in (R_Status err p', d'))"
| "dc2_call s (C_GetReference t i c k p) d =
     (let (err, p', d') = dc2_VCI_GetReference s t i c k p d in (R_Ref err p', d'))"
| "dc2_call s (C_SetReference t i c k p) d =
     (let (err, p', d') = dc2_VCI_SetReference s t i c k p d in (R_Ref err p', d'))"
| "dc2_call s (C_GetReceiveNum t i c) d =
     (let (err, d') = dc2_VCI_GetReceiveNum s t i c d in (R_Plain err, d'))"
| "dc2_call s (C_ClearBuffer t i c) d =
     (let (err, d') = dc2_VCI_ClearBuffer s t i c d in (R_Plain err, d'))"
| "dc2_call s (C_StartCAN t i c) d =
     (let (err, d') = dc2_VCI_StartCAN s t i c d in (R_Plain err, d'))"
| "dc2_call s (C_ResetCAN t i c) d =
     (let (err, d') = dc2_VCI_ResetCAN s t i c d in (R_Plain err, d'))"
| "dc2_call s (C_Transmit t i c p n) d =
     (let (err, p', d') = dc2_VCI_Transmit s t i c p n d in (R_Objs err p', d'))"
| "dc2_call s (C_Receive t i c p n w) d =
     (let (err, p', d') = dc2_VCI_Receive s t i c p n w d in (R_Objs err p', d'))"

lemmas dc_defs = 
  dc_VCI_ReadBoardInfo_def dc_VCI_InitCAN_def dc_VCI_ReadErrInfo_def
  dc_VCI_ReadCANStatus_def dc_VCI_GetReference_def dc_VCI_SetReference_def
  dc_VCI_GetReceiveNum_def dc_VCI_ClearBuffer_def dc_VCI_StartCAN_def dc_VCI_ResetCAN_def
  dc_VCI_Transmit_def dc_VCI_Receive_def

lemmas dc2_defs =
  dc2_VCI_ReadBoardInfo_def dc2_VCI_InitCAN_def dc2_VCI_ReadErrInfo_def
  dc2_VCI_ReadCANStatus_def dc2_VCI_GetReference_def dc2_VCI_SetReference_def
  dc2_VCI_GetReceiveNum_def dc2_VCI_ClearBuffer_def dc2_VCI_StartCAN_def
  dc2_VCI_ResetCAN_def dc2_VCI_Transmit_def dc2_VCI_Receive_def

interpretation dc: vci_router lib_map dc_call
proof
  fix s :: "'d direct_can" and c lib d
  assume "lib_map s (call_type c) = Some lib"
  then show "dc_call s c d = drv_call lib c d" by (cases c) (simp_all add: dc_defs)
next
  fix s :: "'d direct_can" and c d
  assume "lib_map s (call_type c) = None"
  then show "dc_call s c d = (refused c, d)" by (cases c) (simp_all add: dc_defs status_defs)
qed

interpretation dc2: vci_router dc2_route dc2_call
proof
  fix s :: "'d direct_can2" and c lib d
  assume "dc2_route s (call_type c) = Some lib"
  then show "dc2_call s c d = drv_call lib c d" by (cases c) (simp_all add: dc2_defs)
next
  fix s :: "'d direct_can2" and c d
  assume "dc2_route s (call_type c) = None"
  then show "dc2_call s c d = (refused c, d)" by (cases c) (simp_all add: dc2_defs status_defs)
qed

section \<open>Which driver serves a device type\<close>

text \<open>
  The entries of the table that name a driver: the key is a number and the file exists.
\<close>

fun candidates :: "'d host \<Rightarrow> (string \<times> string) list \<Rightarrow> (DWORD \<times> string) list" where
  "candidates h [] = []"
| "candidates h ((k, v) # kvs) =
     (case host_lex h k of
        Some type \<Rightarrow>
          (if host_exists h (host_join h (kerneldlls h) v)
           then (type, host_join h (kerneldlls h) v) # candidates h kvs else candidates h kvs)
      | None \<Rightarrow> candidates h kvs)"

definition loads :: "'d host \<Rightarrow> string \<Rightarrow> bool" where
  "loads h path \<longleftrightarrow> (\<exists>up. load_library_s h path = Inr up)"

text \<open>The library behind a path that loads.\<close>

definition loaded :: "'d host \<Rightarrow> string \<Rightarrow> 'd dll_load_dll_type option" where
  "loaded h path = (case load_library_s h path of Inl _ \<Rightarrow> None | Inr up \<Rightarrow> Some up)"

definition driver_map :: "'d host \<Rightarrow> (string \<times> string) list \<Rightarrow> DWORD \<rightharpoonup> 'd dll_load_dll_type" where
  "driver_map h kvs t = Option.bind (map_of (candidates h kvs) t) (loaded h)"

lemma loads_loaded: "load_library_s h path = Inr up \<Longrightarrow> loads h path \<and> loaded h path = Some up"
  by (simp add: loads_def loaded_def)

lemma load_cases: "loads h path \<or> load_library_s h path = Inl Exception"
  using dll_load_cases [of "host_load h" path] by (auto simp: loads_def load_library_s_def)

lemma load_fails: "\<not> loads h path \<Longrightarrow> load_library_s h path = Inl Exception"
  using load_cases by blast

lemma dc_scan_spec:
  "dc_scan h kvs s =
     (if list_all (\<lambda>(t, p). loads h p) (candidates h kvs)
      then Inr \<lparr>lib_map = driver_map h kvs ++ lib_map s\<rparr>
      else Inl Exception)"
proof (induction h kvs s rule: dc_scan.induct)
  case (1 h s)
  have "driver_map h [] = Map.empty" by (simp add: fun_eq_iff driver_map_def)
  then show ?case by (cases s) simp
next
  case (2 h k v kvs s)
  let ?p = "host_join h (kerneldlls h) v"
  show ?case
  proof (cases "host_lex h k")
    case None
    then have "driver_map h ((k, v) # kvs) = driver_map h kvs" by (simp add: fun_eq_iff driver_map_def)
    then show ?thesis using None 2(1) by simp
  next
    case (Some type)
    show ?thesis
    proof (cases "host_exists h ?p \<and> loads h ?p")
      case True
      then obtain up where up: "load_library_s h ?p = Inr up" by (auto simp: loads_def)
      note IH = 2(3) [OF Some refl, of up]
      have "driver_map h ((k, v) # kvs) = (driver_map h kvs)(type \<mapsto> up)"
        using Some True loads_loaded [OF up] by (simp add: fun_eq_iff driver_map_def)
      moreover have "lib_map s type = Some l \<Longrightarrow>
          (driver_map h kvs)(type \<mapsto> up) ++ lib_map s = driver_map h kvs ++ lib_map s" for l
        by (auto simp: fun_eq_iff map_add_def split: option.split)
      moreover have "lib_map s type = None \<Longrightarrow>
          (driver_map h kvs)(type \<mapsto> up) ++ lib_map s = driver_map h kvs ++ (lib_map s)(type \<mapsto> up)"
        by (auto simp: fun_eq_iff map_add_def split: option.split)
      ultimately show ?thesis
        using Some True up IH by (cases "lib_map s type") auto
    next
      case False
      show ?thesis
      proof (cases "host_exists h ?p")
        case True
        then show ?thesis using False Some load_fails [of h ?p] by auto
      next
        case nx: False
        then have "driver_map h ((k, v) # kvs) = driver_map h kvs"
          using Some by (simp add: fun_eq_iff driver_map_def)
        then show ?thesis using nx Some 2(2) by simp
      qed
    qed
  qed
qed

lemma dc2_scan_spec:
  "dc2_scan h t kvs s =
     (case map_of (candidates h kvs) t of
        None \<Rightarrow> Inr s
      | Some p \<Rightarrow> and_then (load_library_s h p) (\<lambda>up. Inr (s\<lparr>dc2_dev_type := Some t, dc2_lib := Some up\<rparr>)))"
  by (induction h t kvs s rule: dc2_scan.induct) (auto split: option.split)

lemma dc2_route_reset [simp]: "dc2_route (s\<lparr>dc2_dev_type := None, dc2_lib := l\<rparr>) t = None"
  by (simp add: dc2_route_def)

lemma map_of_list_all: "list_all (\<lambda>(t, p). P p) ps \<Longrightarrow> map_of ps t = Some p \<Longrightarrow> P p"
  by (auto simp: list_all_iff dest: map_of_SomeD)

lemma kernel_section_text:
  assumes "host_exists h (kerneldll_ini h)" and "host_text h (kerneldll_ini h) = Some contents"
    and "list_all short_line (lines_of contents)" and "\<not> is_bom (host_uchar h) contents"
    and "parse_lines (new_ini (source_file (kerneldll_ini h))) (lines_of contents) = Inr i"
    and "ini_view i ''KERNELDLL'' = Some m"
  shows "kernel_section h = Some (Inr (Some (host_order h m)))"
proof -
  obtain a where a: "ini_sections i ''KERNELDLL'' = Some a" "ini_heap i a = m"
    using assms(6) by (auto simp: ini_view_def)
  have "parse_stream (host_uchar h) (new_ini (source_file (kerneldll_ini h))) contents = Some (Inr i)"
    using parse_loop_lines [OF assms(3), of True "host_uchar h"] assms(4,5) by (simp add: parse_stream_def)
  then show ?thesis
    using assms(1,2) a by (simp add: kernel_section_def Ini_file_def parse_source_def ini_subscript_def)
qed

lemma open_agrees:
  assumes "CanImpDirectCan h = Some (Inr s)" and "dc_VCI_OpenDevice s t ind reserved d = (ret, d')"
  shows "\<exists>s2'. dc2_VCI_OpenDevice h s2 t ind reserved d = Some (Inr (ret, s2', d'))
     \<and> (\<forall>t'. dc2_route s2' t' = (if t' = t then lib_map s t else None))"
proof -
  obtain sec where sec: "kernel_section h = Some (Inr sec)"
    using assms(1) by (auto simp: CanImpDirectCan_def and_then_Inr_iff)
  show ?thesis
  proof (cases sec)
    case None
    then show ?thesis
      using assms sec
      by (auto simp: CanImpDirectCan_def dc2_VCI_OpenDevice_def dc_VCI_OpenDevice_def dc2_route_def)
  next
    case (Some kvs)
    then have all: "list_all (\<lambda>(t, p). loads h p) (candidates h kvs)" and s: "s = \<lparr>lib_map = driver_map h kvs\<rparr>"
      using assms(1) sec by (auto simp: CanImpDirectCan_def dc_scan_spec split: if_splits)
    show ?thesis
    proof (cases "map_of (candidates h kvs) t")
      case None
      then show ?thesis
        using assms(2) sec Some s
        by (auto simp: dc2_VCI_OpenDevice_def dc_VCI_OpenDevice_def dc2_route_def dc2_scan_spec driver_map_def)
    next
      case p: (Some p)
      obtain up where up: "load_library_s h p = Inr up"
        using map_of_list_all [OF all p] by (auto simp: loads_def)
      then have "lib_map s t = Some up" using p s by (simp add: driver_map_def loaded_def)
      then show ?thesis
        using assms(2) sec Some p up
        by (auto simp: dc2_VCI_OpenDevice_def dc_VCI_OpenDevice_def dc2_route_def dc2_scan_spec)
    qed
  qed
qed

section \<open>A concrete host\<close>

text \<open>
  A host with one driver, used to evaluate the properties: the driver counts the calls it
  gets and answers each with 1.
\<close>

definition counting_dll :: "nat shared_library" where
  "counting_dll = \<lparr>sym_OpenDevice = Some (\<lambda>_ _ _ d. (1, Suc d)), sym_CloseDevice = Some (\<lambda>_ _ d. (1, Suc d)),
     sym_ResetCAN = Some (\<lambda>_ _ _ d. (1, Suc d)), sym_InitCAN = Some (\<lambda>_ _ _ p d. (1, p, Suc d)),
     sym_ReadBoardInfo = Some (\<lambda>_ _ p d. (1, p, Suc d)), sym_ReadErrInfo = Some (\<lambda>_ _ _ p d. (1, p, Suc d)),
     sym_ReadCANStatus = Some (\<lambda>_ _ _ p d. (1, p, Suc d)),
     sym_GetReference = Some (\<lambda>_ _ _ _ p d. (1, p, Suc d)),
     sym_SetReference = Some (\<lambda>_ _ _ _ p d. (1, p, Suc d)), sym_GetReceiveNum = Some (\<lambda>_ _ _ d. (1, Suc d)),
     sym_ClearBuffer = Some (\<lambda>_ _ _ d. (1, Suc d)), sym_StartCAN = Some (\<lambda>_ _ _ d. (1, Suc d)),
     sym_Transmit = Some (\<lambda>_ _ _ p _ d. (1, p, Suc d)), sym_Receive = Some (\<lambda>_ _ _ p _ _ d. (1, p, Suc d))\<rparr>"

definition sample_host :: "nat host" where
  "sample_host = \<lparr>host_readlink = Some ''/x/app'', host_parent = (\<lambda>_. ''/x''),
     host_join = (\<lambda>a b. a @ ''/'' @ b),
     host_exists = (\<lambda>p. p \<in> {''/x/kerneldlls/kerneldll.ini'', ''/x/kerneldlls/usb.so''}),
     host_text = (\<lambda>_. Some (''[KERNELDLL]'' @ [LF] @ ''4=usb.so'')),
     host_load = (\<lambda>_. Some counting_dll), host_lex = (\<lambda>k. if k = ''4'' then Some 4 else None),
     host_order = (\<lambda>m. case m ''4'' of None \<Rightarrow> [] | Some v \<Rightarrow> [(''4'', v)]), host_uchar = False\<rparr>"

lemma sample_fields [simp]:
  "host_join sample_host a b = a @ ''/'' @ b"
  "host_exists sample_host p \<longleftrightarrow> p \<in> {''/x/kerneldlls/kerneldll.ini'', ''/x/kerneldlls/usb.so''}"
  "host_text sample_host p = Some (''[KERNELDLL]'' @ [LF] @ ''4=usb.so'')"
  "host_load sample_host p = Some counting_dll"
  "host_lex sample_host k = (if k = ''4'' then Some 4 else None)"
  "host_order sample_host m = (case m ''4'' of None \<Rightarrow> [] | Some v \<Rightarrow> [(''4'', v)])"
  "\<not> host_uchar sample_host"
  by (simp_all add: sample_host_def)

lemma sample_paths [simp]:
  "kerneldll_ini sample_host = ''/x/kerneldlls/kerneldll.ini''" "kerneldlls sample_host = ''/x/kerneldlls''"
  by (simp_all add: kerneldll_ini_def kerneldlls_def sample_host_def)

lemma sample_section: "kernel_section sample_host = Some (Inr (Some [(''4'', ''usb.so'')]))"
proof -
  let ?t = "''[KERNELDLL]'' @ [LF] @ ''4=usb.so''"
  have l: "lines_of ?t = [''[KERNELDLL]'', ''4=usb.so'']" by (simp add: lines_of_def)
  have sec: "parse_line i ''[KERNELDLL]'' =
      Inr (i\<lparr>ini_heap := (ini_heap i)(ini_next i := Map.empty), ini_next := Suc (ini_next i),
        ini_current := Addr (ini_next i), ini_sections := (ini_sections i)(''KERNELDLL'' \<mapsto> ini_next i)\<rparr>)" for i
    using parse_section_line [of "''KERNELDLL''" i] by (simp add: good_name_def FINI_BUFFER_SIZE_def)
  have ent: "parse_line i ''4=usb.so'' = assign i ''4'' ''usb.so''" for i
    using parse_entry_line [of "''4''" "''usb.so''" i]
    by (simp add: entry_line_def good_entry_def isspace_def FINI_BUFFER_SIZE_def)
  have "\<exists>i. parse_lines (new_ini (source_file (kerneldll_ini sample_host))) (lines_of ?t) = Inr i
      \<and> ini_view i ''KERNELDLL'' = Some [''4'' \<mapsto> ''usb.so'']"
    unfolding l by (simp add: sec ent assign_def new_ini_def ini_view_def)
  then obtain i where
    i: "parse_lines (new_ini (source_file (kerneldll_ini sample_host))) (lines_of ?t) = Inr i"
      "ini_view i ''KERNELDLL'' = Some [''4'' \<mapsto> ''usb.so'']" by blast
  have "list_all short_line (lines_of ?t)" unfolding l by (simp add: short_line_def FINI_BUFFER_SIZE_def)
  from kernel_section_text [OF _ _ this _ i] show ?thesis by (simp add: is_bom_def)
qed

lemma sample_loads: "loads sample_host p"
  using dll_load_ok_iff [of "host_load sample_host" p]
  by (simp add: loads_def load_library_s_def counting_dll_def all_symbols_def)

lemma sample_candidates: "candidates sample_host [(''4'', ''usb.so'')] = [(4, ''/x/kerneldlls/usb.so'')]"
  by simp

lemma counting_lib:
  assumes "dll_ctor (\<lambda>_. Some counting_dll) p = Inr lib"
  shows "fOpenDevice lib t i c d = (1, Suc d)" "fStartCan lib t i c d = (1, Suc d)"
    "fResetCan lib t i c d = (1, Suc d)"
  using assms by (auto simp: dll_ctor_def counting_dll_def)

lemma sample_DC:
  "\<exists>s lib. CanImpDirectCan sample_host = Some (Inr s) \<and> lib_map s 4 = Some lib
     \<and> dll_ctor (\<lambda>_. Some counting_dll) ''/x/kerneldlls/usb.so'' = Inr lib"
proof -
  have "host_load sample_host = (\<lambda>_. Some counting_dll)" by (simp add: fun_eq_iff)
  then obtain lib where lib: "load_library_s sample_host ''/x/kerneldlls/usb.so'' = Inr lib"
    "dll_ctor (\<lambda>_. Some counting_dll) ''/x/kerneldlls/usb.so'' = Inr lib"
    using sample_loads [of "''/x/kerneldlls/usb.so''"] by (auto simp: loads_def load_library_s_def)
  then show ?thesis
    using sample_loads
    by (auto simp: CanImpDirectCan_def sample_section dc_scan_spec driver_map_def sample_candidates
        loaded_def simp del: dc_scan.simps candidates.simps)
qed

section \<open>Properties\<close>

text \<open>
  C16: which drivers the eager backend ends up with. If every configured driver that exists
  loads, each device type is served by the first entry for it in the iteration order of
  the table; if one of them does not load, the constructor throws, also for the devices
  whose drivers are fine.
\<close>

theorem direct_can_driver_map:
  assumes "kernel_section h = Some (Inr (Some kvs))"
  shows "CanImpDirectCan h =
     Some (if list_all (\<lambda>(t, p). loads h p) (candidates h kvs) then Inr \<lparr>lib_map = driver_map h kvs\<rparr>
           else Inl Exception)"
  using assms by (simp add: CanImpDirectCan_def dc_scan_spec)

theorem direct_can_driver_map_witness:
  "CanImpDirectCan sample_host = Some (Inr \<lparr>lib_map = driver_map sample_host [(''4'', ''usb.so'')]\<rparr>)"
  using direct_can_driver_map [OF sample_section] sample_loads
  by (simp add: sample_candidates del: candidates.simps)

text \<open>
  C14: the lazy backend agrees with the eager one. Where the eager backend can be
  constructed, opening a device through the lazy one returns, gives the same result and
  the same driver state as opening it through the eager one, and afterwards exactly this
  device type is routed, to the same driver.
\<close>

theorem direct_can2_open_agrees:
  assumes "CanImpDirectCan h = Some (Inr s)" and "dc_VCI_OpenDevice s t ind reserved d = (ret, d')"
  shows "\<exists>s2'. dc2_VCI_OpenDevice h s2 t ind reserved d = Some (Inr (ret, s2', d'))
     \<and> (\<forall>t'. dc2_route s2' t' = (if t' = t then lib_map s t else None))"
  using assms by (rule open_agrees)

theorem direct_can2_open_agrees_witness:
  "\<exists>s s2'. CanImpDirectCan sample_host = Some (Inr s)
     \<and> dc2_VCI_OpenDevice sample_host CanImpDirectCan2 7 0 0 5 = Some (Inr (STATUS_ERR, s2', 5))
     \<and> dc2_route s2' 7 = lib_map s 7"
proof -
  obtain s where s: "CanImpDirectCan sample_host = Some (Inr s)" using sample_DC by blast
  moreover have "s = \<lparr>lib_map = driver_map sample_host [(''4'', ''usb.so'')]\<rparr>"
    using s sample_loads by (simp add: CanImpDirectCan_def sample_section dc_scan_spec sample_candidates
        del: dc_scan.simps candidates.simps)
  then have "dc_VCI_OpenDevice s 7 0 0 5 = (STATUS_ERR, 5)"
    by (simp add: dc_VCI_OpenDevice_def driver_map_def sample_candidates del: candidates.simps)
  ultimately show ?thesis
    using direct_can2_open_agrees [OF s, of 7 0 0 5 STATUS_ERR 5 CanImpDirectCan2] by auto
qed

text \<open>
  C15: a session on a direct backend is a session on the driver. Any sequence of calls for a
  routed device type gives, through either backend, the driver's own replies in order and
  the driver's own final state.
\<close>

theorem direct_session_is_driver_session:
  assumes "lib_map s t = Some lib" and "dc2_route s2 t = Some lib" and "list_all (\<lambda>c. call_type c = t) cs"
  shows "vci_run (dc_call s) cs d = vci_run (drv_call lib) cs d
     \<and> vci_run (dc2_call s2) cs d = vci_run (drv_call lib) cs d"
proof
  show "vci_run (dc_call s) cs d = vci_run (drv_call lib) cs d"
    by (rule dc.run_routed) (use assms in \<open>auto simp: list_all_iff\<close>)
  show "vci_run (dc2_call s2) cs d = vci_run (drv_call lib) cs d"
    by (rule dc2.run_routed) (use assms in \<open>auto simp: list_all_iff\<close>)
qed

theorem direct_session_is_driver_session_witness:
  "\<exists>lib. vci_run (dc2_call \<lparr>dc2_dev_type = Some 4, dc2_lib = Some lib\<rparr>) [C_StartCAN 4 0 0, C_ResetCAN 4 0 0] (0 :: nat)
     = ([R_Plain 1, R_Plain 1], 2)"
proof -
  obtain lib where lib: "dll_ctor (\<lambda>_. Some counting_dll) ''usb.so'' = Inr lib"
    using dll_load_ok_iff [of "\<lambda>_. Some counting_dll" "''usb.so''"] by (auto simp: all_symbols_def counting_dll_def)
  then have "vci_run (drv_call lib) [C_StartCAN 4 0 0, C_ResetCAN 4 0 0] 0 = ([R_Plain 1, R_Plain 1], 2)"
    by (simp add: counting_lib)
  moreover have "vci_run (dc2_call \<lparr>dc2_dev_type = Some 4, dc2_lib = Some lib\<rparr>)
      [C_StartCAN 4 0 0, C_ResetCAN 4 0 0] 0 = vci_run (drv_call lib) [C_StartCAN 4 0 0, C_ResetCAN 4 0 0] 0"
    by (rule direct_session_is_driver_session [of "\<lparr>lib_map = [4 \<mapsto> lib]\<rparr>" 4 lib, THEN conjunct2])
      (simp_all add: dc2_route_def)
  ultimately show ?thesis by metis
qed

text \<open>
  C37: closing. After \<open>VCI_CloseDevice\<close> of the lazy backend every further call is refused
  and reaches no driver, whichever device type was named; if it was not the type that is
  open, the call fails and the driver that is open is dropped without its
  \<open>VCI_CloseDevice\<close> being called.
\<close>

theorem direct_can2_close_releases:
  assumes "dc2_VCI_CloseDevice s t ind d = (ret, s', d')"
  shows "vci_run (dc2_call s') cs d' = (map refused cs, d')
     \<and> (dc2_route s t = None \<longrightarrow> ret = STATUS_ERR \<and> d' = d)
     \<and> (dc2_route s t = Some lib \<longrightarrow> (ret, d') = fCloseDevice lib t ind d)"
proof -
  have "dc2_route s' t' = None" for t'
    using assms by (auto simp: dc2_VCI_CloseDevice_def split: option.splits prod.splits)
  then have "vci_run (dc2_call s') cs d' = (map refused cs, d')"
    by (intro dc2.run_unrouted) (simp add: list_all_iff)
  then show ?thesis
    using assms by (auto simp: dc2_VCI_CloseDevice_def split: option.splits prod.splits)
qed

theorem direct_can2_close_releases_witness:
  "\<forall>lib. \<exists>s' d'. dc2_VCI_CloseDevice \<lparr>dc2_dev_type = Some 4, dc2_lib = Some lib\<rparr> 5 0 (7 :: nat) = (STATUS_ERR, s', d')
     \<and> vci_run (dc2_call s') [C_StartCAN 4 0 0] d' = ([R_Plain 0], 7)"
proof
  fix lib :: "nat dll_load_dll_type"
  let ?s = "\<lparr>dc2_dev_type = Some 4, dc2_lib = Some lib\<rparr>"
  obtain ret s' d' where r: "dc2_VCI_CloseDevice ?s 5 0 7 = (ret, s', d')" by (metis prod_cases3)
  have "dc2_route ?s 5 = None" by (simp add: dc2_route_def)
  with direct_can2_close_releases [OF r, of "[C_StartCAN 4 0 0]"] r
  show "\<exists>s' d'. dc2_VCI_CloseDevice ?s 5 0 7 = (STATUS_ERR, s', d')
     \<and> vci_run (dc2_call s') [C_StartCAN 4 0 0] d' = ([R_Plain 0], 7)" by auto
qed

end
