(* ===== verification/Lib_Control_Can.thy ===== *)
theory Lib_Control_Can
  imports Direct_Can Can_Net
begin

text \<open>
  libControlCAN/src/lib_control_can.cc: the class CanAbstract, which owns one backend
  behind the interface CanImpInterface and dispatches the calls of the C interface to it,
  and the exported functions on the one global object.

  The network backend reads and writes the caller's array of objects as bytes, so a call
  converts the array to its object representation and back. What boost::asio does during
  one call of the library (name resolution and the runs of \<open>Can_Net\<close>) is a record
  \<open>net_runs\<close>.
\<close>

section \<open>The backends behind the interface\<close>

datatype 'd can_imp = ImpNet can_net | ImpDC2 "'d direct_can2"

record net_runs =
  run_resolve :: "string \<Rightarrow> string \<Rightarrow> bool"
  run_connect :: "net_event list"
  run_write :: "net_event list"
  run_writes :: "nat \<Rightarrow> net_event list"
  run_read :: "net_event list"

definition objs_bytes :: "VCI_CAN_OBJ list \<Rightarrow> BYTE list" where
  "objs_bytes objs = concat (map can_obj_bytes objs)"

fun bytes_objs :: "nat \<Rightarrow> BYTE list \<Rightarrow> VCI_CAN_OBJ list" where
  "bytes_objs 0 bs = []"
| "bytes_objs (Suc n) bs = can_obj_of_bytes (take sizeof_can_obj bs) # bytes_objs n (drop sizeof_can_obj bs)"

text \<open>The virtual calls on a network backend.\<close>

fun net_call :: "net_runs \<Rightarrow> can_net \<Rightarrow> vci_call \<Rightarrow> (vci_reply \<times> can_net) res" where
  "net_call w s (C_ReadBoardInfo t i p) = Inr (R_Board (net_VCI_ReadBoardInfo s t i p) p, s)"
| "net_call w s (C_InitCAN t i c p) =
     and_then (net_VCI_InitCAN s t i c p (run_write w)) (\<lambda>(err, s'). Inr (R_Config err p, s'))"
| "net_call w s (C_ReadErrInfo t i c p) =
     and_then (net_VCI_ReadErrInfo s t i c p (run_write w)) (\<lambda>(err, s'). Inr (R_Err err p, s'))"
| "net_call w s (C_ReadCANStatus t i c p) = Inr (R_Status (net_VCI_ReadCANStatus s t i c p) p, s)"
| "net_call w s (C_GetReference t i c k p) = Inr (R_Ref (net_VCI_GetReference s t i c k p) p, s)"
| "net_call w s (C_SetReference t i c k p) = Inr (R_Ref (net_VCI_SetReference s t i c k p) p, s)"
| "net_call w s (C_GetReceiveNum t i c) = Inr (R_Plain (net_VCI_GetReceiveNum s t i c), s)"
| "net_call w s (C_ClearBuffer t i c) =
     and_then (net_VCI_ClearBuffer s t i c (run_write w)) (\<lambda>(err, s'). Inr (R_Plain err, s'))"
| "net_call w s (C_StartCAN t i c) =
     and_then (net_VCI_StartCAN s t i c (run_write w)) (\<lambda>(err, s'). Inr (R_Plain err, s'))"
| "net_call w s (C_ResetCAN t i c) =
     and_then (net_VCI_ResetCAN s t i c (run_write w)) (\<lambda>(err, s'). Inr (R_Plain err, s'))"
| "net_call w s (C_Transmit t i c p n) =
     and_then (net_VCI_Transmit s t i c p n (run_writes w)) (\<lambda>(err, s'). Inr (R_Objs err p, s'))"
| "net_call w s (C_Receive t i c p n wait) =
     and_then (net_VCI_Receive s t i c (map_option objs_bytes p) n wait (run_read w)) (\<lambda>(num, mem, s').
       Inr (R_Objs num (case p of None \<Rightarrow> None
                        | Some objs \<Rightarrow> map_option (bytes_objs (length objs)) mem), s'))"

fun imp_call :: "net_runs \<Rightarrow> 'd can_imp \<Rightarrow> vci_call \<Rightarrow> 'd \<Rightarrow> (vci_reply \<times> 'd can_imp \<times> 'd) res" where
  "imp_call w (ImpNet s) c d = and_then (net_call w s c) (\<lambda>(r, s'). Inr (r, ImpNet s', d))"
| "imp_call w (ImpDC2 s) c d = (let (r, d') = dc2_call s c d in Inr (r, ImpDC2 s, d'))"

fun imp_OpenDevice ::
  "'d host \<Rightarrow> net_runs \<Rightarrow> 'd can_imp \<Rightarrow> DWORD \<Rightarrow> DWORD \<Rightarrow> DWORD \<Rightarrow> 'd \<Rightarrow> (vciReturnType \<times> 'd can_imp \<times> 'd) res option" where
  "imp_OpenDevice h w (ImpNet s) t i r d =
     Some (and_then (net_VCI_OpenDevice (run_resolve w) s t i r (run_connect w) (run_write w))
             (\<lambda>(err, s'). Inr (err, ImpNet s', d)))"
| "imp_OpenDevice h w (ImpDC2 s) t i r d =
     map_option (\<lambda>x. and_then x (\<lambda>(err, s', d'). Inr (err, ImpDC2 s', d'))) (dc2_VCI_OpenDevice h s t i r d)"

fun imp_CloseDevice ::
  "net_runs \<Rightarrow> 'd can_imp \<Rightarrow> DWORD \<Rightarrow> DWORD \<Rightarrow> 'd \<Rightarrow> (vciReturnType \<times> 'd can_imp \<times> 'd) res" where
  "imp_CloseDevice w (ImpNet s) t i d =
     and_then (net_VCI_CloseDevice s t i (run_write w)) (\<lambda>(err, s'). Inr (err, ImpNet s', d))"
| "imp_CloseDevice w (ImpDC2 s) t i d = (let (err, s', d') = dc2_VCI_CloseDevice s t i d in Inr (err, ImpDC2 s', d'))"

section \<open>CanAbstract\<close>

record 'd can_abstract =
  abs_imp :: "'d can_imp option"     \<comment> \<open>\<open>can_imp_\<close>\<close>

definition CanAbstract :: "'d can_abstract" where
  "CanAbstract = \<lparr>abs_imp = None\<rparr>"

text \<open>Opening through the backend in \<open>imp\<close>, with the result stored back.\<close>

definition open_with ::
  "'d host \<Rightarrow> net_runs \<Rightarrow> 'd can_imp \<Rightarrow> DWORD \<Rightarrow> DWORD \<Rightarrow> DWORD \<Rightarrow> 'd \<Rightarrow> (vciReturnType \<times> 'd can_abstract \<times> 'd) res option" where
  "open_with h w imp t i r d =
     map_option (\<lambda>x. and_then x (\<lambda>(err, imp', d'). Inr (err, \<lparr>abs_imp = Some imp'\<rparr>, d'))) (imp_OpenDevice h w imp t i r d)"

definition can_VCI_DeirectOpenCan ::
  "'d host \<Rightarrow> net_runs \<Rightarrow> 'd can_abstract \<Rightarrow> DWORD \<Rightarrow> DWORD \<Rightarrow> DWORD \<Rightarrow> 'd \<Rightarrow> (vciReturnType \<times> 'd can_abstract \<times> 'd) res option" where
  "can_VCI_DeirectOpenCan h w a deviceType deviceInd reserved d =
     (let imp = (case abs_imp a of None \<Rightarrow> ImpDC2 CanImpDirectCan2 | Some imp \<Rightarrow> imp)
      in open_with h w imp deviceType deviceInd reserved d)"

definition can_VCI_OpenNetCan ::
  "'d host \<Rightarrow> net_runs \<Rightarrow> 'd can_abstract \<Rightarrow> DWORD \<Rightarrow> DWORD \<Rightarrow> DWORD \<Rightarrow> 'd \<Rightarrow> (vciReturnType \<times> 'd can_abstract \<times> 'd) res option" where
  "can_VCI_OpenNetCan h w a deviceType deviceInd reserved d =
     (case abs_imp a of
        Some imp \<Rightarrow> open_with h w imp deviceType deviceInd reserved d
      | None \<Rightarrow>
          (case CanImpCanNet h of
             None \<Rightarrow> None
           | Some (Inl e) \<Rightarrow> Some (Inl e)
           | Some (Inr n) \<Rightarrow> open_with h w (ImpNet n) deviceType deviceInd reserved d))"

text \<open>\<open>VCI_OpenDevice\<close> always starts with a new network backend and falls back to the direct one.\<close>

definition can_VCI_OpenDevice ::
  "'d host \<Rightarrow> net_runs \<Rightarrow> 'd can_abstract \<Rightarrow> DWORD \<Rightarrow> DWORD \<Rightarrow> DWORD \<Rightarrow> 'd \<Rightarrow> (vciReturnType \<times> 'd can_abstract \<times> 'd) res option" where
  "can_VCI_OpenDevice h w a deviceType deviceInd reserved d =
     (case CanImpCanNet h of
        None \<Rightarrow> None
      | Some (Inl e) \<Rightarrow> Some (Inl e)
      | Some (Inr n) \<Rightarrow>
          (case open_with h w (ImpNet n) deviceType deviceInd reserved d of
             None \<Rightarrow> None
           | Some (Inl e) \<Rightarrow> Some (Inl e)
           | Some (Inr (err, a1, d1)) \<Rightarrow>
               if STATUS_NET_CONN_FAIL = err
               then can_VCI_DeirectOpenCan h w (a1\<lparr>abs_imp := None\<rparr>) deviceType deviceInd reserved d1
               else Some (Inr (err, a1, d1))))"

definition can_VCI_CloseDevice ::
  "net_runs \<Rightarrow> 'd can_abstract \<Rightarrow> DWORD \<Rightarrow> DWORD \<Rightarrow> 'd \<Rightarrow> (vciReturnType \<times> 'd can_abstract \<times> 'd) res" where
  "can_VCI_CloseDevice w a deviceType deviceInd d =
     (case abs_imp a of
        Some imp \<Rightarrow> and_then (imp_CloseDevice w imp deviceType deviceInd d) (\<lambda>(err, _, d'). Inr (err, a\<lparr>abs_imp := None\<rparr>, d'))
      | None \<Rightarrow> Inr (STATUS_ERR, a, d))"

text \<open>
  The other calls: without a backend they answer \<open>STATUS_ERR\<close> (or 0 objects), which is the
  answer \<open>refused\<close>.
\<close>

definition can_call :: "net_runs \<Rightarrow> 'd can_abstract \<Rightarrow> vci_call \<Rightarrow> 'd \<Rightarrow> (vci_reply \<times> 'd can_abstract \<times> 'd) res" where
  "can_call w a c d =
     (case abs_imp a of
        Some imp \<Rightarrow> and_then (imp_call w imp c d) (\<lambda>(r, imp', d'). Inr (r, a\<lparr>abs_imp := Some imp'\<rparr>, d'))
      | None \<Rightarrow> Inr (refused c, a, d))"

section \<open>The exported functions\<close>

text \<open>
  \<open>static_cast<DWORD>\<close> of the results; the state is that of the global object \<open>g_lib_cc\<close>.
\<close>

definition cast_ret :: "(vciReturnType \<times> 'd can_abstract \<times> 'd) res \<Rightarrow> (DWORD \<times> 'd can_abstract \<times> 'd) res" where
  "cast_ret x = and_then x (\<lambda>(err, a, d). Inr (to_DWORD err, a, d))"

definition VCI_OpenDevice where
  "VCI_OpenDevice h w g t i r d = map_option cast_ret (can_VCI_OpenDevice h w g t i r d)"

definition VCI_DeirectOpenCan where
  "VCI_DeirectOpenCan h w g t i r d = map_option cast_ret (can_VCI_DeirectOpenCan h w g t i r d)"

definition VCI_OpenNetCan where
  "VCI_OpenNetCan h w g t i r d = map_option cast_ret (can_VCI_OpenNetCan h w g t i r d)"

definition VCI_CloseDevice where
  "VCI_CloseDevice w g t i d = cast_ret (can_VCI_CloseDevice w g t i d)"

fun reply_DWORD :: "vci_reply \<Rightarrow> vci_reply" where
  "reply_DWORD (R_Plain e) = R_Plain (to_DWORD e)"
| "reply_DWORD (R_Board e p) = R_Board (to_DWORD e) p"
| "reply_DWORD (R_Config e p) = R_Config (to_DWORD e) p"
| "reply_DWORD (R_Err e p) = R_Err (to_DWORD e) p"
| "reply_DWORD (R_Status e p) = R_Status (to_DWORD e) p"
| "reply_DWORD (R_Ref e p) = R_Ref (to_DWORD e) p"
| "reply_DWORD (R_Objs e p) = R_Objs (to_DWORD e) p"

definition VCI_call :: "net_runs \<Rightarrow> 'd can_abstract \<Rightarrow> vci_call \<Rightarrow> 'd \<Rightarrow> (vci_reply \<times> 'd can_abstract \<times> 'd) res" where
  "VCI_call w g c d = and_then (can_call w g c d) (\<lambda>(r, a, d'). Inr (reply_DWORD r, a, d'))"

text \<open>A sequence of calls of a client, each with what asio does during it.\<close>

fun VCI_session :: "(net_runs \<times> vci_call) list \<Rightarrow> 'd can_abstract \<Rightarrow> 'd \<Rightarrow> (vci_reply list \<times> 'd can_abstract \<times> 'd) res" where
  "VCI_session [] g d = Inr ([], g, d)"
| "VCI_session ((w, c) # cs) g d =
     and_then (VCI_call w g c d) (\<lambda>(r, g1, d1).
     and_then (VCI_session cs g1 d1) (\<lambda>(rs, g2, d2). Inr (r # rs, g2, d2)))"

lemma reply_DWORD_id [simp]: "reply_DWORD r = r"
  by (cases r) (simp_all add: to_DWORD_def)

lemma cast_ret_id [simp]: "cast_ret x = x" "map_option cast_ret y = y"
proof -
  show c: "cast_ret x = x" for x :: "(vciReturnType \<times> 'd can_abstract \<times> 'd) res"
    by (cases x) (auto simp: cast_ret_def to_DWORD_def)
  show "map_option cast_ret y = y" by (cases y) (simp_all add: c)
qed

section \<open>Sessions on the direct backend\<close>

lemma VCI_call_direct:
  "VCI_call w \<lparr>abs_imp = Some (ImpDC2 s)\<rparr> c d =
     (let (r, d') = dc2_call s c d in Inr (r, \<lparr>abs_imp = Some (ImpDC2 s)\<rparr>, d'))"
  by (simp add: VCI_call_def can_call_def split: prod.split)

lemma VCI_session_direct:
  "VCI_session wcs \<lparr>abs_imp = Some (ImpDC2 s)\<rparr> d =
     (let (rs, d') = vci_run (dc2_call s) (map snd wcs) d in Inr (rs, \<lparr>abs_imp = Some (ImpDC2 s)\<rparr>, d'))"
  by (induction wcs arbitrary: d) (auto simp: VCI_call_direct split: prod.split)

lemma VCI_session_none:
  "VCI_session wcs \<lparr>abs_imp = None\<rparr> d = Inr (map refused (map snd wcs), \<lparr>abs_imp = None\<rparr>, d)"
  by (induction wcs) (auto simp: VCI_call_def can_call_def split: prod.split)

lemma net_unconfigured:
  assumes "\<not> host_exists h (host_join h (host_parent h (getexepath h)) ''control_can.ini'')"
  obtains n where "CanImpCanNet h = Some (Inr n)"
    "\<And>resolve t i r ces wes. net_VCI_OpenDevice resolve n t i r ces wes = Inr (STATUS_NET_CONN_FAIL, n)"
  using assms by (auto simp: CanImpCanNet_def net_VCI_OpenDevice_def intro!: that)

lemma open_direct_with:
  "open_with h w (ImpDC2 s) t i r d =
     map_option (\<lambda>x. and_then x (\<lambda>(err, s', d'). Inr (err, \<lparr>abs_imp = Some (ImpDC2 s')\<rparr>, d')))
       (dc2_VCI_OpenDevice h s t i r d)"
proof (cases "dc2_VCI_OpenDevice h s t i r d")
  case (Some x)
  then show ?thesis by (cases x) (auto simp: open_with_def)
qed (simp add: open_with_def)

lemma open_net:
  "open_with h w (ImpNet n) t i r d =
     Some (and_then (net_VCI_OpenDevice (run_resolve w) n t i r (run_connect w) (run_write w))
       (\<lambda>(err, n'). Inr (err, \<lparr>abs_imp = Some (ImpNet n')\<rparr>, d)))"
  by (cases "net_VCI_OpenDevice (run_resolve w) n t i r (run_connect w) (run_write w)") (auto simp: open_with_def)

lemma open_direct:
  assumes "\<not> host_exists h (host_join h (host_parent h (getexepath h)) ''control_can.ini'')"
  shows "VCI_OpenDevice h w g t i r d =
    map_option (\<lambda>x. and_then x (\<lambda>(err, s', d'). Inr (err, \<lparr>abs_imp = Some (ImpDC2 s')\<rparr>, d')))
      (dc2_VCI_OpenDevice h CanImpDirectCan2 t i r d)"
proof -
  obtain n where "CanImpCanNet h = Some (Inr n)"
    "\<And>resolve t i r ces wes. net_VCI_OpenDevice resolve n t i r ces wes = Inr (STATUS_NET_CONN_FAIL, n)"
    using net_unconfigured [OF assms] by blast
  then show ?thesis
    by (simp add: VCI_OpenDevice_def can_VCI_OpenDevice_def open_net can_VCI_DeirectOpenCan_def open_direct_with)
qed

section \<open>Properties\<close>

text \<open>
  C13: the whole direct path. On a host without control_can.ini, if the configured drivers
  load and one serves the device type, then opening the device through the C interface and
  making any calls for it gives exactly what the driver gives: its answer to the opening,
  its replies to the calls in order, and its final state, whatever the network does.
\<close>

theorem api_direct_session_is_driver_session:
  assumes "\<not> host_exists h (host_join h (host_parent h (getexepath h)) ''control_can.ini'')"
    and "CanImpDirectCan h = Some (Inr s)" and "lib_map s t = Some lib"
    and "list_all (\<lambda>(w, c). call_type c = t) wcs"
    and "fOpenDevice lib t i r d = (ret, d1)" and "vci_run (drv_call lib) (map snd wcs) d1 = (rs, d2)"
  shows "\<exists>g1. VCI_OpenDevice h w g t i r d = Some (Inr (ret, g1, d1)) \<and> VCI_session wcs g1 d1 = Inr (rs, g1, d2)"
proof -
  have "dc_VCI_OpenDevice s t i r d = (ret, d1)" using assms(3,5) by (simp add: dc_VCI_OpenDevice_def)
  then obtain s2 where s2: "dc2_VCI_OpenDevice h CanImpDirectCan2 t i r d = Some (Inr (ret, s2, d1))"
    "dc2_route s2 t = Some lib"
    using open_agrees [OF assms(2), of t i r d ret d1 CanImpDirectCan2] assms(3) by auto
  have "VCI_OpenDevice h w g t i r d = Some (Inr (ret, \<lparr>abs_imp = Some (ImpDC2 s2)\<rparr>, d1))"
    using open_direct [OF assms(1)] s2(1) by simp
  moreover have "list_all (\<lambda>c. dc2_route s2 (call_type c) = Some lib) (map snd wcs)"
    using assms(4) s2(2) by (auto simp: list_all_iff)
  then have "VCI_session wcs \<lparr>abs_imp = Some (ImpDC2 s2)\<rparr> d1 = Inr (rs, \<lparr>abs_imp = Some (ImpDC2 s2)\<rparr>, d2)"
    using assms(6) by (simp add: VCI_session_direct dc2.run_routed)
  ultimately show ?thesis by blast
qed

definition quiet_runs :: net_runs where
  "quiet_runs = \<lparr>run_resolve = (\<lambda>_ _. False), run_connect = [], run_write = [], run_writes = (\<lambda>_. []), run_read = []\<rparr>"

theorem api_direct_session_is_driver_session_witness:
  "\<exists>g1. VCI_OpenDevice sample_host quiet_runs CanAbstract 4 0 0 0 = Some (Inr (1, g1, 1))
     \<and> VCI_session [(quiet_runs, C_StartCAN 4 0 0)] g1 1 = Inr ([R_Plain 1], g1, 2)"
proof -
  obtain s lib where s: "CanImpDirectCan sample_host = Some (Inr s)" "lib_map s 4 = Some lib"
      "dll_ctor (\<lambda>_. Some counting_dll) ''/x/kerneldlls/usb.so'' = Inr lib"
    using sample_DC by blast
  have "\<not> host_exists sample_host (host_join sample_host (host_parent sample_host (getexepath sample_host)) ''control_can.ini'')"
    by (simp add: sample_host_def)
  from api_direct_session_is_driver_session [OF this s(1,2), of "[(quiet_runs, C_StartCAN 4 0 0)]"]
  show ?thesis by (simp add: counting_lib [OF s(3)] numeral_2_eq_2 del: VCI_session.simps)
qed

text \<open>
  No backend, no effect. Before anything was opened, and after \<open>VCI_CloseDevice\<close>
  whatever it returns, every call is refused, and neither the drivers nor the library
  object change.
\<close>

theorem api_closed_refuses:
  assumes "VCI_CloseDevice w g t i d = Inr (ret, g1, d1)"
  shows "VCI_session wcs g1 d1 = Inr (map (\<lambda>(_, c). refused c) wcs, g1, d1)
     \<and> VCI_session wcs CanAbstract d = Inr (map (\<lambda>(_, c). refused c) wcs, CanAbstract, d)"
proof -
  have "g1 = \<lparr>abs_imp = None\<rparr>"
    using assms by (cases g) (auto simp: VCI_CloseDevice_def can_VCI_CloseDevice_def and_then_Inr_iff split: option.splits)
  moreover have "map (\<lambda>(_, c). refused c) wcs = map refused (map snd wcs)" by auto
  ultimately show ?thesis by (simp only: VCI_session_none CanAbstract_def)
qed

theorem api_closed_refuses_witness:
  "VCI_CloseDevice quiet_runs CanAbstract 4 0 (7 :: nat) = Inr (0, CanAbstract, 7)
   \<and> VCI_session [(quiet_runs, C_GetReceiveNum 4 0 0)] CanAbstract (7 :: nat) = Inr ([R_Plain 0], CanAbstract, 7)"
proof -
  have c: "VCI_CloseDevice quiet_runs CanAbstract 4 0 (7 :: nat) = Inr (0, CanAbstract, 7)"
    by (simp add: VCI_CloseDevice_def can_VCI_CloseDevice_def CanAbstract_def status_defs)
  show ?thesis using api_closed_refuses [OF c, of "[(quiet_runs, C_GetReceiveNum 4 0 0)]"] c by simp
qed

text \<open>
  \<open>VCI_OpenNetCan\<close> after a device was opened directly does not use the network: the
  existing backend is reused, and the device is opened through the driver.
\<close>

theorem api_open_net_reuses_direct:
  "VCI_OpenNetCan h w \<lparr>abs_imp = Some (ImpDC2 s)\<rparr> t i r d =
     map_option (\<lambda>x. and_then x (\<lambda>(err, s', d'). Inr (err, \<lparr>abs_imp = Some (ImpDC2 s')\<rparr>, d')))
       (dc2_VCI_OpenDevice h s t i r d)"
  by (simp add: VCI_OpenNetCan_def can_VCI_OpenNetCan_def open_direct_with)

end
