(* ===== verification/Can_Agent.thy ===== *)
theory Can_Agent
  imports Session Tick_Ext Lib_Control_Can
begin

text \<open>
  can_agent/main.cc, server.cc and session\_pool.cc: the agent opens the device through the
  library, publishes what it receives as text lines on the event queue, and serves the
  lines to every connected client, one session each.

  The readings of the clocks, the outcome of \<open>async_accept\<close> and what the library's
  environment does are arguments. The sessions alive are a map from session ids; the id
  stands for the shared pointer that the listener of the session holds.
\<close>

section \<open>Setting up the device\<close>

definition kDevtype :: DWORD where "kDevtype = 4"
definition kDevid :: DWORD where "kDevid = 0"
definition kChannel :: DWORD where "kChannel = 0"
definition kRxBuffSize :: DWORD where "kRxBuffSize = 100"

definition createVciInitCfg :: "UCHAR \<Rightarrow> UCHAR \<Rightarrow> DWORD \<Rightarrow> VCI_INIT_CONFIG" where
  "createVciInitCfg timing0 timing1 acc_mask =
     \<lparr>AccCode = 0, AccMask = acc_mask, cfg_Reserved = 0, Filter = 0, Timing0 = timing0, Timing1 = timing1, Mode = 0\<rparr>"

fun reply_ret :: "vci_reply \<Rightarrow> DWORD" where
  "reply_ret (R_Plain e) = e"
| "reply_ret (R_Board e _) = e"
| "reply_ret (R_Config e _) = e"
| "reply_ret (R_Err e _) = e"
| "reply_ret (R_Status e _) = e"
| "reply_ret (R_Ref e _) = e"
| "reply_ret (R_Objs e _) = e"

text \<open>\<open>CHECK(e != 0)\<close> aborts the process.\<close>

definition check_ret :: "DWORD \<Rightarrow> 'a \<Rightarrow> 'a res" where
  "check_ret e x = (if e \<noteq> 0 then Inr x else Inl Abort)"

definition checked_call :: "net_runs \<Rightarrow> vci_call \<Rightarrow> 'd can_abstract \<times> 'd \<Rightarrow> ('d can_abstract \<times> 'd) res" where
  "checked_call w c st =
     and_then (VCI_call w (fst st) c (snd st)) (\<lambda>(r, g, d). check_ret (reply_ret r) (g, d))"

definition can_rx_setup :: "'d host \<Rightarrow> net_runs \<Rightarrow> 'd can_abstract \<Rightarrow> 'd \<Rightarrow> ('d can_abstract \<times> 'd) res option" where
  "can_rx_setup h w g d =
     map_option (\<lambda>x.
       and_then x (\<lambda>(e, g1, d1).
       and_then (check_ret e (g1, d1)) (\<lambda>st1.
       and_then (checked_call w (C_InitCAN kDevtype kDevid kChannel (Some (createVciInitCfg 0 0x1C 0xFFFFFFFF))) st1) (\<lambda>st2.
       checked_call w (C_StartCAN kDevtype kDevid kChannel) st2))))
       (VCI_OpenDevice h w g kDevtype 0 0 d)"

section \<open>Publishing\<close>

record 'f publisher =
  pub_tick :: "'f tickExt"
  pub_buff :: CanobjQueueNodeT      \<comment> \<open>\<open>send_buff\<close>\<close>
  pub_count :: uint64               \<comment> \<open>\<open>send_count\<close>\<close>

text \<open>The readings for one line: the counter in \<open>getTick\<close>, and those of \<open>updateTick\<close>.\<close>

record clock_read =
  cr_tick :: uint64
  cr_update :: reading

definition line_args :: "uint64 \<Rightarrow> uint64 \<Rightarrow> VCI_CAN_OBJ \<Rightarrow> hexarg list" where
  "line_args count now obj =
     [CStr ''VCI_Receive,'', Pod (le_bytes 8 count), Pod (le_bytes 8 now), Pod (can_obj_bytes obj), CStr [LF]]"

definition publish :: "'f fp \<Rightarrow> clock_read \<Rightarrow> VCI_CAN_OBJ \<Rightarrow> 'f publisher \<times> lines_queue \<Rightarrow> ('f publisher \<times> lines_queue) res" where
  "publish F cr obj st =
     (let (p, q) = st;
          now = getTick F (cr_tick cr) (pub_tick p);
          te = updateTick F (cr_update cr) (pub_tick p)
      in and_then (bin2hex_fast (node_bytes (pub_buff p)) 0 (line_args (pub_count p) now obj)) (\<lambda>(buf, n).
           let node = \<lparr>node_bytes = buf, node_len = n\<rparr>
           in Inr (\<lparr>pub_tick = te, pub_buff = node, pub_count = pub_count p + 1\<rparr>, enqueue kPpqCanObjEvtId node q)))"

text \<open>The objects received in one call of \<open>VCI_Receive\<close>, up to the number it returned.\<close>

fun rx_loop :: "'f fp \<Rightarrow> (nat \<Rightarrow> clock_read) \<Rightarrow> VCI_CAN_OBJ list \<Rightarrow> nat \<Rightarrow> nat \<Rightarrow> 'f publisher \<times> lines_queue
    \<Rightarrow> ('f publisher \<times> lines_queue) res" where
  "rx_loop F clk can_rx_buff i 0 st = Inr st"
| "rx_loop F clk can_rx_buff i (Suc n) st =
     and_then (fetch can_rx_buff i) (\<lambda>obj.
     and_then (publish F (clk i) obj st) (rx_loop F clk can_rx_buff (Suc i) n))"

section \<open>Serving the lines to the sessions\<close>

text \<open>The listener of a session: \<open>consumeCanObjHandler\<close> bound to it.\<close>

definition serve :: "'q spsc \<Rightarrow> nat \<Rightarrow> CanobjQueueNodeT \<Rightarrow> (nat \<rightharpoonup> 'q session) \<Rightarrow> (nat \<rightharpoonup> 'q session)" where
  "serve B sid node ss = (case ss sid of None \<Rightarrow> ss | Some s \<Rightarrow> ss(sid \<mapsto> consumeCanObjHandler B node s))"

definition serving :: "'q spsc \<Rightarrow> nat \<Rightarrow> CanobjQueueNodeT \<Rightarrow> lines_queue \<times> (nat \<rightharpoonup> 'q session) \<Rightarrow> lines_queue \<times> (nat \<rightharpoonup> 'q session)" where
  "serving B sid node w = (fst w, serve B sid node (snd w))"

text \<open>One round of \<open>canRxFunc\<close>, after \<open>VCI_Receive\<close> has filled the buffer.\<close>

definition rx_round :: "'f fp \<Rightarrow> (nat \<Rightarrow> clock_read) \<Rightarrow> 'q spsc \<Rightarrow> ULONG \<Rightarrow> VCI_CAN_OBJ list
    \<Rightarrow> 'f publisher \<times> lines_queue \<times> (nat \<rightharpoonup> 'q session)
    \<Rightarrow> ('f publisher \<times> lines_queue \<times> (nat \<rightharpoonup> 'q session)) option res" where
  "rx_round F clk B frame_num can_rx_buff st =
     (let (p, q, ss) = st
      in and_then (rx_loop F clk can_rx_buff 0 (unat frame_num) (p, q)) (\<lambda>(p', q').
           Inr (map_option (\<lambda>(_, q'', ss'). (p', q'', ss')) (processIf (serving B) (\<lambda>_ _. frame_num > 0) (q', ss)))))"

text \<open>With the call of the library.\<close>

definition canRxFunc_round :: "'f fp \<Rightarrow> (nat \<Rightarrow> clock_read) \<Rightarrow> 'q spsc \<Rightarrow> net_runs \<Rightarrow> VCI_CAN_OBJ list
    \<Rightarrow> ('d can_abstract \<times> 'd) \<times> 'f publisher \<times> lines_queue \<times> (nat \<rightharpoonup> 'q session)
    \<Rightarrow> (('d can_abstract \<times> 'd) \<times> ('f publisher \<times> lines_queue \<times> (nat \<rightharpoonup> 'q session)) option) res" where
  "canRxFunc_round F clk B w can_rx_buff st =
     (let ((g, d), rest) = st
      in and_then (VCI_call w g (C_Receive kDevtype kDevid kChannel (Some can_rx_buff) kRxBuffSize 10) d) (\<lambda>(r, g', d').
           case r of
             R_Objs frame_num (Some objs) \<Rightarrow> and_then (rx_round F clk B frame_num objs rest) (\<lambda>x. Inr ((g', d'), x))
           | _ \<Rightarrow> Inl Null_Deref))"

text \<open>\<open>pubSimuFunc\<close>: ten objects that carry the running number.\<close>

definition simu_obj :: "uint64 \<Rightarrow> VCI_CAN_OBJ" where
  "simu_obj count =
     \<lparr>ID = 0, TimeStamp = 0, TimeFlag = 0, SendType = 0, RemoteFlag = 0, ExternFlag = 0, DataLen = 0,
      Data = le_bytes 8 count, obj_Reserved = [0, 0, 0]\<rparr>"

fun simu_loop :: "'f fp \<Rightarrow> (nat \<Rightarrow> clock_read) \<Rightarrow> nat \<Rightarrow> nat \<Rightarrow> 'f publisher \<times> lines_queue \<Rightarrow> ('f publisher \<times> lines_queue) res" where
  "simu_loop F clk i 0 st = Inr st"
| "simu_loop F clk i (Suc n) st =
     and_then (publish F (clk i) (simu_obj (pub_count (fst st))) st) (simu_loop F clk (Suc i) n)"

definition simu_round :: "'f fp \<Rightarrow> (nat \<Rightarrow> clock_read) \<Rightarrow> 'q spsc
    \<Rightarrow> 'f publisher \<times> lines_queue \<times> (nat \<rightharpoonup> 'q session)
    \<Rightarrow> ('f publisher \<times> lines_queue \<times> (nat \<rightharpoonup> 'q session)) option res" where
  "simu_round F clk B st =
     (let (p, q, ss) = st
      in and_then (simu_loop F clk 0 10 (p, q)) (\<lambda>(p', q').
           case process (serving B) (q', ss) of
             None \<Rightarrow> Inr None
           | Some (err, q'', ss') \<Rightarrow> if err then Inr (Some (p', q'', ss')) else Inl Abort))"

section \<open>The server\<close>

text \<open>
  The pool holds weak pointers, so it does not keep sessions alive; it is never pruned.
  \<open>accepting\<close>: an \<open>async_accept\<close> is outstanding.
\<close>

type_synonym session_pool = "nat list"

definition addToPool :: "nat \<Rightarrow> session_pool \<Rightarrow> session_pool" where
  "addToPool session pool = pool @ [session]"

definition getSession :: "(nat \<rightharpoonup> 'q session) \<Rightarrow> nat \<Rightarrow> session_pool \<Rightarrow> nat option res" where
  "getSession ss session pool =
     and_then (fetch pool session) (\<lambda>sid. Inr (if ss sid = None then None else Some sid))"

definition getSize :: "session_pool \<Rightarrow> nat" where
  "getSize pool = length pool"

record server =
  srv_session :: nat
  srv_pool :: session_pool
  srv_next :: nat
  srv_accepting :: bool

fun touch_sessions :: "(nat \<rightharpoonup> 'q session) \<Rightarrow> nat \<Rightarrow> nat \<Rightarrow> session_pool \<Rightarrow> unit res" where
  "touch_sessions ss i 0 pool = Inr ()"
| "touch_sessions ss i (Suc n) pool = and_then (getSession ss i pool) (\<lambda>_. touch_sessions ss (Suc i) n pool)"

definition startAccepting :: "'q spsc \<Rightarrow> server \<times> (nat \<rightharpoonup> 'q session) \<Rightarrow> (server \<times> (nat \<rightharpoonup> 'q session)) res" where
  "startAccepting B st =
     (let (srv, ss) = st; sid = srv_next srv; ss1 = ss(sid \<mapsto> Session B)
      in and_then (touch_sessions ss1 0 (getSize (srv_pool srv)) (srv_pool srv)) (\<lambda>_.
           Inr (srv\<lparr>srv_session := sid, srv_next := Suc sid, srv_accepting := True\<rparr>, ss1)))"

definition handleAccept :: "'q spsc \<Rightarrow> bool \<Rightarrow> server \<times> (nat \<rightharpoonup> 'q session) \<times> lines_queue
    \<Rightarrow> (server \<times> (nat \<rightharpoonup> 'q session) \<times> lines_queue) res" where
  "handleAccept B ec st =
     (let (srv, ss, q) = st
      in if ec then Inr (srv\<lparr>srv_accepting := False\<rparr>, ss, q)
         else case ss (srv_session srv) of
                None \<Rightarrow> Inl Null_Deref
              | Some s \<Rightarrow>
                  (let srv1 = srv\<lparr>srv_pool := addToPool (srv_session srv) (srv_pool srv)\<rparr>
                   in and_then (ses_start B (srv_session srv) (s, q)) (\<lambda>(s', q').
                      and_then (startAccepting B (srv1, ss(srv_session srv \<mapsto> s'))) (\<lambda>(srv2, ss2).
                        Inr (srv2, ss2, q')))))"

section \<open>The lines of the agent\<close>

definition agent_line :: "BYTE list \<times> VCI_CAN_OBJ \<Rightarrow> string" where
  "agent_line x = rx_line (fst x) (snd x) @ [LF]"

lemma line_args_text: "wire_text (line_args c now obj) = agent_line (le_bytes 8 c @ le_bytes 8 now, obj)"
  by (simp add: line_args_def agent_line_def rx_line_def cstr_def)

lemma agent_line_no_nul: "NUL \<notin> set (agent_line x)"
  using hex_text_no_ctrl(2) [of "fst x"] hex_text_no_ctrl(2) [of "can_obj_bytes (snd x)"]
  by (simp add: agent_line_def rx_line_def)

lemma length_agent_line: "length (fst x) = 16 \<Longrightarrow> wf_can_obj (snd x) \<Longrightarrow> length (agent_line x) = 93"
  by (simp add: agent_line_def rx_line_def length_can_obj_bytes)

text \<open>The running number and the time stamp of every line.\<close>

fun stamps :: "'f fp \<Rightarrow> (nat \<Rightarrow> clock_read) \<Rightarrow> nat \<Rightarrow> nat \<Rightarrow> 'f tickExt \<Rightarrow> uint64 list" where
  "stamps F clk i 0 te = []"
| "stamps F clk i (Suc n) te =
     getTick F (cr_tick (clk i)) te # stamps F clk (Suc i) n (updateTick F (cr_update (clk i)) te)"

fun numbered :: "uint64 \<Rightarrow> uint64 list \<Rightarrow> VCI_CAN_OBJ list \<Rightarrow> (BYTE list \<times> VCI_CAN_OBJ) list" where
  "numbered c (t # ts) (obj # objs) = (le_bytes 8 c @ le_bytes 8 t, obj) # numbered (c + 1) ts objs"
| "numbered c _ _ = []"

lemma cstr_terminated: "NUL \<notin> set xs \<Longrightarrow> cstr (xs @ NUL # ys) = xs"
  by (induction xs) (auto simp: cstr_def)

lemma publish_ok:
  assumes "wf_can_obj obj" and "length (node_bytes (pub_buff p)) = 256"
  shows "\<exists>node. publish F cr obj (p, q) =
       Inr (\<lparr>pub_tick = updateTick F (cr_update cr) (pub_tick p), pub_buff = node, pub_count = pub_count p + 1\<rparr>,
            enqueue kPpqCanObjEvtId node q)
     \<and> wf_node node \<and> length (node_bytes node) = 256
     \<and> node_line node = agent_line (le_bytes 8 (pub_count p) @ le_bytes 8 (getTick F (cr_tick cr) (pub_tick p)), obj)"
proof -
  let ?x = "(le_bytes 8 (pub_count p) @ le_bytes 8 (getTick F (cr_tick cr) (pub_tick p)), obj)"
  let ?b = "agent_line ?x @ NUL # drop 94 (node_bytes (pub_buff p))"
  have l: "length (agent_line ?x) = 93" using assms(1) by (intro length_agent_line) simp_all
  have "store (node_bytes (pub_buff p)) 0 (agent_line ?x @ [NUL]) = Inr ?b"
    using l assms(2) by (simp add: store_def)
  then have "bin2hex_fast (node_bytes (pub_buff p)) 0 (line_args (pub_count p) (getTick F (cr_tick cr) (pub_tick p)) obj) = Inr (?b, 93)"
    using l by (simp add: bin2hex_fast_store line_args_text)
  moreover have "cstr ?b = agent_line ?x"
    using agent_line_no_nul [of ?x] by (rule cstr_terminated)
  moreover have "length ?b = 256" using l assms(2) by simp
  ultimately show ?thesis
    by (intro exI [of _ "\<lparr>node_bytes = ?b, node_len = 93\<rparr>"]) (simp add: publish_def wf_node_def node_line_def Let_def)
qed

fun publish_all :: "'f fp \<Rightarrow> (nat \<Rightarrow> clock_read) \<Rightarrow> nat \<Rightarrow> VCI_CAN_OBJ list \<Rightarrow> 'f publisher \<times> lines_queue
    \<Rightarrow> ('f publisher \<times> lines_queue) res" where
  "publish_all F clk i [] st = Inr st"
| "publish_all F clk i (obj # objs) st = and_then (publish F (clk i) obj st) (publish_all F clk (Suc i) objs)"

lemma publish_all_ok:
  assumes "list_all wf_can_obj objs" and "length (node_bytes (pub_buff p)) = 256" and "q_shows q (L, P)"
  shows "\<exists>p' q' nodes. publish_all F clk i objs (p, q) = Inr (p', q')
     \<and> q_shows q' (L, P @ map (Pair kPpqCanObjEvtId) nodes) \<and> list_all wf_node nodes
     \<and> map node_line nodes = map agent_line (numbered (pub_count p) (stamps F clk i (length objs) (pub_tick p)) objs)
     \<and> length (node_bytes (pub_buff p')) = 256 \<and> pub_count p' = pub_count p + of_nat (length objs)"
  using assms
proof (induction objs arbitrary: i p q P)
  case Nil
  then show ?case by (intro exI [of _ p] exI [of _ q] exI [of _ "[]"]) simp
next
  case (Cons obj objs)
  obtain node where n: "publish F (clk i) obj (p, q) =
       Inr (\<lparr>pub_tick = updateTick F (cr_update (clk i)) (pub_tick p), pub_buff = node, pub_count = pub_count p + 1\<rparr>,
            enqueue kPpqCanObjEvtId node q)" "wf_node node" "length (node_bytes node) = 256"
    "node_line node = agent_line (le_bytes 8 (pub_count p) @ le_bytes 8 (getTick F (cr_tick (clk i)) (pub_tick p)), obj)"
    using publish_ok [of obj p F "clk i" q] Cons.prems(1,2) by auto
  let ?p = "\<lparr>pub_tick = updateTick F (cr_update (clk i)) (pub_tick p), pub_buff = node, pub_count = pub_count p + 1\<rparr>"
  have "q_shows (enqueue kPpqCanObjEvtId node q) (L, P @ [(kPpqCanObjEvtId, node)])"
    using q_do_refines [OF Cons.prems(3), of undefined "QEnqueue kPpqCanObjEvtId node"] by (simp add: q_do_def)
  then obtain p' q' nodes where r: "publish_all F clk (Suc i) objs (?p, enqueue kPpqCanObjEvtId node q) = Inr (p', q')"
    "q_shows q' (L, (P @ [(kPpqCanObjEvtId, node)]) @ map (Pair kPpqCanObjEvtId) nodes)" "list_all wf_node nodes"
    "map node_line nodes = map agent_line (numbered (pub_count p + 1) (stamps F clk (Suc i) (length objs) (pub_tick ?p)) objs)"
    "length (node_bytes (pub_buff p')) = 256" "pub_count p' = pub_count p + 1 + of_nat (length objs)"
    using Cons.IH [of ?p "enqueue kPpqCanObjEvtId node q" "P @ [(kPpqCanObjEvtId, node)]" "Suc i"] Cons.prems(1) n(3) by auto
  then show ?case using n by (intro exI [of _ p'] exI [of _ q'] exI [of _ "node # nodes"]) (simp add: algebra_simps)
qed

lemma rx_loop_all:
  "i + n \<le> length buff \<Longrightarrow> rx_loop F clk buff i n st = publish_all F clk i (take n (drop i buff)) st"
proof (induction n arbitrary: i st)
  case (Suc n)
  then have "take (Suc n) (drop i buff) = buff ! i # take n (drop (Suc i) buff)"
    by (simp add: Cons_nth_drop_Suc [symmetric])
  then show ?case using Suc by (cases "publish F (clk i) (buff ! i) st") auto
qed simp

lemma simu_loop_all:
  "simu_loop F clk i n (p, q) = publish_all F clk i (map (\<lambda>k. simu_obj (pub_count p + of_nat k)) [0..<n]) (p, q)"
proof (induction n arbitrary: i p q)
  case (Suc n)
  have m: "map (\<lambda>k. simu_obj (pub_count p + of_nat k)) [0..<Suc n]
      = simu_obj (pub_count p) # map (\<lambda>k. simu_obj (pub_count p + 1 + of_nat k)) [0..<n]"
    by (simp add: upt_conv_Cons map_Suc_upt [symmetric] comp_def algebra_simps del: upt_Suc)
  show ?case
  proof (cases "publish F (clk i) (simu_obj (pub_count p)) (p, q)")
    case (Inl e)
    then show ?thesis unfolding m by simp
  next
    case (Inr x)
    then have "pub_count (fst x) = pub_count p + 1"
      by (auto simp: publish_def Let_def and_then_Inr_iff split: prod.splits)
    then show ?thesis using Suc [of "Suc i" "fst x" "snd x"] Inr unfolding m by simp
  qed
qed simp

section \<open>Serving\<close>

text \<open>The listeners of the agent only touch their sessions.\<close>

definition serve_reaction :: "'q spsc \<Rightarrow> (nat, CanobjQueueNodeT, nat \<rightharpoonup> 'q session) qreaction" where
  "serve_reaction B sid node ss = ([], serve B sid node ss)"

lemma reacts_serving: "reacts kept (serve_reaction B) = serving B"
  by (intro ext) (simp add: reacts_def serve_reaction_def serving_def)

definition serve_all :: "'q spsc \<Rightarrow> nat entries \<Rightarrow> CanobjQueueNodeT \<Rightarrow> (nat \<rightharpoonup> 'q session) \<Rightarrow> (nat \<rightharpoonup> 'q session)" where
  "serve_all B es node = fold (\<lambda>e. serve B (snd e) node) es"

lemma serve_calls:
  "set es \<subseteq> set (fst (fst st e)) \<Longrightarrow> spec_calls (serve_reaction B) e node es (st, ss) = (st, serve_all B es node ss)
     \<and> calls_ok kept (serve_reaction B) e node es (st, ss) \<and> calls_ops (serve_reaction B) e node es (st, ss) = 0"
proof (induction es arbitrary: ss)
  case (Cons x es)
  then have "fst x \<in> fst ` set (fst (fst st e))" by auto
  then show ?case using Cons by (cases x) (simp add: serve_reaction_def serve_all_def)
qed (simp add: serve_all_def)

lemma serve_dispatch:
  "spec_dispatch (serve_reaction B) x (st, ss) = (st, serve_all B (fst (fst st (fst x))) (snd x) ss)"
  "dispatch_ok kept (serve_reaction B) x (st, ss)" "dispatch_ops (serve_reaction B) x (st, ss) = 0"
  using serve_calls [of "fst (fst st (fst x))" st "fst x" B "snd x" ss kept]
  by (simp_all add: spec_dispatch_def dispatch_ok_def dispatch_ops_def)

lemma serve_if:
  "spec_if (serve_reaction B) (\<lambda>_ _. True) (map (Pair e) nodes) (st, ss) =
     ([], length nodes, st, fold (serve_all B (fst (fst st e))) nodes ss)"
  "if_ok kept (serve_reaction B) (\<lambda>_ _. True) (map (Pair e) nodes) (st, ss)"
  "if_ops (serve_reaction B) (\<lambda>_ _. True) (map (Pair e) nodes) (st, ss) = 0"
  by (induction nodes arbitrary: ss) (simp_all add: serve_dispatch)

lemma serve_fold:
  "fold (spec_dispatch (serve_reaction B)) (map (Pair e) nodes) (st, ss) = (st, fold (serve_all B (fst (fst st e))) nodes ss)"
  by (induction nodes arbitrary: ss) (simp_all add: serve_dispatch)

lemma serve_all_at:
  "distinct (map snd es) \<Longrightarrow> ss sid = Some s \<Longrightarrow>
     serve_all B es node ss sid = Some (if sid \<in> snd ` set es then consumeCanObjHandler B node s else s)"
proof (induction es arbitrary: ss s)
  case (Cons x es)
  let ?ss = "serve B (snd x) node ss"
  have st: "serve_all B (x # es) node ss = serve_all B es node ?ss" by (simp add: serve_all_def)
  show ?case
  proof (cases "sid = snd x")
    case True
    then have "?ss sid = Some (consumeCanObjHandler B node s)" using Cons.prems(2) by (simp add: serve_def)
    then show ?thesis unfolding st using Cons.IH [of ?ss] Cons.prems(1) True by auto
  next
    case False
    then have "?ss sid = Some s" using Cons.prems(2) by (simp add: serve_def split: option.split)
    then show ?thesis unfolding st using Cons.IH [of ?ss] Cons.prems(1) False by auto
  qed
qed (simp add: serve_all_def)

lemma serve_nodes_at:
  "distinct (map snd es) \<Longrightarrow> ss sid = Some s \<Longrightarrow>
     fold (serve_all B es) nodes ss sid = Some (if sid \<in> snd ` set es then fold (consumeCanObjHandler B) nodes s else s)"
  by (induction nodes arbitrary: ss s) (auto simp: serve_all_at)

text \<open>Running out of the buffer.\<close>

lemma publish_fst: "publish F cr obj (p, q) = Inr (p', q') \<Longrightarrow> length (node_bytes (pub_buff p')) = length (node_bytes (pub_buff p))"
  by (auto simp: publish_def Let_def and_then_Inr_iff bin2hex_fast_store dest: store_length split: prod.splits)

lemma rx_loop_overrun:
  assumes "length buff < i + n" and "i \<le> length buff" and "list_all wf_can_obj buff" and "length (node_bytes (pub_buff p)) = 256"
  shows "rx_loop F clk buff i n (p, q) = Inl Read_Overrun"
  using assms
proof (induction n arbitrary: i p q)
  case (Suc n)
  show ?case
  proof (cases "i < length buff")
    case True
    then have "wf_can_obj (buff ! i)" using Suc.prems(3) by (simp add: list_all_length)
    then obtain p1 q1 where p1: "publish F (clk i) (buff ! i) (p, q) = Inr (p1, q1)"
      using publish_ok [of "buff ! i" p F "clk i" q] Suc.prems(4) by blast
    then show ?thesis using Suc.IH [of "Suc i" p1 q1] Suc.prems publish_fst [OF p1] True by simp
  qed simp
qed simp

section \<open>Accepting clients\<close>

lemma touch_sessions_ok: "i + n \<le> length pool \<Longrightarrow> touch_sessions ss i n pool = Inr ()"
  by (induction n arbitrary: i) (simp_all add: getSession_def)

lemma startAccepting_ok:
  "startAccepting B (srv, ss) =
     Inr (srv\<lparr>srv_session := srv_next srv, srv_next := Suc (srv_next srv), srv_accepting := True\<rparr>, ss(srv_next srv \<mapsto> Session B))"
  by (simp add: startAccepting_def touch_sessions_ok getSize_def Let_def)

section \<open>Properties\<close>

lemma agent_round:
  assumes q: "q_shows q (L, [])" and n: "unat frame_num \<le> length buff"
    and wf: "list_all wf_can_obj (take (unat frame_num) buff)" and b: "length (node_bytes (pub_buff p)) = 256"
    and d: "distinct (map snd (fst (L kPpqCanObjEvtId)))"
  shows "\<exists>p' q' ss' nodes. rx_round F clk B frame_num buff (p, q, ss) = Inr (Some (p', q', ss'))
     \<and> q_shows q' (L, []) \<and> list_all wf_node nodes
     \<and> map node_line nodes = map agent_line (numbered (pub_count p)
          (stamps F clk 0 (unat frame_num) (pub_tick p)) (take (unat frame_num) buff))
     \<and> pub_count p' = pub_count p + of_nat (unat frame_num) \<and> length (node_bytes (pub_buff p')) = 256
     \<and> (\<forall>sid s. ss sid = Some s \<longrightarrow>
           ss' sid = Some (if sid \<in> snd ` set (fst (L kPpqCanObjEvtId)) then fold (consumeCanObjHandler B) nodes s else s))"
proof -
  let ?objs = "take (unat frame_num) buff" and ?es = "fst (L kPpqCanObjEvtId)"
  have len: "length ?objs = unat frame_num" using n by simp
  obtain p' q1 nodes where p: "rx_loop F clk buff 0 (unat frame_num) (p, q) = Inr (p', q1)"
    "q_shows q1 (L, map (Pair kPpqCanObjEvtId) nodes)" "list_all wf_node nodes"
    "map node_line nodes = map agent_line (numbered (pub_count p) (stamps F clk 0 (unat frame_num) (pub_tick p)) ?objs)"
    "length (node_bytes (pub_buff p')) = 256" "pub_count p' = pub_count p + of_nat (unat frame_num)"
    using publish_all_ok [OF wf b q, of F clk 0] rx_loop_all [of 0 "unat frame_num" buff F clk "(p, q)"] n len by auto
  have "\<exists>q'. processIf (serving B) (\<lambda>_ _. frame_num > 0) (q1, ss) =
      Some (0 < length nodes, q', fold (serve_all B ?es) nodes ss) \<and> q_shows q' (L, [])"
  proof (cases "frame_num > 0")
    case True
    then show ?thesis
      using event_process_core [OF p(2), of "\<lambda>_ _. undefined" "serve_reaction B" "\<lambda>_ _. True" ss]
      by (auto simp: serve_if reacts_serving)
  next
    case False
    then have "frame_num = 0" by (simp add: word_gt_0)
    then have "nodes = []" using p(4) by simp
    then show ?thesis using p(2) by (auto simp: processIf_def q_shows_def)
  qed
  then obtain q' where q': "processIf (serving B) (\<lambda>_ _. frame_num > 0) (q1, ss) =
      Some (0 < length nodes, q', fold (serve_all B ?es) nodes ss)" "q_shows q' (L, [])" by blast
  have "rx_round F clk B frame_num buff (p, q, ss) = Inr (Some (p', q', fold (serve_all B ?es) nodes ss))"
    using p(1) q'(1) by (simp add: rx_round_def)
  then show ?thesis using q'(2) p(3-6) serve_nodes_at [OF d] by blast
qed

text \<open>
  C3: A round of the agent, with as many objects as the library has delivered, always
  returns and gives every session that listens exactly one line per object, in order: the
  line carries the running number, the time stamp and the image of the object. Sessions
  that do not listen are untouched, no event stays pending, and the running number
  advances by the number of objects.\<close>

theorem agent_round_delivers:
  assumes q: "q_shows q (L, [])" and n: "unat frame_num \<le> length buff"
    and wf: "list_all wf_can_obj (take (unat frame_num) buff)" and b: "length (node_bytes (pub_buff p)) = 256"
    and d: "distinct (map snd (fst (L kPpqCanObjEvtId)))"
  shows "\<exists>p' q' ss' nodes. rx_round F clk B frame_num buff (p, q, ss) = Inr (Some (p', q', ss'))
     \<and> q_shows q' (L, []) \<and> list_all wf_node nodes
     \<and> map node_line nodes = map agent_line (numbered (pub_count p)
          (stamps F clk 0 (unat frame_num) (pub_tick p)) (take (unat frame_num) buff))
     \<and> pub_count p' = pub_count p + of_nat (unat frame_num) \<and> length (node_bytes (pub_buff p')) = 256
     \<and> (\<forall>sid s. ss sid = Some s \<longrightarrow>
           ss' sid = Some (if sid \<in> snd ` set (fst (L kPpqCanObjEvtId)) then fold (consumeCanObjHandler B) nodes s else s))"
  using agent_round [OF assms] .

definition sample_publisher :: "real publisher" where
  "sample_publisher = \<lparr>pub_tick = tickExt_new real_fp 0 0, pub_buff = \<lparr>node_bytes = replicate 256 NUL, node_len = 0\<rparr>, pub_count = 5\<rparr>"

definition sample_clocks :: "nat \<Rightarrow> clock_read" where
  "sample_clocks i = \<lparr>cr_tick = 0, cr_update = at_time 0\<rparr>"

definition two_sessions :: "nat \<rightharpoonup> CanobjQueueNodeT list session" where
  "two_sessions = [7 \<mapsto> Session list_spsc, 8 \<mapsto> Session list_spsc]"

theorem agent_round_delivers_witness:
  "\<exists>p' q' ss' node. rx_round real_fp sample_clocks list_spsc 1 [zero_can_obj, zero_can_obj] (sample_publisher, two_listeners, two_sessions)
       = Inr (Some (p', q', ss'))
     \<and> node_line node = agent_line (le_bytes 8 (5 :: uint64) @ le_bytes 8 (0 :: uint64), zero_can_obj)
     \<and> ss' 7 = Some (consumeCanObjHandler list_spsc node (Session list_spsc))
     \<and> ss' 8 = Some (consumeCanObjHandler list_spsc node (Session list_spsc))"
proof -
  let ?L = "(\<lambda>_. ([], 0))(1 := ([(0 :: nat, 7 :: nat), (1, 8)], 2 :: nat))"
  have "list_all wf_can_obj (take (unat (1 :: ULONG)) [zero_can_obj, zero_can_obj])"
    "length (node_bytes (pub_buff sample_publisher)) = 256" "distinct (map snd (fst (?L kPpqCanObjEvtId)))"
    by (simp_all add: zero_can_obj_def wf_can_obj_def sample_publisher_def kPpqCanObjEvtId_def)
  from agent_round_delivers [OF two_listeners_shows _ this, of real_fp sample_clocks list_spsc two_sessions]
  obtain p' q' ss' nodes where r: "rx_round real_fp sample_clocks list_spsc 1 [zero_can_obj, zero_can_obj] (sample_publisher, two_listeners, two_sessions)
       = Inr (Some (p', q', ss'))"
    "map node_line nodes = map agent_line (numbered (pub_count sample_publisher)
        (stamps real_fp sample_clocks 0 (unat (1 :: ULONG)) (pub_tick sample_publisher)) (take (unat (1 :: ULONG)) [zero_can_obj, zero_can_obj]))"
    and at: "\<forall>sid s. two_sessions sid = Some s \<longrightarrow>
       ss' sid = Some (if sid \<in> snd ` set (fst (?L kPpqCanObjEvtId)) then fold (consumeCanObjHandler list_spsc) nodes s else s)"
    by fastforce
  have s78: "ss' 7 = Some (fold (consumeCanObjHandler list_spsc) nodes (Session list_spsc))"
    "ss' 8 = Some (fold (consumeCanObjHandler list_spsc) nodes (Session list_spsc))"
    using at [rule_format, of 7] at [rule_format, of 8] by (simp_all add: two_sessions_def kPpqCanObjEvtId_def)
  have "getTick real_fp t (tickExt_new real_fp 0 0) = 0" for t
    by (simp add: getTick_def tickExt_new_def beginInitTick_def)
  then have "map node_line nodes = [agent_line (le_bytes 8 (5 :: uint64) @ le_bytes 8 (0 :: uint64), zero_can_obj)]"
    using r(2) by (simp add: sample_publisher_def)
  then obtain node where "nodes = [node]" "node_line node = agent_line (le_bytes 8 (5 :: uint64) @ le_bytes 8 (0 :: uint64), zero_can_obj)"
    by auto
  then show ?thesis using r(1) s78 by auto
qed

text \<open>
  When the library returns more objects than the buffer holds (a driver that reports
  an error as a count of \<open>0xFFFFFFFF\<close> does), the round reads outside the receive buffer.\<close>

theorem agent_frame_overrun:
  assumes "length buff < unat frame_num" and "list_all wf_can_obj buff" and "length (node_bytes (pub_buff p)) = 256"
  shows "rx_round F clk B frame_num buff (p, q, ss) = Inl Read_Overrun"
  using rx_loop_overrun [of buff 0 "unat frame_num" p F clk q] assms by (simp add: rx_round_def)

theorem agent_frame_overrun_witness:
  "rx_round real_fp sample_clocks list_spsc 0xFFFFFFFF (replicate 100 zero_can_obj) (sample_publisher, two_listeners, two_sessions) = Inl Read_Overrun"
  by (rule agent_frame_overrun) (simp_all add: sample_publisher_def list_all_length wf_can_obj_def zero_can_obj_def)

text \<open>The simulated publisher: ten numbered objects per round, and its check never fails.\<close>

theorem agent_simu_round:
  assumes q: "q_shows q (L, [])" and b: "length (node_bytes (pub_buff p)) = 256" and d: "distinct (map snd (fst (L kPpqCanObjEvtId)))"
  shows "\<exists>p' q' ss' nodes. simu_round F clk B (p, q, ss) = Inr (Some (p', q', ss')) \<and> q_shows q' (L, [])
     \<and> map node_line nodes = map agent_line (numbered (pub_count p) (stamps F clk 0 10 (pub_tick p))
          (map (\<lambda>k. simu_obj (pub_count p + of_nat k)) [0..<10]))
     \<and> pub_count p' = pub_count p + 10
     \<and> (\<forall>sid s. ss sid = Some s \<longrightarrow>
           ss' sid = Some (if sid \<in> snd ` set (fst (L kPpqCanObjEvtId)) then fold (consumeCanObjHandler B) nodes s else s))"
proof -
  let ?objs = "map (\<lambda>k. simu_obj (pub_count p + of_nat k)) [0..<10]" and ?es = "fst (L kPpqCanObjEvtId)"
  have "list_all wf_can_obj ?objs" by (simp add: list_all_iff wf_can_obj_def simu_obj_def)
  from publish_all_ok [OF this b q, of F clk 0]
  obtain p' q1 nodes where p: "publish_all F clk 0 ?objs (p, q) = Inr (p', q1)"
    "q_shows q1 (L, map (Pair kPpqCanObjEvtId) nodes)"
    "map node_line nodes = map agent_line (numbered (pub_count p) (stamps F clk 0 10 (pub_tick p)) ?objs)"
    "pub_count p' = pub_count p + 10" by auto
  have "length (map node_line nodes) = 10" unfolding p(3) by (simp add: eval_nat_numeral upt_rec)
  then have ne: "map (Pair kPpqCanObjEvtId) nodes \<noteq> []" by auto
  obtain q' where q': "process (serving B) (q1, ss) = Some (True, q', fold (serve_all B ?es) nodes ss)" "q_shows q' (L, [])"
    using process_all_core [OF p(2), of "\<lambda>_ _. undefined" "serve_reaction B" ss] ne
    by (auto simp: serve_if serve_fold reacts_serving)
  have "simu_round F clk B (p, q, ss) = Inr (Some (p', q', fold (serve_all B ?es) nodes ss))"
    using p(1) q'(1) by (simp add: simu_round_def simu_loop_all)
  then show ?thesis using q'(2) p(3,4) serve_nodes_at [OF d] by blast
qed

lemma accept_ok:
  assumes B: "spsc_ok B contents 2048" and q: "q_shows q (L, P)" and cur: "ss (srv_session srv) = Some (Session B)"
  shows "(\<exists>s' q'. handleAccept B False (srv, ss, q) =
         Inr (srv\<lparr>srv_pool := srv_pool srv @ [srv_session srv], srv_session := srv_next srv,
                srv_next := Suc (srv_next srv), srv_accepting := True\<rparr>,
              ss(srv_session srv \<mapsto> s', srv_next srv \<mapsto> Session B), q')
       \<and> q_shows q' (L(kPpqCanObjEvtId := spec_op (Append (srv_session srv)) (L kPpqCanObjEvtId)), P)
       \<and> ppq_handle s' = Some (snd (L kPpqCanObjEvtId)) \<and> outstanding s' = Waiting
       \<and> ses_inv contents s' \<and> on_its_way contents s' = [] \<and> dropped s' = 0)
     \<and> handleAccept B True (srv, ss, q) = Inr (srv\<lparr>srv_accepting := False\<rparr>, ss, q)"
proof -
  let ?e = kPpqCanObjEvtId and ?sid = "srv_session srv"
  let ?l = "list_at ?e q"
  obtain xs where x: "rep ?l xs" "view ?l xs = L ?e" using q by (auto simp: q_shows_def listed_def)
  obtain l' where l': "cl_append ?sid ?l = (cl_alloc ?l, l')" using append_linked [OF x(1)] by blast
  have h: "cl_alloc ?l = snd (L ?e)" unfolding x(2) [symmetric] by (simp add: view_def)
  have ap: "appendListener ?e ?sid q = (snd (L ?e), put_list ?e l' q)" by (simp add: appendListener_def l' h)
  have "q_ok undefined (QListen ?e (Append ?sid)) (L, P)" by simp
  from q_do_refines [OF q this]
  have q': "q_shows (put_list ?e l' q) (L(?e := spec_op (Append ?sid) (L ?e)), P)" by (simp add: q_do_def ap)
  let ?s = "(Session B)\<lparr>ppq_handle := Some (snd (L ?e))\<rparr>"
  have e: "contents (spsc_queue ?s) = []" using B by (simp add: Session_def spsc_ok_def)
  then obtain s' where s': "doCanObjTranspose B ?s = Inr s'" "ses_inv contents s'" "outstanding s' \<noteq> Nothing"
    "on_its_way contents s' = on_its_way contents ?s" "ppq_handle s' = ppq_handle ?s"
    "dropped s' = 0"
    using doCanObjTranspose_ok [OF B, of ?s] by (auto simp: Session_def)
  have w: "on_its_way contents s' = []" using s'(4) e by (simp add: on_its_way_def Session_def)
  then have "outstanding s' = Waiting"
    using s'(2,3) by (cases "outstanding s'") (auto simp: on_its_way_def ses_inv_def)
  moreover have "ses_start B ?sid (Session B, q) = Inr (s', put_list ?e l' q)"
    using s'(1) by (simp add: ses_start_def ap)
  ultimately show ?thesis
    using cur q' s'(2,5,6) w by (auto simp: handleAccept_def startAccepting_ok addToPool_def Let_def)
qed

text \<open>
  C23: Accepting a client. On success the session of the client becomes a listener behind
  the others and enters the pool, has the timer outstanding with nothing on its way, and
  the server accepts again with a fresh session. After an error of \<open>async_accept\<close> nothing
  changes but that the server accepts no more clients.\<close>

theorem server_accepts:
  assumes B: "spsc_ok B contents 2048" and q: "q_shows q (L, P)" and cur: "ss (srv_session srv) = Some (Session B)"
  shows "(\<exists>s' q'. handleAccept B False (srv, ss, q) =
         Inr (srv\<lparr>srv_pool := srv_pool srv @ [srv_session srv], srv_session := srv_next srv,
                srv_next := Suc (srv_next srv), srv_accepting := True\<rparr>,
              ss(srv_session srv \<mapsto> s', srv_next srv \<mapsto> Session B), q')
       \<and> q_shows q' (L(kPpqCanObjEvtId := spec_op (Append (srv_session srv)) (L kPpqCanObjEvtId)), P)
       \<and> ppq_handle s' = Some (snd (L kPpqCanObjEvtId)) \<and> outstanding s' = Waiting
       \<and> ses_inv contents s' \<and> on_its_way contents s' = [])
     \<and> handleAccept B True (srv, ss, q) = Inr (srv\<lparr>srv_accepting := False\<rparr>, ss, q)"
  using accept_ok [OF B q, of ss srv] cur by blast

definition fresh_server :: server where
  "fresh_server = \<lparr>srv_session = 0, srv_pool = [], srv_next = 1, srv_accepting = True\<rparr>"

theorem server_accepts_witness:
  "\<exists>s' q'. handleAccept list_spsc False (fresh_server, [0 \<mapsto> Session list_spsc], EventQueue) =
       Inr (\<lparr>srv_session = 1, srv_pool = [0], srv_next = 2, srv_accepting = True\<rparr>, [0 \<mapsto> s', 1 \<mapsto> Session list_spsc], q')
     \<and> outstanding s' = Waiting \<and> q_shows q' ((\<lambda>_. ([], 0))(1 := ([(0, 0)], 1)), [])"
  using server_accepts [OF list_spsc_ok EventQueue_shows, of "[0 \<mapsto> Session list_spsc]" fresh_server]
  by (auto simp: fresh_server_def kPpqCanObjEvtId_def)

text \<open>
  C24: Setting up the device on the direct path: the agent opens, initialises and starts
  the channel through the driver that serves its device type, in this order, and goes on
  exactly when all three calls return something other than 0; otherwise it aborts.\<close>

theorem agent_setup_checks:
  assumes "\<not> host_exists h (host_join h (host_parent h (getexepath h)) ''control_can.ini'')"
    and "CanImpDirectCan h = Some (Inr s)" and "lib_map s kDevtype = Some lib"
    and "fOpenDevice lib kDevtype 0 0 d = (e1, d1)"
    and "drv_call lib (C_InitCAN kDevtype kDevid kChannel (Some (createVciInitCfg 0 0x1C 0xFFFFFFFF))) d1 = (r2, d2)"
    and "drv_call lib (C_StartCAN kDevtype kDevid kChannel) d2 = (r3, d3)"
  shows "\<exists>g'. can_rx_setup h w g d =
     Some (if e1 \<noteq> 0 \<and> reply_ret r2 \<noteq> 0 \<and> reply_ret r3 \<noteq> 0 then Inr (g', d3) else Inl Abort)"
proof -
  have "dc_VCI_OpenDevice s kDevtype 0 0 d = (e1, d1)" using assms(3,4) by (simp add: dc_VCI_OpenDevice_def)
  then obtain s2 where s2: "dc2_VCI_OpenDevice h CanImpDirectCan2 kDevtype 0 0 d = Some (Inr (e1, s2, d1))"
    "dc2_route s2 kDevtype = Some lib"
    using open_agrees [OF assms(2), of kDevtype 0 0 d e1 d1 CanImpDirectCan2] assms(3) by auto
  have rt: "dc2_call s2 c d = drv_call lib c d" if "call_type c = kDevtype" for c d
    using dc2.call_routed [of s2 c lib d] s2(2) that by simp
  have ck: "checked_call w c (\<lparr>abs_imp = Some (ImpDC2 s2)\<rparr>, d) =
      (let (r, d') = drv_call lib c d in check_ret (reply_ret r) (\<lparr>abs_imp = Some (ImpDC2 s2)\<rparr>, d'))" if "call_type c = kDevtype" for c d
    using rt [OF that] by (simp add: checked_call_def VCI_call_direct split: prod.split)
  show ?thesis
    using s2(1) assms(5,6) ck [of "C_InitCAN kDevtype kDevid kChannel (Some (createVciInitCfg 0 0x1C 0xFFFFFFFF))" d1]
      ck [of "C_StartCAN kDevtype kDevid kChannel" d2]
    by (auto simp: can_rx_setup_def open_direct [OF assms(1)] check_ret_def simp del: drv_call.simps dc2_call.simps)
qed

theorem agent_setup_checks_witness:
  "\<exists>g'. can_rx_setup sample_host quiet_runs CanAbstract 0 = Some (Inr (g', 3))"
proof -
  obtain s lib where s: "CanImpDirectCan sample_host = Some (Inr s)" "lib_map s 4 = Some lib"
      "dll_ctor (\<lambda>_. Some counting_dll) ''/x/kerneldlls/usb.so'' = Inr lib"
    using sample_DC by blast
  have "\<not> host_exists sample_host (host_join sample_host (host_parent sample_host (getexepath sample_host)) ''control_can.ini'')"
    by (simp add: sample_host_def)
  moreover have "fInitCan lib t i c p d = (1, p, Suc d)" for t i c p d using s(3) by (auto simp: dll_ctor_def counting_dll_def)
  ultimately show ?thesis
    using agent_setup_checks [OF _ s(1), of lib 0 1 1 "R_Config 1 (Some (createVciInitCfg 0 0x1C 0xFFFFFFFF))" 2 "R_Plain 1" 3 quiet_runs CanAbstract] s(2)
    by (simp add: kDevtype_def counting_lib [OF s(3)])
qed

end
