(* ===== verification/Agent_System.thy ===== *)
theory Agent_System
  imports Can_Agent
begin

text \<open>
  The agent as a whole, as \<open>main\<close> of can_agent/main.cc sets it up: the publisher thread, the
  event queue, the server and the sessions of the connected clients, in one state. A step is
  one publication or one dispatch of the publisher, or one completion handler of the I/O
  thread; runs interleave them in any order that the device, asio and the sockets allow.

  A listener holds its session, and so do the handlers that are outstanding: a session whose
  write has failed is destroyed as soon as its listener is out of the list. Between two steps
  no invocation of the list is under way, so nothing else keeps a removed listener alive.
\<close>

section \<open>State\<close>

record ('f, 'q) agent =
  ag_pub :: "'f publisher"
  ag_queue :: lines_queue
  ag_sessions :: "nat \<rightharpoonup> 'q session"
  ag_server :: server
  ag_closed :: "nat \<rightharpoonup> string"   \<comment> \<open>the bytes the sockets of ended sessions had taken\<close>
  ag_dispatched :: nat           \<comment> \<open>how many lines have been dispatched\<close>
  ag_joined :: "nat \<rightharpoonup> nat"      \<comment> \<open>how many had been when a session was started\<close>

text \<open>The server before \<open>startAccepting\<close>: no session yet.\<close>

definition Server :: server where
  "Server = \<lparr>srv_session = 0, srv_pool = [], srv_next = 0, srv_accepting = False\<rparr>"

definition main_start :: "'q spsc \<Rightarrow> 'f publisher \<Rightarrow> ('f, 'q) agent res" where
  "main_start B p =
     and_then (startAccepting B (Server, Map.empty)) (\<lambda>(srv, ss).
       Inr \<lparr>ag_pub = p, ag_queue = EventQueue, ag_sessions = ss, ag_server = srv,
         ag_closed = Map.empty, ag_dispatched = 0, ag_joined = Map.empty\<rparr>)"

section \<open>Steps\<close>

datatype agent_cmd =
    Frame clock_read VCI_CAN_OBJ   \<comment> \<open>the publisher puts a received object into the queue\<close>
  | Dispatch bool                  \<comment> \<open>the publisher calls \<open>processIf\<close>\<close>
  | Accept bool                    \<comment> \<open>\<open>async_accept\<close> completes, with or without an error\<close>
  | Complete nat ses_event         \<comment> \<open>the write or the timer of a session completes\<close>

definition unkept :: "int \<Rightarrow> nat \<Rightarrow> bool" where "unkept e h \<longleftrightarrow> False"

text \<open>After a handler of session \<open>sid\<close> has returned.\<close>

definition settle :: "nat \<Rightarrow> 'q session \<times> lines_queue \<Rightarrow> ('f, 'q) agent \<Rightarrow> ('f, 'q) agent" where
  "settle sid st a =
     (if outstanding (fst st) = Nothing
      then a\<lparr>ag_queue := ses_destroy unkept st, ag_sessions := (ag_sessions a)(sid := None),
             ag_closed := (ag_closed a)(sid \<mapsto> delivered (fst st))\<rparr>
      else a\<lparr>ag_queue := snd st, ag_sessions := (ag_sessions a)(sid \<mapsto> fst st)\<rparr>)"

fun agent_do :: "'f fp \<Rightarrow> 'q spsc \<Rightarrow> agent_cmd \<Rightarrow> ('f, 'q) agent \<Rightarrow> ('f, 'q) agent option res" where
  "agent_do F B (Frame cr obj) a =
     and_then (publish F cr obj (ag_pub a, ag_queue a)) (\<lambda>(p, q). Inr (Some (a\<lparr>ag_pub := p, ag_queue := q\<rparr>)))"
| "agent_do F B (Dispatch b) a =
     Inr (map_option (\<lambda>(_, q, ss). a\<lparr>ag_queue := q, ag_sessions := ss,
            ag_dispatched := ag_dispatched a + (if b then length (queueList (ag_queue a)) else 0)\<rparr>)
       (processIf (serving B) (\<lambda>_ _. b) (ag_queue a, ag_sessions a)))"
| "agent_do F B (Accept ec) a =
     and_then (handleAccept B ec (ag_server a, ag_sessions a, ag_queue a)) (\<lambda>(srv, ss, q).
       Inr (Some (a\<lparr>ag_server := srv, ag_sessions := ss, ag_queue := q,
         ag_joined := (if ec then ag_joined a else (ag_joined a)(srv_session (ag_server a) \<mapsto> ag_dispatched a))\<rparr>)))"
| "agent_do F B (Complete sid ev) a =
     (case ag_sessions a sid of
        None \<Rightarrow> Inl Null_Deref
      | Some s \<Rightarrow> and_then (ses_step B unkept ev (s, ag_queue a)) (\<lambda>st. Inr (Some (settle sid st a))))"

text \<open>What can happen: objects as the library delivers them, completions of what is outstanding.\<close>

fun agent_ready :: "agent_cmd \<Rightarrow> ('f, 'q) agent \<Rightarrow> bool" where
  "agent_ready (Frame cr obj) a \<longleftrightarrow> wf_can_obj obj"
| "agent_ready (Dispatch b) a \<longleftrightarrow> True"
| "agent_ready (Accept ec) a \<longleftrightarrow> srv_accepting (ag_server a)"
| "agent_ready (Complete sid ev) a \<longleftrightarrow>
     published [ev] = [] \<and> (case ag_sessions a sid of None \<Rightarrow> False | Some s \<Rightarrow> ses_enabled ev s)"

text \<open>The lines a step publishes.\<close>

fun stamped :: "'f fp \<Rightarrow> agent_cmd \<Rightarrow> ('f, 'q) agent \<Rightarrow> (BYTE list \<times> VCI_CAN_OBJ) list" where
  "stamped F (Frame cr obj) a =
     [(le_bytes 8 (pub_count (ag_pub a)) @ le_bytes 8 (getTick F (cr_tick cr) (pub_tick (ag_pub a))), obj)]"
| "stamped F _ a = []"

inductive agent_reach :: "'f fp \<Rightarrow> 'q spsc \<Rightarrow> (BYTE list \<times> VCI_CAN_OBJ) list \<Rightarrow> ('f, 'q) agent \<Rightarrow> bool" for F B where
  start: "main_start B p = Inr a \<Longrightarrow> pub_count p = 0 \<Longrightarrow> length (node_bytes (pub_buff p)) = 256 \<Longrightarrow> agent_reach F B [] a"
| step: "agent_reach F B tr a \<Longrightarrow> agent_ready c a \<Longrightarrow> agent_do F B c a = Inr (Some a') \<Longrightarrow>
     agent_reach F B (tr @ stamped F c a) a'"

section \<open>The invariant\<close>

text \<open>
  \<open>streams\<close>: of the lines \<open>ls\<close> offered to a session, those that found room in its queue are
  on their way to the client, in order, and the others are counted as dropped.
\<close>

definition streams :: "('q \<Rightarrow> CanobjQueueNodeT list) \<Rightarrow> string list \<Rightarrow> 'q session \<Rightarrow> bool" where
  "streams contents ls s \<longleftrightarrow>
     (\<exists>sub. subseq sub ls \<and> length ls = length sub + dropped s \<and> on_its_way contents s = concat sub)"

text \<open>A session that has joined after the first \<open>j\<close> of the dispatched lines \<open>d\<close>.\<close>

definition listening :: "('q \<Rightarrow> CanobjQueueNodeT list) \<Rightarrow> string list \<Rightarrow> (nat \<rightharpoonup> nat) \<Rightarrow> nat entries \<Rightarrow> nat \<Rightarrow> 'q session \<Rightarrow> bool" where
  "listening contents d J es sid s \<longleftrightarrow>
     (\<exists>h. (h, sid) \<in> set es \<and> ppq_handle s = Some h) \<and> ses_inv contents s \<and> outstanding s \<noteq> Nothing
     \<and> (\<exists>j \<le> length d. J sid = Some j \<and> streams contents (drop j d) s)"

definition sessions_inv :: "('q \<Rightarrow> CanobjQueueNodeT list) \<Rightarrow> 'q spsc \<Rightarrow> string list \<Rightarrow> (nat \<rightharpoonup> nat) \<Rightarrow> nat entries \<Rightarrow> server
    \<Rightarrow> (nat \<rightharpoonup> 'q session) \<Rightarrow> bool" where
  "sessions_inv contents B d J es srv ss \<longleftrightarrow>
     distinct (map snd es) \<and> (\<forall>sid \<in> snd ` set es. sid < srv_session srv \<and> ss sid \<noteq> None)
     \<and> ss (srv_session srv) = Some (Session B) \<and> srv_session srv < srv_next srv
     \<and> (\<forall>sid s. ss sid = Some s \<longrightarrow> sid \<noteq> srv_session srv \<longrightarrow> sid < srv_session srv \<and> listening contents d J es sid s)"

definition closed_inv :: "string list \<Rightarrow> (nat \<rightharpoonup> nat) \<Rightarrow> server \<Rightarrow> (nat \<rightharpoonup> string) \<Rightarrow> bool" where
  "closed_inv d J srv cl \<longleftrightarrow>
     (\<forall>sid bytes. cl sid = Some bytes \<longrightarrow> sid < srv_session srv
        \<and> (\<exists>j sub rest. j \<le> length d \<and> J sid = Some j \<and> subseq sub (drop j d) \<and> concat sub = bytes @ rest))"

definition agent_inv :: "('q \<Rightarrow> CanobjQueueNodeT list) \<Rightarrow> 'q spsc \<Rightarrow> (BYTE list \<times> VCI_CAN_OBJ) list \<Rightarrow> ('f, 'q) agent \<Rightarrow> bool" where
  "agent_inv contents B tr a \<longleftrightarrow>
     (\<exists>L pend d. q_shows (ag_queue a) (L, map (Pair kPpqCanObjEvtId) pend) \<and> list_all wf_node pend
        \<and> map agent_line tr = d @ map node_line pend \<and> ag_dispatched a = length d
        \<and> sessions_inv contents B d (ag_joined a) (fst (L kPpqCanObjEvtId)) (ag_server a) (ag_sessions a)
        \<and> closed_inv d (ag_joined a) (ag_server a) (ag_closed a))
     \<and> pub_count (ag_pub a) = of_nat (length tr) \<and> length (node_bytes (pub_buff (ag_pub a))) = 256
     \<and> (\<forall>k < length tr. take 8 (fst (tr ! k)) = le_bytes 8 (of_nat k :: uint64))"

lemma agent_inv_view:
  assumes "agent_inv contents B tr a"
  obtains L pend d where "q_shows (ag_queue a) (L, map (Pair kPpqCanObjEvtId) pend)" "list_all wf_node pend"
    "map agent_line tr = d @ map node_line pend" "ag_dispatched a = length d"
    "sessions_inv contents B d (ag_joined a) (fst (L kPpqCanObjEvtId)) (ag_server a) (ag_sessions a)"
    "closed_inv d (ag_joined a) (ag_server a) (ag_closed a)"
  using assms unfolding agent_inv_def by blast

section \<open>Sessions under a dispatch\<close>

lemma consumes:
  assumes "spsc_ok B contents 2048" and "ses_inv contents s" and "list_all wf_node nodes"
  shows "\<exists>s' sub. fold (consumeCanObjHandler B) nodes s = s' \<and> ses_inv contents s' \<and> ppq_handle s' = ppq_handle s
     \<and> outstanding s' = outstanding s \<and> subseq sub (map node_line nodes)
     \<and> on_its_way contents s' = on_its_way contents s @ concat sub \<and> dropped s + length nodes = dropped s' + length sub"
  using assms(2,3)
proof (induction nodes arbitrary: s)
  case Nil
  then show ?case by auto
next
  case (Cons node nodes)
  let ?s = "consumeCanObjHandler B node s" and ?ok = "length (contents (spsc_queue s)) < 2048"
  have s: "ses_inv contents ?s \<and> ppq_handle ?s = ppq_handle s \<and> outstanding ?s = outstanding s
     \<and> on_its_way contents ?s = on_its_way contents s @ (if ?ok then node_line node else [])
     \<and> dropped ?s = dropped s + (if ?ok then 0 else 1)"
    using Cons.prems spsc_pushes [OF assms(1), of node "spsc_queue s"]
    by (auto simp: consumeCanObjHandler_def ses_inv_def on_its_way_def split: prod.split)
  obtain s' sub where s': "fold (consumeCanObjHandler B) nodes ?s = s'" "ses_inv contents s'" "ppq_handle s' = ppq_handle ?s"
     "outstanding s' = outstanding ?s" "subseq sub (map node_line nodes)"
     "on_its_way contents s' = on_its_way contents ?s @ concat sub" "dropped ?s + length nodes = dropped s' + length sub"
    using Cons.IH [of ?s] s Cons.prems(2) by auto
  show ?case
    by (rule exI [of _ s'], rule exI [of _ "if ?ok then node_line node # sub else sub"]) (use s s' in auto)
qed

lemma streams_more:
  assumes "streams contents d s" and "subseq sub2 d2" and "on_its_way contents s' = on_its_way contents s @ concat sub2"
    and "dropped s + length d2 = dropped s' + length sub2"
  shows "streams contents (d @ d2) s'"
proof -
  obtain sub where "subseq sub d" "length d = length sub + dropped s" "on_its_way contents s = concat sub"
    using assms(1) unfolding streams_def by blast
  then show ?thesis unfolding streams_def
    by (intro exI [of _ "sub @ sub2"]) (use assms(2-4) in \<open>auto intro: list_emb_append_mono\<close>)
qed

lemma streams_same:
  "streams contents d s \<Longrightarrow> on_its_way contents s' = on_its_way contents s \<Longrightarrow> dropped s' = dropped s \<Longrightarrow> streams contents d s'"
  by (simp add: streams_def)

lemma streams_new: "on_its_way contents s = [] \<Longrightarrow> dropped s = 0 \<Longrightarrow> streams contents [] s"
  by (simp add: streams_def)

lemma serve_None: "ss sid = None \<Longrightarrow> serve B x node ss sid = None"
  by (cases "x = sid") (auto simp: serve_def split: option.split)

lemma serve_nodes_None: "ss sid = None \<Longrightarrow> fold (serve_all B es) nodes ss sid = None"
proof (induction nodes arbitrary: ss)
  case (Cons node nodes)
  have "serve_all B es node ss sid = None"
    using Cons.prems unfolding serve_all_def by (induction es arbitrary: ss) (simp_all add: serve_None)
  then show ?case using Cons.IH by simp
qed simp

lemma sessions_dispatch:
  assumes B: "spsc_ok B contents 2048" and i: "sessions_inv contents B d J es srv ss" and wf: "list_all wf_node nodes"
  shows "sessions_inv contents B (d @ map node_line nodes) J es srv (fold (serve_all B es) nodes ss)"
proof -
  let ?ss = "fold (serve_all B es) nodes ss"
  have dist: "distinct (map snd es)" using i by (simp add: sessions_inv_def)
  have at: "?ss sid = Some (if sid \<in> snd ` set es then fold (consumeCanObjHandler B) nodes s else s)" if "ss sid = Some s" for sid s
    using serve_nodes_at [where ss = ss and sid = sid, OF dist that] .
  have none: "?ss sid = None \<longleftrightarrow> ss sid = None" for sid
    using at serve_nodes_None [of ss sid B es nodes] by (cases "ss sid") auto
  have cur: "srv_session srv \<notin> snd ` set es" using i unfolding sessions_inv_def by blast
  have "sid < srv_session srv \<and> listening contents (d @ map node_line nodes) J es sid s'"
    if s': "?ss sid = Some s'" and ne: "sid \<noteq> srv_session srv" for sid s'
  proof -
    obtain s where s: "ss sid = Some s" using s' none [of sid] by (cases "ss sid") auto
    have b: "sid < srv_session srv" and l: "listening contents d J es sid s" using i s ne by (simp_all add: sessions_inv_def)
    then have "sid \<in> snd ` set es" by (force simp: listening_def)
    then have e: "s' = fold (consumeCanObjHandler B) nodes s" using at [OF s] s' by simp
    obtain sub where "ses_inv contents s'" "ppq_handle s' = ppq_handle s" "outstanding s' = outstanding s" "subseq sub (map node_line nodes)"
      "on_its_way contents s' = on_its_way contents s @ concat sub" "dropped s + length nodes = dropped s' + length sub"
      using consumes [OF B, of s nodes] l wf unfolding e by (auto simp: listening_def)
    with b l show ?thesis by (auto simp: listening_def intro!: streams_more [where s = s])
  qed
  then show ?thesis using i none at [of "srv_session srv" "Session B"] cur unfolding sessions_inv_def by (auto split: if_splits)
qed

lemma closed_more:
  assumes "closed_inv d J srv cl"
  shows "closed_inv (d @ d2) J srv cl"
  unfolding closed_inv_def
proof (intro allI impI conjI)
  fix sid bytes assume "cl sid = Some bytes"
  then obtain j sub rest where "sid < srv_session srv" "j \<le> length d" "J sid = Some j" "subseq sub (drop j d)" "concat sub = bytes @ rest"
    using assms unfolding closed_inv_def by blast
  moreover from this have "subseq sub (drop j (d @ d2))" by auto
  ultimately show "sid < srv_session srv"
    and "\<exists>j sub rest. j \<le> length (d @ d2) \<and> J sid = Some j \<and> subseq sub (drop j (d @ d2)) \<and> concat sub = bytes @ rest"
    by (auto intro!: exI [of _ j] exI [of _ sub])
qed

lemma serve_if_not:
  "spec_if react (\<lambda>_ _. False) xs st = (xs, 0, st)" "if_ok kept react (\<lambda>_ _. False) xs st" "if_ops react (\<lambda>_ _. False) xs st = 0"
  by (induction xs) simp_all

section \<open>Steps keep the invariant\<close>

lemma agent_inv_start:
  assumes "main_start B p = Inr a" and "pub_count p = 0" and "length (node_bytes (pub_buff p)) = 256"
  shows "agent_inv contents B [] a"
proof -
  have a: "a = \<lparr>ag_pub = p, ag_queue = EventQueue, ag_sessions = [0 \<mapsto> Session B],
      ag_server = Server\<lparr>srv_next := 1, srv_accepting := True\<rparr>, ag_closed = Map.empty,
      ag_dispatched = 0, ag_joined = Map.empty\<rparr>"
    using assms(1) by (simp add: main_start_def startAccepting_ok Server_def)
  have "sessions_inv contents B [] Map.empty [] (ag_server a) (ag_sessions a)" unfolding a by (simp add: sessions_inv_def Server_def)
  then show ?thesis using EventQueue_shows assms(2,3) unfolding agent_inv_def a
    by (intro conjI exI [of _ "\<lambda>_. ([], 0)"] exI [of _ "[]"]) (simp_all add: closed_inv_def)
qed

lemma numbered_more:
  assumes "\<forall>k < length tr. take 8 (fst (tr ! k)) = le_bytes 8 (of_nat k :: uint64)" and "take 8 (fst x) = le_bytes 8 (of_nat (length tr) :: uint64)"
  shows "\<forall>k < length (tr @ [x]). take 8 (fst ((tr @ [x]) ! k)) = le_bytes 8 (of_nat k :: uint64)"
  using assms by (auto simp: nth_append less_Suc_eq)

lemma agent_frame:
  assumes i: "agent_inv contents B tr a" and o: "wf_can_obj obj"
  shows "\<exists>a'. agent_do F B (Frame cr obj) a = Inr (Some a') \<and> agent_inv contents B (tr @ stamped F (Frame cr obj) a) a'"
proof -
  let ?p = "ag_pub a"
  obtain L pend d where v: "q_shows (ag_queue a) (L, map (Pair kPpqCanObjEvtId) pend)" "list_all wf_node pend"
    "map agent_line tr = d @ map node_line pend"
    "ag_dispatched a = length d" "sessions_inv contents B d (ag_joined a) (fst (L kPpqCanObjEvtId)) (ag_server a) (ag_sessions a)"
    "closed_inv d (ag_joined a) (ag_server a) (ag_closed a)"
    and c: "pub_count ?p = of_nat (length tr)" "length (node_bytes (pub_buff ?p)) = 256"
    and n: "\<forall>k < length tr. take 8 (fst (tr ! k)) = le_bytes 8 (of_nat k :: uint64)"
    using i unfolding agent_inv_def by blast
  obtain node where nd: "publish F cr obj (?p, ag_queue a) =
       Inr (\<lparr>pub_tick = updateTick F (cr_update cr) (pub_tick ?p), pub_buff = node, pub_count = pub_count ?p + 1\<rparr>,
            enqueue kPpqCanObjEvtId node (ag_queue a))" "wf_node node" "length (node_bytes node) = 256"
    "node_line node = agent_line (le_bytes 8 (pub_count ?p) @ le_bytes 8 (getTick F (cr_tick cr) (pub_tick ?p)), obj)"
    using publish_ok [OF o c(2)] by blast
  have "q_shows (enqueue kPpqCanObjEvtId node (ag_queue a)) (L, map (Pair kPpqCanObjEvtId) (pend @ [node]))"
    using q_do_refines [OF v(1), of undefined "QEnqueue kPpqCanObjEvtId node"] by (simp add: q_do_def)
  then show ?thesis using v nd c numbered_more [OF n] unfolding agent_inv_def
    by (auto intro!: exI [of _ L] exI [of _ "pend @ [node]"] exI [of _ d])
qed

lemma agent_dispatch:
  assumes B: "spsc_ok B contents 2048" and i: "agent_inv contents B tr a"
  shows "\<exists>a'. agent_do F B (Dispatch b) a = Inr (Some a') \<and> agent_inv contents B (tr @ stamped F (Dispatch b) a) a'"
proof -
  obtain L pend d where v: "q_shows (ag_queue a) (L, map (Pair kPpqCanObjEvtId) pend)" "list_all wf_node pend"
    "map agent_line tr = d @ map node_line pend" "ag_dispatched a = length d"
    "sessions_inv contents B d (ag_joined a) (fst (L kPpqCanObjEvtId)) (ag_server a) (ag_sessions a)"
    "closed_inv d (ag_joined a) (ag_server a) (ag_closed a)"
    using agent_inv_view [OF i] .
  let ?ss = "if b then fold (serve_all B (fst (L kPpqCanObjEvtId))) pend (ag_sessions a) else ag_sessions a"
  have "\<exists>q' r. processIf (serving B) (\<lambda>_ _. b) (ag_queue a, ag_sessions a) = Some (r, q', ?ss)
      \<and> q_shows q' (L, map (Pair kPpqCanObjEvtId) (if b then [] else pend))"
    using event_process_core [OF v(1), of unkept "serve_reaction B" "\<lambda>_ _. b" "ag_sessions a"]
    by (cases b) (auto simp: serve_if serve_if_not reacts_serving)
  then obtain q' r where q': "processIf (serving B) (\<lambda>_ _. b) (ag_queue a, ag_sessions a) = Some (r, q', ?ss)"
    "q_shows q' (L, map (Pair kPpqCanObjEvtId) (if b then [] else pend))" by blast
  let ?d = "if b then d @ map node_line pend else d" and ?pend = "if b then [] else pend"
  let ?n = "ag_dispatched a + (if b then length (queueList (ag_queue a)) else 0)"
  have n: "?n = length ?d" using v(1,4) by (simp add: q_shows_def)
  have "sessions_inv contents B ?d (ag_joined a) (fst (L kPpqCanObjEvtId)) (ag_server a) ?ss"
    "closed_inv ?d (ag_joined a) (ag_server a) (ag_closed a)"
    using sessions_dispatch [OF B v(5,2)] v(5,6) closed_more by auto
  then have "agent_inv contents B tr (a\<lparr>ag_queue := q', ag_sessions := ?ss, ag_dispatched := ?n\<rparr>)"
    using i v(2,3) q'(2) n unfolding agent_inv_def
    by (intro conjI exI [of _ L] exI [of _ ?pend] exI [of _ ?d]) (auto simp del: map_map split del: if_split split: if_splits)
  then show ?thesis using q'(1) by simp
qed

lemma sessions_join:
  assumes i: "sessions_inv contents B d J es srv ss" and J': "J' = J(srv_session srv \<mapsto> length d)"
    and s': "ppq_handle s' = Some n" "outstanding s' = Waiting" "ses_inv contents s'" "on_its_way contents s' = []" "dropped s' = 0"
    and srv': "srv_session srv' = srv_next srv" "srv_next srv' = Suc (srv_next srv)"
  shows "sessions_inv contents B d J' (es @ [(n, srv_session srv)]) srv' (ss(srv_session srv \<mapsto> s', srv_next srv \<mapsto> Session B))"
proof -
  have lt: "sid < srv_next srv" if "ss sid = Some s" "sid \<noteq> srv_session srv" for sid s
    using i that less_trans unfolding sessions_inv_def by blast
  have "listening contents d J' (es @ [(n, srv_session srv)]) sid s"
    if "listening contents d J es sid s" "sid \<noteq> srv_session srv" for sid s
    using that by (auto simp: listening_def J')
  moreover have "listening contents d J' (es @ [(n, srv_session srv)]) (srv_session srv) s'"
    using s' streams_new by (auto simp: listening_def J')
  ultimately show ?thesis using i lt unfolding sessions_inv_def srv' by auto
qed

lemma closed_join:
  "closed_inv d J srv cl \<Longrightarrow> srv_session srv < srv_session srv' \<Longrightarrow> closed_inv d (J(srv_session srv \<mapsto> n)) srv' cl"
  unfolding closed_inv_def by fastforce

lemma agent_accept:
  assumes B: "spsc_ok B contents 2048" and i: "agent_inv contents B tr a"
  shows "\<exists>a'. agent_do F B (Accept ec) a = Inr (Some a') \<and> agent_inv contents B (tr @ stamped F (Accept ec) a) a'"
proof -
  let ?srv = "ag_server a" and ?ss = "ag_sessions a"
  obtain L pend d where v: "q_shows (ag_queue a) (L, map (Pair kPpqCanObjEvtId) pend)" "list_all wf_node pend"
    "map agent_line tr = d @ map node_line pend" "ag_dispatched a = length d"
    "sessions_inv contents B d (ag_joined a) (fst (L kPpqCanObjEvtId)) (ag_server a) (ag_sessions a)"
    "closed_inv d (ag_joined a) (ag_server a) (ag_closed a)"
    using agent_inv_view [OF i] .
  obtain es n where L: "L kPpqCanObjEvtId = (es, n)" by fastforce
  have "?ss (srv_session ?srv) = Some (Session B)" using v(5) by (simp add: sessions_inv_def)
  note acc = accept_ok [OF B v(1), of ?ss ?srv, OF this]
  show ?thesis
  proof (cases ec)
    case True
    then show ?thesis using acc i v unfolding agent_inv_def sessions_inv_def closed_inv_def by simp
  next
    case False
    let ?srv' = "?srv\<lparr>srv_pool := srv_pool ?srv @ [srv_session ?srv], srv_session := srv_next ?srv,
                srv_next := Suc (srv_next ?srv), srv_accepting := True\<rparr>"
    let ?ss' = "\<lambda>s'. ?ss(srv_session ?srv \<mapsto> s', srv_next ?srv \<mapsto> Session B)"
    obtain s' q' where s': "handleAccept B False (?srv, ?ss, ag_queue a) = Inr (?srv', ?ss' s', q')"
       "q_shows q' (L(kPpqCanObjEvtId := (es @ [(n, srv_session ?srv)], Suc n)), map (Pair kPpqCanObjEvtId) pend)"
       "ppq_handle s' = Some n" "outstanding s' = Waiting" "ses_inv contents s'" "on_its_way contents s' = []" "dropped s' = 0"
      using acc L by auto
    let ?J = "(ag_joined a)(srv_session ?srv \<mapsto> ag_dispatched a)"
    have "sessions_inv contents B d ?J (es @ [(n, srv_session ?srv)]) ?srv' (?ss' s')"
      using v(5) L by (intro sessions_join [of contents B d "ag_joined a"]) (simp_all add: s'(3-7) v(4))
    moreover have "closed_inv d ?J ?srv' (ag_closed a)"
      using v(5) by (intro closed_join [OF v(6)]) (simp add: sessions_inv_def)
    ultimately have "agent_inv contents B tr (a\<lparr>ag_server := ?srv', ag_sessions := ?ss' s', ag_queue := q', ag_joined := ?J\<rparr>)"
      using i v s'(2) L unfolding agent_inv_def
      by (intro conjI exI [of _ "L(kPpqCanObjEvtId := (es @ [(n, srv_session ?srv)], Suc n))"] exI [of _ pend] exI [of _ d]) auto
    then show ?thesis using s'(1) False by simp
  qed
qed

lemma destroy_removed:
  assumes "q_shows q (L, P)" and "ppq_handle s = Some h" and "h \<notin> fst ` set (fst (L kPpqCanObjEvtId))"
  shows "ses_destroy unkept (s, q) = q"
proof -
  let ?l = "list_at kPpqCanObjEvtId q"
  obtain xs where x: "rep ?l xs" "view ?l xs = L kPpqCanObjEvtId" using assms(1) by (auto simp: q_shows_def listed_def)
  have "h \<notin> set xs" using assms(3) unfolding x(2) [symmetric] by simp
  then have "\<not> lock (unkept kPpqCanObjEvtId) ?l h" using rep_unlocked [OF x(1)] by (simp add: unkept_def)
  then show ?thesis using assms(2) by (simp add: ses_destroy_def disconnectToEventqq_def)
qed

lemma step_alive:
  assumes B: "spsc_ok B contents 2048" and i: "ses_inv contents s" and en: "ses_enabled ev s"
    and ev: "ev = Timer \<or> ev = Wrote"
  shows "\<exists>s'. ses_step B kept ev (s, q) = Inr (s', q) \<and> ses_inv contents s' \<and> outstanding s' \<noteq> Nothing
     \<and> on_its_way contents s' = on_its_way contents s \<and> dropped s' = dropped s \<and> ppq_handle s' = ppq_handle s"
proof -
  let ?s = "s\<lparr>delivered := delivered s @ shr_tx_buff s, shr_tx_buff := []\<rparr>"
  have "on_its_way contents ?s = on_its_way contents s" by (simp add: on_its_way_def)
  then show ?thesis using ev doCanObjTranspose_ok [OF B, of ?s] doCanObjTranspose_ok [OF B, of s] i wrote_step [of B kept s q]
    by (auto simp: ses_inv_def simp del: ses_step.simps(3))
qed

lemma handles_distinct:
  assumes "q_shows q (L, P)" and "(h, x) \<in> set (fst (L e))" and "(h, y) \<in> set (fst (L e))"
  shows "x = y"
proof -
  obtain xs where x: "L e = view (list_at e q) xs" using assms(1) by (metis fst_conv listed_def q_shows_def)
  show ?thesis using assms(2,3) unfolding x by (auto simp: view_def entries_def)
qed

lemma sessions_leave:
  assumes i: "sessions_inv contents B d J es srv ss" and q: "q_shows q (L, P)" "es = fst (L e)" and h: "(h, sid) \<in> set es"
  shows "sessions_inv contents B d J (filter (\<lambda>x. fst x \<noteq> h) es) srv (ss(sid := None))"
proof -
  have one: "x = sid" if "(h, x) \<in> set es" for x using handles_distinct [OF q(1)] h that q(2) by blast
  have "inj_on snd (set es)" using i by (simp add: sessions_inv_def distinct_map)
  then have two: "x = h" if "(x, sid) \<in> set es" for x using h that inj_onD [of snd "set es" "(x, sid)" "(h, sid)"] by simp
  let ?es = "filter (\<lambda>x. fst x \<noteq> h) es"
  have lt: "sid < srv_session srv" using i h by (force simp: sessions_inv_def)
  have li: "listening contents d J ?es x s" if "listening contents d J es x s" "x \<noteq> sid" for x s
    using that one by (auto simp: listening_def)
  have "distinct (map snd ?es)" using i by (auto simp: sessions_inv_def distinct_map inj_on_def)
  then show ?thesis using i lt li unfolding sessions_inv_def by (auto dest: two split: if_splits)
qed

lemma sessions_advance:
  assumes i: "sessions_inv contents B d J es srv ss" and s: "ss sid = Some s" "sid \<noteq> srv_session srv"
    and s': "ses_inv contents s'" "outstanding s' \<noteq> Nothing" "on_its_way contents s' = on_its_way contents s"
      "dropped s' = dropped s" "ppq_handle s' = ppq_handle s"
  shows "sessions_inv contents B d J es srv (ss(sid \<mapsto> s'))"
proof -
  have l: "listening contents d J es sid s" "sid < srv_session srv" using i s by (simp_all add: sessions_inv_def)
  then have "listening contents d J es sid s'" using s' by (auto simp: listening_def intro: streams_same)
  then show ?thesis using i l(2) s by (auto simp: sessions_inv_def)
qed

lemma closed_add:
  assumes c: "closed_inv d J srv cl" and l: "listening contents d J es sid s" "sid < srv_session srv"
    and s: "on_its_way contents s = bytes @ rest"
  shows "closed_inv d J srv (cl(sid \<mapsto> bytes))"
proof -
  obtain j sub where "j \<le> length d" "J sid = Some j" "subseq sub (drop j d)" "concat sub = bytes @ rest"
    using l(1) s unfolding listening_def streams_def by auto
  then show ?thesis using c l(2) unfolding closed_inv_def by auto
qed

lemma agent_complete:
  assumes B: "spsc_ok B contents 2048" and i: "agent_inv contents B tr a" and r: "agent_ready (Complete sid ev) a"
  shows "\<exists>a'. agent_do F B (Complete sid ev) a = Inr (Some a') \<and> agent_inv contents B (tr @ stamped F (Complete sid ev) a) a'"
proof -
  obtain L pend d where v: "q_shows (ag_queue a) (L, map (Pair kPpqCanObjEvtId) pend)" "list_all wf_node pend"
    "map agent_line tr = d @ map node_line pend" "ag_dispatched a = length d"
    "sessions_inv contents B d (ag_joined a) (fst (L kPpqCanObjEvtId)) (ag_server a) (ag_sessions a)"
    "closed_inv d (ag_joined a) (ag_server a) (ag_closed a)"
    using agent_inv_view [OF i] .
  obtain s where s: "ag_sessions a sid = Some s" "ses_enabled ev s" "published [ev] = []" using r by (auto split: option.splits)
  have ne: "sid \<noteq> srv_session (ag_server a)"
  proof
    assume "sid = srv_session (ag_server a)"
    then have "s = Session B" using v(5) s(1) by (simp add: sessions_inv_def)
    then show False using s(2,3) by (cases ev) (auto simp: Session_def)
  qed
  have l: "listening contents d (ag_joined a) (fst (L kPpqCanObjEvtId)) sid s" "sid < srv_session (ag_server a)"
    using v(5) s(1) ne by (simp_all add: sessions_inv_def)
  from l(1) obtain h where h: "(h, sid) \<in> set (fst (L kPpqCanObjEvtId))" "ppq_handle s = Some h" "ses_inv contents s"
    by (auto simp: listening_def)
  show ?thesis
  proof (cases "ev = Timer \<or> ev = Wrote")
    case True
    obtain s' where s': "ses_step B unkept ev (s, ag_queue a) = Inr (s', ag_queue a)" "ses_inv contents s'" "outstanding s' \<noteq> Nothing"
      "on_its_way contents s' = on_its_way contents s" "dropped s' = dropped s" "ppq_handle s' = ppq_handle s"
      using step_alive [OF B h(3) s(2) True] by blast
    have "agent_inv contents B tr (a\<lparr>ag_queue := ag_queue a, ag_sessions := (ag_sessions a)(sid \<mapsto> s')\<rparr>)"
      using i v sessions_advance [OF v(5) s(1) ne s'(2-6)] unfolding agent_inv_def by auto
    then show ?thesis using s(1) s'(1,3) by (simp add: settle_def)
  next
    case False
    then obtain n where n: "ev = Write_Error n" using s(3) by (cases ev) auto
    let ?s = "s\<lparr>shr_tx_buff := drop (n + n) (shr_tx_buff s), delivered := delivered s @ take n (shr_tx_buff s), outstanding := Nothing\<rparr>"
    let ?L = "L(kPpqCanObjEvtId := spec_op (Remove h) (L kPpqCanObjEvtId))"
    have es: "fst (spec_op (Remove h) (L kPpqCanObjEvtId)) = filter (\<lambda>x. fst x \<noteq> h) (fst (L kPpqCanObjEvtId))"
      by (cases "L kPpqCanObjEvtId") simp
    obtain q' where q': "ses_step B unkept ev (s, ag_queue a) = Inr (?s, q')" "q_shows q' (?L, map (Pair kPpqCanObjEvtId) pend)"
      using error_disconnects [OF v(1) h(2,1), of unkept] unfolding n error_step by blast
    have "ses_destroy unkept (?s, q') = q'" using q'(2) h(2) by (rule_tac destroy_removed) (auto simp: es)
    then have "settle sid (?s, q') a = a\<lparr>ag_queue := q', ag_sessions := (ag_sessions a)(sid := None),
        ag_closed := (ag_closed a)(sid \<mapsto> delivered s @ take n (shr_tx_buff s))\<rparr>" by (simp add: settle_def)
    moreover have "closed_inv d (ag_joined a) (ag_server a) ((ag_closed a)(sid \<mapsto> delivered s @ take n (shr_tx_buff s)))"
      by (rule closed_add [OF v(6) l, where rest = "drop n (shr_tx_buff s) @ concat (map node_line (contents (spsc_queue s)))"])
        (simp add: on_its_way_def)
    then have "agent_inv contents B tr (a\<lparr>ag_queue := q', ag_sessions := (ag_sessions a)(sid := None),
        ag_closed := (ag_closed a)(sid \<mapsto> delivered s @ take n (shr_tx_buff s))\<rparr>)"
      using i v(2-4) q'(2) sessions_leave [OF v(5,1) refl h(1)] unfolding agent_inv_def
      by (intro conjI exI [of _ ?L] exI [of _ pend] exI [of _ d]) (auto simp: es)
    ultimately show ?thesis using s(1) q'(1) n by (simp del: ses_step.simps)
  qed
qed

lemma agent_step_ok:
  assumes "spsc_ok B contents 2048" and "agent_inv contents B tr a" and "agent_ready c a"
  shows "\<exists>a'. agent_do F B c a = Inr (Some a') \<and> agent_inv contents B (tr @ stamped F c a) a'"
proof (cases c)
  case (Frame cr obj)
  then show ?thesis using agent_frame [OF assms(2)] assms(3) by simp
next
  case (Complete sid ev)
  then show ?thesis using agent_complete [OF assms(1,2)] assms(3) by simp
qed (use agent_dispatch [OF assms(1,2)] agent_accept [OF assms(1,2)] in simp_all)

lemma agent_reach_inv: "agent_reach F B tr a \<Longrightarrow> spsc_ok B contents 2048 \<Longrightarrow> agent_inv contents B tr a"
proof (induction rule: agent_reach.induct)
  case (start p a)
  then show ?case using agent_inv_start by blast
next
  case (step tr a c a')
  then show ?case using agent_step_ok [of B contents tr a c F] by auto
qed

section \<open>Rounds of the publisher as steps\<close>

fun agent_run :: "'f fp \<Rightarrow> 'q spsc \<Rightarrow> agent_cmd list \<Rightarrow> ('f, 'q) agent \<Rightarrow> ('f, 'q) agent option res" where
  "agent_run F B [] a = Inr (Some a)"
| "agent_run F B (c # cs) a =
     and_then (agent_do F B c a) (\<lambda>x. case x of None \<Rightarrow> Inr None | Some a' \<Rightarrow> agent_run F B cs a')"

lemma agent_run_append:
  "agent_run F B cs a = Inr (Some a') \<Longrightarrow> agent_run F B (cs @ ds) a = agent_run F B ds a'"
  by (induction cs arbitrary: a) (auto simp: and_then_Inr_iff split: option.splits)

lemma rx_loop_steps:
  "i + n \<le> length buff \<Longrightarrow> rx_loop F clk buff i n (ag_pub a, ag_queue a) = Inr (p, q) \<Longrightarrow>
     agent_run F B (map (\<lambda>k. Frame (clk k) (buff ! k)) [i..<i + n]) a = Inr (Some (a\<lparr>ag_pub := p, ag_queue := q\<rparr>))"
proof (induction n arbitrary: i a)
  case (Suc n)
  obtain p1 q1 where p1: "publish F (clk i) (buff ! i) (ag_pub a, ag_queue a) = Inr (p1, q1)"
    "rx_loop F clk buff (Suc i) n (p1, q1) = Inr (p, q)"
    using Suc.prems by (auto simp: and_then_Inr_iff fetch_def)
  from Suc.IH [of "Suc i" "a\<lparr>ag_pub := p1, ag_queue := q1\<rparr>"] Suc.prems(1) p1
  show ?case by (simp add: upt_conv_Cons del: upt_Suc)
qed simp

text \<open>A round of \<open>canRxFunc\<close> is a sequence of steps: a publication per object and a dispatch.\<close>

theorem round_steps:
  assumes "unat frame_num \<le> length buff"
    and "rx_round F clk B frame_num buff (ag_pub a, ag_queue a, ag_sessions a) = Inr (Some (p, q, ss))"
  shows "\<exists>n. agent_run F B (map (\<lambda>k. Frame (clk k) (buff ! k)) [0..<unat frame_num] @ [Dispatch (0 < frame_num)]) a =
     Inr (Some (a\<lparr>ag_pub := p, ag_queue := q, ag_sessions := ss, ag_dispatched := n\<rparr>))"
proof -
  obtain q1 r where "rx_loop F clk buff 0 (unat frame_num) (ag_pub a, ag_queue a) = Inr (p, q1)"
    and d: "processIf (serving B) (\<lambda>_ _. frame_num > 0) (q1, ag_sessions a) = Some (r, q, ss)"
    using assms(2) by (auto simp: rx_round_def and_then_Inr_iff)
  from agent_run_append [OF rx_loop_steps [OF _ this(1), of B]] assms(1) d show ?thesis
    by (intro exI [of _ "ag_dispatched a + (if 0 < frame_num then length (queueList q1) else 0)"]) simp
qed

section \<open>Properties\<close>

lemma agent_reach_step:
  assumes "agent_reach F B tr a" and "spsc_ok B contents 2048" and "agent_ready c a"
  shows "\<exists>a'. agent_do F B c a = Inr (Some a') \<and> agent_reach F B (tr @ stamped F c a) a'"
  using agent_step_ok [OF assms(2) agent_reach_inv [OF assms(1,2)] assms(3), of F] agent_reach.step [OF assms(1,3)] by blast

text \<open>
  C2: The agent serves its clients. In every state it can reach, however publications,
  dispatches, accepted clients, timers, completed and failed writes follow each other,
  every handler that is due runs to its end without fault; the published lines are numbered
  from 0 without a gap; every connected session has a write or the timer outstanding, and
  what its client has got or will get is exactly the lines dispatched since it joined, in
  order, less those counted as dropped; and a client whose connection has failed has got a
  prefix of such a sequence.\<close>

theorem agent_serves_clients:
  assumes "spsc_ok B contents 2048" and "agent_reach F B tr a"
  shows "\<exists>d waiting. map agent_line tr = d @ waiting \<and> length d = ag_dispatched a
     \<and> (\<forall>c. agent_ready c a \<longrightarrow> (\<exists>a'. agent_do F B c a = Inr (Some a')))
     \<and> (\<forall>k < length tr. take 8 (fst (tr ! k)) = le_bytes 8 (of_nat k :: uint64))
     \<and> (\<forall>sid s. ag_sessions a sid = Some s \<longrightarrow> s = Session B \<or> (\<exists>j sub. outstanding s \<noteq> Nothing
           \<and> ag_joined a sid = Some j \<and> subseq sub (drop j d) \<and> length (drop j d) = length sub + dropped s
           \<and> on_its_way contents s = concat sub))
     \<and> (\<forall>sid bytes. ag_closed a sid = Some bytes \<longrightarrow> (\<exists>j sub rest.
           ag_joined a sid = Some j \<and> subseq sub (drop j d) \<and> concat sub = bytes @ rest))"
proof -
  note i = agent_reach_inv [OF assms(2,1)]
  obtain L pend d where q: "q_shows (ag_queue a) (L, map (Pair kPpqCanObjEvtId) pend)" "list_all wf_node pend"
    and v: "map agent_line tr = d @ map node_line pend" "ag_dispatched a = length d"
    "sessions_inv contents B d (ag_joined a) (fst (L kPpqCanObjEvtId)) (ag_server a) (ag_sessions a)"
    "closed_inv d (ag_joined a) (ag_server a) (ag_closed a)"
    using agent_inv_view [OF i] .
  show ?thesis
  proof (intro exI conjI)
    show "\<forall>c. agent_ready c a \<longrightarrow> (\<exists>a'. agent_do F B c a = Inr (Some a'))" using agent_step_ok [OF assms(1) i] by blast
    show "\<forall>k < length tr. take 8 (fst (tr ! k)) = le_bytes 8 (of_nat k :: uint64)" using i unfolding agent_inv_def by blast
    show "\<forall>sid s. ag_sessions a sid = Some s \<longrightarrow> s = Session B \<or> (\<exists>j sub. outstanding s \<noteq> Nothing
           \<and> ag_joined a sid = Some j \<and> subseq sub (drop j d) \<and> length (drop j d) = length sub + dropped s
           \<and> on_its_way contents s = concat sub)"
      using v(3) unfolding sessions_inv_def listening_def streams_def by (metis option.inject)
    show "\<forall>sid bytes. ag_closed a sid = Some bytes \<longrightarrow> (\<exists>j sub rest.
           ag_joined a sid = Some j \<and> subseq sub (drop j d) \<and> concat sub = bytes @ rest)"
      using v(4) unfolding closed_inv_def by blast
  qed (use v in simp_all)
qed

text \<open>One client, one object published and dispatched.\<close>

definition sample_commands :: "agent_cmd list" where
  "sample_commands = [Accept False, Frame (sample_clocks 0) zero_can_obj, Dispatch True, Complete 0 Timer, Complete 0 (Write_Error 5)]"

definition fresh_agent :: "(real, CanobjQueueNodeT list) agent" where
  "fresh_agent = \<lparr>ag_pub = sample_publisher\<lparr>pub_count := 0\<rparr>, ag_queue = EventQueue, ag_sessions = [0 \<mapsto> Session list_spsc],
     ag_server = fresh_server, ag_closed = Map.empty, ag_dispatched = 0, ag_joined = Map.empty\<rparr>"

fun agent_play :: "'f fp \<Rightarrow> 'q spsc \<Rightarrow> agent_cmd list \<Rightarrow> ('f, 'q) agent \<Rightarrow> ((BYTE list \<times> VCI_CAN_OBJ) list \<times> ('f, 'q) agent) option" where
  "agent_play F B [] a = Some ([], a)"
| "agent_play F B (c # cs) a =
     (if agent_ready c a then
        (case agent_do F B c a of
           Inr (Some a') \<Rightarrow> map_option (\<lambda>(tr, a''). (stamped F c a @ tr, a'')) (agent_play F B cs a')
         | _ \<Rightarrow> None)
      else None)"

lemma agent_play_reach:
  "agent_reach F B tr a \<Longrightarrow> agent_play F B cs a = Some (ts, a') \<Longrightarrow> agent_reach F B (tr @ ts) a'"
proof (induction cs arbitrary: tr a ts)
  case (Cons c cs)
  then obtain a1 ts1 where a1: "agent_ready c a" "agent_do F B c a = Inr (Some a1)" "agent_play F B cs a1 = Some (ts1, a')"
    "ts = stamped F c a @ ts1" by (auto split: if_splits sum.splits option.splits)
  with Cons.IH [OF agent_reach.step [OF Cons.prems(1) a1(1,2)] a1(3)] show ?case by simp
qed simp

lemma fresh_agent_reached: "agent_reach real_fp list_spsc [] fresh_agent"
  by (rule agent_reach.start [of _ "sample_publisher\<lparr>pub_count := 0\<rparr>"])
    (simp_all add: main_start_def startAccepting_ok Server_def fresh_agent_def fresh_server_def sample_publisher_def)

lemma sample_play:
  "map_option (\<lambda>(tr, a). (tr, ag_closed a 0, ag_dispatched a)) (agent_play real_fp list_spsc sample_commands fresh_agent) =
     Some ([(replicate 16 0, zero_can_obj)], Some ''VCI_R'', 1)"
  by code_simp

theorem agent_serves_clients_witness:
  "\<exists>a. agent_reach real_fp list_spsc [(replicate 16 0, zero_can_obj)] a \<and> ag_closed a 0 = Some ''VCI_R''
     \<and> (\<exists>j sub rest. ag_joined a 0 = Some j \<and> subseq sub (drop j [agent_line (replicate 16 0, zero_can_obj)]) \<and> concat sub = ''VCI_R'' @ rest)"
proof -
  obtain a where a: "agent_play real_fp list_spsc sample_commands fresh_agent = Some ([(replicate 16 0, zero_can_obj)], a)"
    "ag_closed a 0 = Some ''VCI_R''" "ag_dispatched a = 1" using sample_play by auto
  have r: "agent_reach real_fp list_spsc [(replicate 16 0, zero_can_obj)] a"
    using agent_play_reach [OF fresh_agent_reached a(1)] by simp
  obtain d waiting where d: "map agent_line [(replicate 16 0, zero_can_obj)] = d @ waiting" "length d = ag_dispatched a"
    "\<forall>sid bytes. ag_closed a sid = Some bytes \<longrightarrow> (\<exists>j sub rest.
           ag_joined a sid = Some j \<and> subseq sub (drop j d) \<and> concat sub = bytes @ rest)"
    using agent_serves_clients [OF list_spsc_ok r] by blast
  have "d = [agent_line (replicate 16 0, zero_can_obj)]" using d(1,2) a(3) by (cases d) auto
  then show ?thesis using r a(2) d(3) by blast
qed

end
