(* ===== verification/Event_Remover.thy ===== *)
theory Event_Remover
  imports Event_Process
begin

text \<open>
  3rd/include/eventpp/utilities/scopedremover.h: an object through which listeners are
  added to a dispatcher or callbacks to a callback list, and which takes them out again
  when it is reset or destroyed.
\<close>

section \<open>Scoped removers\<close>

text \<open>
  A remover points to a dispatcher, or nowhere, and keeps the handles it has got. A handle
  of an event is a node of the list of that event, so that pairs of event and handle stand
  for nodes. Without a dispatcher a remover has no handles.
\<close>

record scoped =
  sr_dispatcher :: "nat option"
  sr_items :: "(int \<times> nat) list"

type_synonym ('c, 'a) dispatchers = "nat \<Rightarrow> ('c, 'a) equeue"

type_synonym sr_kept = "nat \<Rightarrow> int \<Rightarrow> nat \<Rightarrow> bool"

definition ScopedRemover :: "nat option \<Rightarrow> scoped" where
  "ScopedRemover d = \<lparr>sr_dispatcher = d, sr_items = []\<rparr>"

definition drop_listener :: "(int \<Rightarrow> nat \<Rightarrow> bool) \<Rightarrow> int \<times> nat \<Rightarrow> ('c, 'a) equeue \<Rightarrow> ('c, 'a) equeue" where
  "drop_listener kept x q = snd (removeListener kept (fst x) (snd x) q)"

definition sr_reset :: "sr_kept \<Rightarrow> scoped \<times> ('c, 'a) dispatchers \<Rightarrow> scoped \<times> ('c, 'a) dispatchers" where
  "sr_reset kept st =
     (let (sr, ds) = st
      in (sr\<lparr>sr_items := []\<rparr>,
          case sr_dispatcher sr of
            None \<Rightarrow> ds
          | Some d \<Rightarrow> ds(d := fold (drop_listener (kept d)) (sr_items sr) (ds d))))"

text \<open>
  Moving leaves the other remover with its dispatcher and without items. The items a
  remover had before it is assigned to are forgotten.
\<close>

definition sr_move :: "sr_kept \<Rightarrow> scoped \<times> ('c, 'a) dispatchers \<Rightarrow> scoped \<times> scoped \<times> ('c, 'a) dispatchers" where
  "sr_move kept st =
     (let (other, ds) = st
      in (\<lparr>sr_dispatcher = sr_dispatcher other, sr_items = sr_items other\<rparr>, sr_reset kept (other\<lparr>sr_items := []\<rparr>, ds)))"

definition sr_assign :: "sr_kept \<Rightarrow> scoped \<Rightarrow> scoped \<times> ('c, 'a) dispatchers \<Rightarrow> scoped \<times> scoped \<times> ('c, 'a) dispatchers" where
  "sr_assign kept sr st =
     (let (other, ds) = st
      in (sr\<lparr>sr_dispatcher := sr_dispatcher other, sr_items := sr_items other\<rparr>, sr_reset kept (other\<lparr>sr_items := []\<rparr>, ds)))"

definition sr_swap :: "scoped \<Rightarrow> scoped \<Rightarrow> scoped \<times> scoped" where
  "sr_swap sr other =
     (sr\<lparr>sr_dispatcher := sr_dispatcher other, sr_items := sr_items other\<rparr>,
      other\<lparr>sr_dispatcher := sr_dispatcher sr, sr_items := sr_items sr\<rparr>)"

definition setDispatcher :: "sr_kept \<Rightarrow> nat \<Rightarrow> scoped \<times> ('c, 'a) dispatchers \<Rightarrow> scoped \<times> ('c, 'a) dispatchers" where
  "setDispatcher kept d st =
     (if sr_dispatcher (fst st) = Some d then st
      else let (sr, ds) = sr_reset kept st in (sr\<lparr>sr_dispatcher := Some d\<rparr>, ds))"

text \<open>The listener is added to the dispatcher, then its handle to the items.\<close>

definition sr_add :: "(nat \<Rightarrow> ('c, 'a) equeue \<Rightarrow> nat \<times> ('c, 'a) equeue) \<Rightarrow> int \<Rightarrow> scoped \<times> ('c, 'a) dispatchers
    \<Rightarrow> (nat \<times> scoped \<times> ('c, 'a) dispatchers) res" where
  "sr_add add e st =
     (let (sr, ds) = st in
      case sr_dispatcher sr of
        None \<Rightarrow> Inl Null_Deref
      | Some d \<Rightarrow> let (h, q) = add d (ds d) in Inr (h, sr\<lparr>sr_items := sr_items sr @ [(e, h)]\<rparr>, ds(d := q)))"

definition sr_appendListener :: "int \<Rightarrow> 'c \<Rightarrow> scoped \<times> ('c, 'a) dispatchers \<Rightarrow> (nat \<times> scoped \<times> ('c, 'a) dispatchers) res" where
  "sr_appendListener e c = sr_add (\<lambda>_. appendListener e c) e"

definition sr_prependListener :: "int \<Rightarrow> 'c \<Rightarrow> scoped \<times> ('c, 'a) dispatchers \<Rightarrow> (nat \<times> scoped \<times> ('c, 'a) dispatchers) res" where
  "sr_prependListener e c = sr_add (\<lambda>_. prependListener e c) e"

definition sr_insertListener :: "sr_kept \<Rightarrow> int \<Rightarrow> 'c \<Rightarrow> nat \<Rightarrow> scoped \<times> ('c, 'a) dispatchers
    \<Rightarrow> (nat \<times> scoped \<times> ('c, 'a) dispatchers) res" where
  "sr_insertListener kept e c before = sr_add (\<lambda>d. insertListener (kept d) e c before) e"

text \<open>Items are found by the node their handle locks; an expired handle finds nothing.\<close>

definition removeHandle :: "(int \<times> nat \<Rightarrow> bool) \<Rightarrow> int \<times> nat \<Rightarrow> (int \<times> nat) list \<Rightarrow> bool \<times> (int \<times> nat) list" where
  "removeHandle live x items =
     (if \<not> live x then (False, items)
      else case find (\<lambda>item. live item \<and> item = x) items of
             Some item \<Rightarrow> (True, remove1 item items)
           | None \<Rightarrow> (False, items))"

definition sr_removeListener :: "sr_kept \<Rightarrow> int \<Rightarrow> nat \<Rightarrow> scoped \<times> ('c, 'a) dispatchers \<Rightarrow> bool \<times> scoped \<times> ('c, 'a) dispatchers" where
  "sr_removeListener kept e h st =
     (let (sr, ds) = st in
      case sr_dispatcher sr of
        None \<Rightarrow> (False, st)
      | Some d \<Rightarrow>
          let (found, items) = removeHandle (\<lambda>x. lock (kept d (fst x)) (list_at (fst x) (ds d)) (snd x)) (e, h) (sr_items sr)
          in if found then let (b, q) = removeListener (kept d) e h (ds d) in (b, sr\<lparr>sr_items := items\<rparr>, ds(d := q))
             else (False, st))"

text \<open>The same for a callback list.\<close>

record cl_scoped =
  cs_list :: "nat option"
  cs_items :: "nat list"

type_synonym 'c lists = "nat \<Rightarrow> 'c clist"

type_synonym cs_kept = "nat \<Rightarrow> nat \<Rightarrow> bool"

definition ScopedRemover_list :: "nat option \<Rightarrow> cl_scoped" where
  "ScopedRemover_list l = \<lparr>cs_list = l, cs_items = []\<rparr>"

definition drop_callback :: "(nat \<Rightarrow> bool) \<Rightarrow> nat \<Rightarrow> 'c clist \<Rightarrow> 'c clist" where
  "drop_callback kept h l = snd (cl_remove kept h l)"

definition cs_reset :: "cs_kept \<Rightarrow> cl_scoped \<times> 'c lists \<Rightarrow> cl_scoped \<times> 'c lists" where
  "cs_reset kept st =
     (let (cs, ls) = st
      in (cs\<lparr>cs_items := []\<rparr>,
          case cs_list cs of
            None \<Rightarrow> ls
          | Some l \<Rightarrow> ls(l := fold (drop_callback (kept l)) (cs_items cs) (ls l))))"

definition cs_move :: "cs_kept \<Rightarrow> cl_scoped \<times> 'c lists \<Rightarrow> cl_scoped \<times> cl_scoped \<times> 'c lists" where
  "cs_move kept st =
     (let (other, ls) = st
      in (\<lparr>cs_list = cs_list other, cs_items = cs_items other\<rparr>, cs_reset kept (other\<lparr>cs_items := []\<rparr>, ls)))"

definition cs_assign :: "cs_kept \<Rightarrow> cl_scoped \<Rightarrow> cl_scoped \<times> 'c lists \<Rightarrow> cl_scoped \<times> cl_scoped \<times> 'c lists" where
  "cs_assign kept cs st =
     (let (other, ls) = st
      in (cs\<lparr>cs_list := cs_list other, cs_items := cs_items other\<rparr>, cs_reset kept (other\<lparr>cs_items := []\<rparr>, ls)))"

definition cs_swap :: "cl_scoped \<Rightarrow> cl_scoped \<Rightarrow> cl_scoped \<times> cl_scoped" where
  "cs_swap cs other =
     (cs\<lparr>cs_list := cs_list other, cs_items := cs_items other\<rparr>, other\<lparr>cs_list := cs_list cs, cs_items := cs_items cs\<rparr>)"

definition setCallbackList :: "cs_kept \<Rightarrow> nat \<Rightarrow> cl_scoped \<times> 'c lists \<Rightarrow> cl_scoped \<times> 'c lists" where
  "setCallbackList kept l st =
     (if cs_list (fst st) = Some l then st
      else let (cs, ls) = cs_reset kept st in (cs\<lparr>cs_list := Some l\<rparr>, ls))"

definition cs_add :: "(nat \<Rightarrow> 'c clist \<Rightarrow> nat \<times> 'c clist) \<Rightarrow> cl_scoped \<times> 'c lists \<Rightarrow> (nat \<times> cl_scoped \<times> 'c lists) res" where
  "cs_add add st =
     (let (cs, ls) = st in
      case cs_list cs of
        None \<Rightarrow> Inl Null_Deref
      | Some l \<Rightarrow> let (h, l') = add l (ls l) in Inr (h, cs\<lparr>cs_items := cs_items cs @ [h]\<rparr>, ls(l := l')))"

definition cs_append :: "'c \<Rightarrow> cl_scoped \<times> 'c lists \<Rightarrow> (nat \<times> cl_scoped \<times> 'c lists) res" where
  "cs_append c = cs_add (\<lambda>_. cl_append c)"

definition cs_prepend :: "'c \<Rightarrow> cl_scoped \<times> 'c lists \<Rightarrow> (nat \<times> cl_scoped \<times> 'c lists) res" where
  "cs_prepend c = cs_add (\<lambda>_. cl_prepend c)"

definition cs_insert :: "cs_kept \<Rightarrow> 'c \<Rightarrow> nat \<Rightarrow> cl_scoped \<times> 'c lists \<Rightarrow> (nat \<times> cl_scoped \<times> 'c lists) res" where
  "cs_insert kept c before = cs_add (\<lambda>l. cl_insert (kept l) c before)"

definition cs_remove :: "cs_kept \<Rightarrow> nat \<Rightarrow> cl_scoped \<times> 'c lists \<Rightarrow> bool \<times> cl_scoped \<times> 'c lists" where
  "cs_remove kept h st =
     (let (cs, ls) = st in
      case cs_list cs of
        None \<Rightarrow> (False, st)
      | Some l \<Rightarrow>
          if lock (kept l) (ls l) h \<and> h \<in> set (cs_items cs)
          then let (b, l') = cl_remove (kept l) h (ls l) in (b, cs\<lparr>cs_items := remove1 h (cs_items cs)\<rparr>, ls(l := l'))
          else (False, st))"

section \<open>Removing what was added\<close>

locale keyed_removal =
  fixes shown :: "'d \<Rightarrow> 'p \<Rightarrow> bool" and drop_one :: "'k \<Rightarrow> 'd \<Rightarrow> 'd" and spec_drop :: "'k \<Rightarrow> 'p \<Rightarrow> 'p" and live :: "'p \<Rightarrow> 'k set"
  assumes shown_drop: "shown d p \<Longrightarrow> k \<in> live p \<Longrightarrow> shown (drop_one k d) (spec_drop k p)"
    and live_drop: "live (spec_drop k p) = live p - {k}"
begin

lemma drop_all:
  "shown d p \<Longrightarrow> distinct ks \<Longrightarrow> set ks \<subseteq> live p \<Longrightarrow> shown (fold drop_one ks d) (fold spec_drop ks p)"
proof (induction ks arbitrary: d p)
  case (Cons k ks)
  then have "shown (drop_one k d) (spec_drop k p)" "set ks \<subseteq> live (spec_drop k p)"
    using shown_drop live_drop [of k p] by auto
  with Cons show ?case by simp
qed simp

end

definition without :: "(int \<times> nat) set \<Rightarrow> ('c, 'a) qspec \<Rightarrow> ('c, 'a) qspec" where
  "without M st = (\<lambda>e. (filter (\<lambda>x. (e, fst x) \<notin> M) (fst (fst st e)), snd (fst st e)), snd st)"

definition on_lists :: "('c, 'a) qspec \<Rightarrow> (int \<times> nat) set" where
  "on_lists st = {(e, h). h \<in> fst ` set (fst (fst st e))}"

lemma spec_remove: "spec_op (Remove h) p = (filter (\<lambda>x. fst x \<noteq> h) (fst p), snd p)"
  by (cases p) simp

lemma without_one: "spec_q (QListen e (Remove h)) st = without {(e, h)} st"
  by (cases st) (auto simp: without_def fun_eq_iff spec_remove)

lemma without_without: "without M (without N st) = without (M \<union> N) st"
  by (auto simp: without_def fun_eq_iff intro!: filter_cong)

lemma without_none [simp]: "without {} st = st"
  by (cases st) (simp add: without_def fun_eq_iff)

lemma fold_without: "fold (\<lambda>x. without {x}) xs st = without (set xs) st"
  by (induction xs arbitrary: st) (simp_all add: without_without)

interpretation disp: keyed_removal q_shows "drop_listener kept" "\<lambda>x. without {x}" on_lists for kept
proof
  fix d p k
  assume "q_shows d p" and "k \<in> on_lists p"
  then show "q_shows (drop_listener kept k d) (without {k} p)"
    using q_do_refines [of d p kept "QListen (fst k) (Remove (snd k))"] without_one [of "fst k" "snd k" p]
    by (cases p; cases "fst p (fst k)") (force simp: drop_listener_def q_do_def on_lists_def)
next
  fix k p
  show "on_lists (without {k} p) = on_lists p - {k}" by (force simp: on_lists_def without_def)
qed

interpretation cbk: keyed_removal listed "drop_callback kept" "\<lambda>h. spec_op (Remove h)" "\<lambda>st. fst ` set (fst st)" for kept
proof
  fix d p k
  assume "listed d p" and "k \<in> fst ` set (fst p)"
  then show "listed (drop_callback kept k d) (spec_op (Remove k) p)"
    using listed_op [of d p kept "Remove k"] by (cases p) (auto simp: drop_callback_def cl_do_def)
next
  fix k p
  show "fst ` set (fst (spec_op (Remove k) p)) = fst ` set (fst p) - {k}" by (cases p) force
qed

section \<open>The life of a remover\<close>

text \<open>
  A remover in use: listeners are added and removed through it, and others add and remove
  listeners of the same dispatcher without touching those of the remover.
\<close>

datatype 'c sr_op = Mine int "'c cl_op" | Other int "'c cl_op"

fun sr_do :: "sr_kept \<Rightarrow> nat \<Rightarrow> 'c sr_op \<Rightarrow> scoped \<times> ('c, 'a) dispatchers \<Rightarrow> (scoped \<times> ('c, 'a) dispatchers) res" where
  "sr_do kept d (Mine e (Append c)) st = and_then (sr_appendListener e c st) (\<lambda>(_, st'). Inr st')"
| "sr_do kept d (Mine e (Prepend c)) st = and_then (sr_prependListener e c st) (\<lambda>(_, st'). Inr st')"
| "sr_do kept d (Mine e (Insert c h)) st = and_then (sr_insertListener kept e c h st) (\<lambda>(_, st'). Inr st')"
| "sr_do kept d (Mine e (Remove h)) st = Inr (snd (sr_removeListener kept e h st))"
| "sr_do kept d (Other e op) (sr, ds) = Inr (sr, ds(d := q_do (kept d) (QListen e op) (ds d)))"

fun sr_run :: "sr_kept \<Rightarrow> nat \<Rightarrow> 'c sr_op list \<Rightarrow> scoped \<times> ('c, 'a) dispatchers \<Rightarrow> (scoped \<times> ('c, 'a) dispatchers) res" where
  "sr_run kept d [] st = Inr st"
| "sr_run kept d (op # ops) st = and_then (sr_do kept d op st) (sr_run kept d ops)"

text \<open>What happens to the listeners, and which of them are the remover's.\<close>

fun spec_sr :: "'c sr_op \<Rightarrow> ('c, 'a) qspec \<times> (int \<times> nat) set \<Rightarrow> ('c, 'a) qspec \<times> (int \<times> nat) set" where
  "spec_sr (Mine e (Remove h)) (st, M) = (if (e, h) \<in> M then (spec_q (QListen e (Remove h)) st, M - {(e, h)}) else (st, M))"
| "spec_sr (Mine e op) (st, M) = (spec_q (QListen e op) st, insert (e, snd (fst st e)) M)"
| "spec_sr (Other e op) (st, M) = (spec_q (QListen e op) st, M)"

fun sr_ok :: "(int \<Rightarrow> nat \<Rightarrow> bool) \<Rightarrow> 'c sr_op \<Rightarrow> ('c, 'a) qspec \<times> (int \<times> nat) set \<Rightarrow> bool" where
  "sr_ok kept (Mine e (Remove h)) (st, M) \<longleftrightarrow> True"
| "sr_ok kept (Mine e op) (st, M) \<longleftrightarrow> op_ok (kept e) op (fst st e)"
| "sr_ok kept (Other e op) (st, M) \<longleftrightarrow> op_ok (kept e) op (fst st e) \<and> (\<forall>h. op = Remove h \<longrightarrow> (e, h) \<notin> M)"

fun srs_ok :: "(int \<Rightarrow> nat \<Rightarrow> bool) \<Rightarrow> 'c sr_op list \<Rightarrow> ('c, 'a) qspec \<times> (int \<times> nat) set \<Rightarrow> bool" where
  "srs_ok kept [] st \<longleftrightarrow> True"
| "srs_ok kept (op # ops) st \<longleftrightarrow> sr_ok kept op st \<and> srs_ok kept ops (spec_sr op st)"

definition owns :: "nat \<Rightarrow> scoped \<Rightarrow> ('c, 'a) equeue \<Rightarrow> ('c, 'a) qspec \<times> (int \<times> nat) set \<Rightarrow> bool" where
  "owns d sr q stM \<longleftrightarrow> sr_dispatcher sr = Some d \<and> q_shows q (fst stM)
     \<and> distinct (sr_items sr) \<and> set (sr_items sr) = snd stM \<and> snd stM \<subseteq> on_lists (fst stM)"

lemma listed_handles:
  assumes "listed l (es, n)"
  shows "h \<in> fst ` set es \<Longrightarrow> h < n" and "h \<in> fst ` set es \<Longrightarrow> lock kept l h"
proof -
  obtain xs where x: "rep l xs" "view l xs = (es, n)" using assms by (auto simp: listed_def)
  then have es: "fst ` set es = set xs" "n = cl_alloc l" using view_handles [of l xs] by (auto simp: view_def)
  show "h < n" if "h \<in> fst ` set es"
    using that es rep_dom [OF x(1), of h] x(1) by (auto simp: rep_def dom_def)
  show "lock kept l h" if "h \<in> fst ` set es"
    using that es rep_dom [OF x(1), of h] rep_counter [OF x(1), of h] by (auto simp: lock_def split: option.splits)
qed

fun adds :: "'c cl_op \<Rightarrow> bool" where
  "adds (Remove h) \<longleftrightarrow> False"
| "adds _ \<longleftrightarrow> True"

lemma reset_counters_alloc [simp]: "cl_alloc (reset_counters n p l) = cl_alloc l"
  by (induction n p l rule: reset_counters.induct) (simp_all add: upd_def)

lemma getNextCounter_alloc [simp]: "cl_alloc (snd (getNextCounter l)) = cl_alloc l"
  by (simp add: getNextCounter_def Let_def)

lemma new_handle [simp]:
  "fst (cl_append c l) = cl_alloc l" "fst (cl_prepend c l) = cl_alloc l" "fst (cl_insert kept c h l) = cl_alloc l"
  by (auto simp: cl_append_def cl_prepend_def cl_insert_def doAllocateNode_def Let_def case_prod_unfold split: option.split)

lemma sr_do_adds:
  assumes "sr_dispatcher sr = Some d" and "adds op"
  shows "sr_do kept d (Mine e op) (sr, ds) =
     Inr (sr\<lparr>sr_items := sr_items sr @ [(e, cl_alloc (list_at e (ds d)))]\<rparr>, ds(d := q_do (kept d) (QListen e op) (ds d)))"
  using assms
  by (cases op) (auto simp: sr_appendListener_def sr_prependListener_def sr_insertListener_def sr_add_def q_do_def
      appendListener_def prependListener_def insertListener_def case_prod_unfold Let_def)

lemma adds_handles:
  assumes "adds op"
  shows "fst ` set (fst (spec_op op p)) = insert (snd p) (fst ` set (fst p))"
proof (cases op)
  case (Insert c h)
  have "fst ` set (fst p) = fst ` (set (takeWhile (\<lambda>e. fst e \<noteq> h) (fst p)) \<union> set (dropWhile (\<lambda>e. fst e \<noteq> h) (fst p)))"
    by (metis set_append takeWhile_dropWhile_id)
  then show ?thesis using Insert by (cases p) (simp add: image_Un)
qed (use assms in \<open>cases p; simp\<close>)+

lemma adds_on_lists:
  assumes "adds op"
  shows "on_lists (spec_q (QListen e op) st) = insert (e, snd (fst st e)) (on_lists st)"
proof (rule set_eqI)
  fix x
  show "x \<in> on_lists (spec_q (QListen e op) st) \<longleftrightarrow> x \<in> insert (e, snd (fst st e)) (on_lists st)"
    by (cases st; cases x; cases "fst x = e") (simp_all add: on_lists_def adds_handles [OF assms])
qed

lemma removeHandle_found:
  "removeHandle live x items = (if live x \<and> x \<in> set items then (True, remove1 x items) else (False, items))"
proof (cases "find (\<lambda>item. live item \<and> item = x) items")
  case None
  then have "\<not> (live x \<and> x \<in> set items)" unfolding find_None_iff by blast
  then show ?thesis using None by (simp add: removeHandle_def)
next
  case (Some y)
  then have "y = x \<and> live x \<and> x \<in> set items" unfolding find_Some_iff by (metis nth_mem)
  then show ?thesis using Some by (simp add: removeHandle_def)
qed

lemma fresh_handle:
  assumes "q_shows q st"
  shows "snd (fst st e) = cl_alloc (list_at e q)" and "(e, snd (fst st e)) \<notin> on_lists st"
proof -
  have l: "listed (list_at e q) (fst st e)" using assms by (simp add: q_shows_def)
  then show "snd (fst st e) = cl_alloc (list_at e q)" by (metis listed_def view_def snd_conv)
  show "(e, snd (fst st e)) \<notin> on_lists st"
    using listed_handles(1) [of "list_at e q" "fst (fst st e)" "snd (fst st e)" "snd (fst st e)"] l by (auto simp: on_lists_def)
qed

lemma sr_do_owns:
  assumes o: "owns d sr (ds d) (st, M)" and ok: "sr_ok (kept d) op (st, M)"
  shows "\<exists>sr' ds'. sr_do kept d op (sr, ds) = Inr (sr', ds') \<and> owns d sr' (ds' d) (spec_sr op (st, M))
     \<and> (\<forall>d'. d' \<noteq> d \<longrightarrow> ds' d' = ds d')"
proof (cases op)
  case (Other e op')
  have "q_shows (q_do (kept d) (QListen e op') (ds d)) (spec_q (QListen e op') st)"
    using q_do_refines [of "ds d" st "kept d" "QListen e op'"] o ok Other by (simp add: owns_def)
  moreover have "M \<subseteq> on_lists (spec_q (QListen e op') st)"
    using o ok Other adds_on_lists [of op' e st] without_one [of e _ st] disp.live_drop [of "(e, _)" st]
    by (cases op') (auto simp: owns_def)
  ultimately show ?thesis using o Other by (simp add: owns_def)
next
  case (Mine e op')
  show ?thesis
  proof (cases "adds op'")
    case True
    have "q_shows (q_do (kept d) (QListen e op') (ds d)) (spec_q (QListen e op') st)"
      using q_do_refines [of "ds d" st "kept d" "QListen e op'"] o ok Mine True by (cases op') (auto simp: owns_def)
    then have "owns d (sr\<lparr>sr_items := sr_items sr @ [(e, cl_alloc (list_at e (ds d)))]\<rparr>) (q_do (kept d) (QListen e op') (ds d))
        (spec_q (QListen e op') st, insert (e, snd (fst st e)) M)"
      using o adds_on_lists [OF True, of e st] fresh_handle [of "ds d" st e] by (auto simp: owns_def)
    moreover have "spec_sr op (st, M) = (spec_q (QListen e op') st, insert (e, snd (fst st e)) M)"
      using Mine True by (cases op') auto
    moreover have "sr_dispatcher sr = Some d" using o by (simp add: owns_def)
    ultimately show ?thesis using Mine by (simp add: sr_do_adds True del: spec_sr.simps)
  next
    case False
    then obtain h where h: "op' = Remove h" by (cases op') auto
    show ?thesis
    proof (cases "(e, h) \<in> M")
      case True
      then have "h \<in> fst ` set (fst (fst st e))" "q_shows (ds d) st" using o by (auto simp: owns_def on_lists_def)
      then have "lock (kept d e) (list_at e (ds d)) h"
        using listed_handles(2) [of "list_at e (ds d)" "fst (fst st e)" "snd (fst st e)" h] by (simp add: q_shows_def)
      with True have "sr_do kept d op (sr, ds) =
          Inr (sr\<lparr>sr_items := remove1 (e, h) (sr_items sr)\<rparr>, ds(d := drop_listener (kept d) (e, h) (ds d)))"
        using o Mine h by (simp add: owns_def sr_removeListener_def removeHandle_found drop_listener_def case_prod_unfold Let_def)
      then show ?thesis using Mine h True o disp.shown_drop [of "ds d" st "(e, h)" "kept d"] disp.live_drop [of "(e, h)" st]
        without_one [of e h st] by (auto simp: owns_def)
    next
      case False
      then have "sr_do kept d op (sr, ds) = Inr (sr, ds)"
        using o Mine h by (auto simp: owns_def sr_removeListener_def removeHandle_found)
      then show ?thesis using Mine h False o by simp
    qed
  qed
qed

lemma sr_run_owns:
  assumes "owns d sr (ds d) stM" and "srs_ok (kept d) ops stM"
  shows "\<exists>sr' ds'. sr_run kept d ops (sr, ds) = Inr (sr', ds') \<and> owns d sr' (ds' d) (fold spec_sr ops stM)
     \<and> (\<forall>d'. d' \<noteq> d \<longrightarrow> ds' d' = ds d')"
  using assms
proof (induction ops arbitrary: sr ds stM)
  case (Cons op ops)
  obtain st M where stM: "stM = (st, M)" by (cases stM)
  obtain sr1 ds1 where 1: "sr_do kept d op (sr, ds) = Inr (sr1, ds1)" "owns d sr1 (ds1 d) (spec_sr op stM)"
    "\<forall>d'. d' \<noteq> d \<longrightarrow> ds1 d' = ds d'"
    using sr_do_owns [of d sr ds st M kept op] Cons.prems stM by auto
  then show ?case using Cons.IH [of sr1 ds1 "spec_sr op stM"] Cons.prems(2) by fastforce
qed simp

lemma reset_owned:
  assumes "owns d sr (ds d) (st, M)"
  shows "\<exists>ds'. sr_reset kept (sr, ds) = (sr\<lparr>sr_items := []\<rparr>, ds') \<and> q_shows (ds' d) (without M st)
     \<and> (\<forall>d'. d' \<noteq> d \<longrightarrow> ds' d' = ds d')"
  using assms disp.drop_all [of "ds d" st "sr_items sr" "kept d"]
  by (auto simp: owns_def sr_reset_def fold_without)

section \<open>Properties\<close>

text \<open>
  C25: A scoped remover takes out exactly what was put in through it. Whatever listeners
  are added and removed through a remover, and by others meanwhile, nothing faults, and when
  the remover is reset or destroyed the dispatcher keeps all listeners of the others in
  their order and none of the remover's, whose handles are forgotten. No other dispatcher
  is touched.\<close>

theorem scoped_remover_releases:
  assumes "q_shows (ds d) st" and "srs_ok (kept d) ops (st, {})"
  shows "\<exists>sr ds1 ds2. sr_run kept d ops (ScopedRemover (Some d), ds) = Inr (sr, ds1)
     \<and> sr_reset kept (sr, ds1) = (ScopedRemover (Some d), ds2)
     \<and> q_shows (ds2 d) (without (snd (fold spec_sr ops (st, {}))) (fst (fold spec_sr ops (st, {}))))
     \<and> (\<forall>d'. d' \<noteq> d \<longrightarrow> ds2 d' = ds d')"
proof -
  have "owns d (ScopedRemover (Some d)) (ds d) (st, {})" using assms(1) by (simp add: owns_def ScopedRemover_def)
  then obtain sr ds1 where r: "sr_run kept d ops (ScopedRemover (Some d), ds) = Inr (sr, ds1)"
    "owns d sr (ds1 d) (fold spec_sr ops (st, {}))" "\<forall>d'. d' \<noteq> d \<longrightarrow> ds1 d' = ds d'"
    using sr_run_owns [of d "ScopedRemover (Some d)" ds "(st, {})" kept ops] assms(2) by blast
  obtain st' M where M: "fold spec_sr ops (st, {}) = (st', M)" by fastforce
  have "sr\<lparr>sr_items := []\<rparr> = ScopedRemover (Some d)"
    using r(2) by (cases sr) (simp add: owns_def ScopedRemover_def)
  then show ?thesis using reset_owned [of d sr ds1 st' M kept] r M by fastforce
qed

theorem scoped_remover_releases_witness:
  "\<exists>sr ds1 ds2. sr_run (\<lambda>_ _ _. True) 5 [Mine 1 (Append ''A''), Other 1 (Append ''B''), Mine 1 (Insert ''C'' 1), Mine 2 (Prepend ''D''), Mine 1 (Remove 0)]
        (ScopedRemover (Some 5), \<lambda>_. EventQueue :: (string, int) equeue) = Inr (sr, ds1)
     \<and> sr_reset (\<lambda>_ _ _. True) (sr, ds1) = (ScopedRemover (Some 5), ds2)
     \<and> q_shows (ds2 5) ((\<lambda>_. ([], 0))(1 := ([(1, ''B'')], 3), 2 := ([], 1)), [])"
proof -
  let ?ops = "[Mine 1 (Append ''A''), Other 1 (Append ''B''), Mine 1 (Insert ''C'' 1), Mine 2 (Prepend ''D''), Mine 1 (Remove 0)]"
  let ?st = "(\<lambda>_. ([], 0), []) :: (string, int) qspec"
  have "without (snd (fold spec_sr ?ops (?st, {}))) (fst (fold spec_sr ?ops (?st, {})))
      = ((\<lambda>_. ([], 0))(1 := ([(1, ''B'')], 3), 2 := ([], 1)), [])"
    by (auto simp: without_def fun_eq_iff)
  with scoped_remover_releases [of "\<lambda>_. EventQueue" 5 ?st "\<lambda>_ _ _. True" ?ops] EventQueue_shows show ?thesis by auto
qed

text \<open>
  Assigning to a remover forgets what it held: the listeners stay in the dispatcher, and
  neither remover will ever take them out.\<close>

theorem scoped_assign_leaks:
  assumes "q_shows (ds d) st" and "sr_dispatcher sr = Some d" and "sr_dispatcher other = Some d'" and "sr_items other = []"
    and "sr_assign kept sr (other, ds) = (sr', other', ds1)"
  shows "snd (sr_reset kept (other', snd (sr_reset kept (sr', ds1)))) = ds \<and> sr_items sr' = [] \<and> sr_items other' = []"
  using assms by (auto simp: sr_assign_def sr_reset_def)

end
