(* ===== verification/Event_Wrapper.thy ===== *)
theory Event_Wrapper
  imports Event_Remover
begin

text \<open>
  Listeners that remove themselves: the wrappers of utilities/counterremover.h and
  utilities/conditionalremover.h. A wrapper shares its data with the remover that made it;
  when it is called it first decides whether its listener shall be removed, and then calls
  the listener. A trigger count is an \<open>int\<close>; decrementing the smallest one overflows, which
  is recorded as a fault in the state.
\<close>

section \<open>Wrappers\<close>

text \<open>
  What a list holds: a listener as it is, or a wrapper with the address of its data. The
  data are the rule (\<open>triggerCount\<close> or \<open>shouldRemove\<close>), the event, the listener and the
  handle, which is empty until the wrapper has been added.
\<close>

datatype 'c item = Plain 'c | Wrapped nat

record ('c, 'd) wdata =
  wd_rule :: 'd
  wd_event :: int
  wd_listener :: 'c
  wd_handle :: "nat option"

record ('c, 'd, 's) wstate =
  wheap :: "nat \<rightharpoonup> ('c, 'd) wdata"
  wnext :: nat
  wuser :: 's
  wfault :: "fault option"

definition INT_MIN :: int where "INT_MIN = - (2 ^ 31)"

type_synonym ('c, 'd, 'a, 's) wworld = "('c item, 'a) equeue \<times> ('c, 'd, 's) wstate"

definition add_wrapper :: "(nat \<Rightarrow> 'q \<Rightarrow> nat \<times> 'q) \<Rightarrow> 'd \<Rightarrow> int \<Rightarrow> 'c \<Rightarrow> 'q \<times> ('c, 'd, 's) wstate \<Rightarrow> nat \<times> 'q \<times> ('c, 'd, 's) wstate" where
  "add_wrapper add rule e listener st =
     (let (q, w) = st; data = wnext w; (handle, q') = add data q
      in (handle, q', w\<lparr>wheap := (wheap w)(data \<mapsto>
            \<lparr>wd_rule = rule, wd_event = e, wd_listener = listener, wd_handle = Some handle\<rparr>), wnext := Suc data\<rparr>))"

text \<open>\<open>CounterRemover\<close>, for a dispatcher and for a callback list.\<close>

definition counter_appendListener :: "int \<Rightarrow> 'c \<Rightarrow> int \<Rightarrow> ('c, int, 'a, 's) wworld \<Rightarrow> nat \<times> ('c, int, 'a, 's) wworld" where
  "counter_appendListener e listener triggerCount =
     add_wrapper (\<lambda>data. appendListener e (Wrapped data)) triggerCount e listener"

definition counter_prependListener :: "int \<Rightarrow> 'c \<Rightarrow> int \<Rightarrow> ('c, int, 'a, 's) wworld \<Rightarrow> nat \<times> ('c, int, 'a, 's) wworld" where
  "counter_prependListener e listener triggerCount =
     add_wrapper (\<lambda>data. prependListener e (Wrapped data)) triggerCount e listener"

definition counter_insertListener :: "(int \<Rightarrow> nat \<Rightarrow> bool) \<Rightarrow> int \<Rightarrow> 'c \<Rightarrow> nat \<Rightarrow> int \<Rightarrow> ('c, int, 'a, 's) wworld
    \<Rightarrow> nat \<times> ('c, int, 'a, 's) wworld" where
  "counter_insertListener kept e listener before triggerCount =
     add_wrapper (\<lambda>data. insertListener kept e (Wrapped data) before) triggerCount e listener"

definition counter_call :: "(int \<Rightarrow> nat \<Rightarrow> bool) \<Rightarrow> ('c \<Rightarrow> 'a \<Rightarrow> ('c, int, 'a, 's) wworld \<Rightarrow> ('c, int, 'a, 's) wworld)
    \<Rightarrow> 'c item \<Rightarrow> 'a \<Rightarrow> ('c, int, 'a, 's) wworld \<Rightarrow> ('c, int, 'a, 's) wworld" where
  "counter_call kept call i a st =
     (case i of
        Plain c \<Rightarrow> call c a st
      | Wrapped p \<Rightarrow>
          let (q, w) = st; data = the (wheap w p); triggerCount = wd_rule data - 1;
              w1 = w\<lparr>wheap := (wheap w)(p \<mapsto> data\<lparr>wd_rule := triggerCount\<rparr>)\<rparr>;
              q1 = (if triggerCount \<le> 0 then
                      (case wd_handle data of None \<Rightarrow> q | Some h \<Rightarrow> snd (removeListener kept (wd_event data) h q)) else q)
          in if wd_rule data = INT_MIN then (q, w\<lparr>wfault := Some Overflow\<rparr>) else call (wd_listener data) a (q1, w1))"

definition counter_append :: "'c \<Rightarrow> int \<Rightarrow> 'c item clist \<times> ('c, int, 's) wstate \<Rightarrow> nat \<times> 'c item clist \<times> ('c, int, 's) wstate" where
  "counter_append listener triggerCount = add_wrapper (\<lambda>data. cl_append (Wrapped data)) triggerCount 0 listener"

definition counter_prepend :: "'c \<Rightarrow> int \<Rightarrow> 'c item clist \<times> ('c, int, 's) wstate \<Rightarrow> nat \<times> 'c item clist \<times> ('c, int, 's) wstate" where
  "counter_prepend listener triggerCount = add_wrapper (\<lambda>data. cl_prepend (Wrapped data)) triggerCount 0 listener"

definition counter_insert :: "(nat \<Rightarrow> bool) \<Rightarrow> 'c \<Rightarrow> nat \<Rightarrow> int \<Rightarrow> 'c item clist \<times> ('c, int, 's) wstate
    \<Rightarrow> nat \<times> 'c item clist \<times> ('c, int, 's) wstate" where
  "counter_insert kept listener before triggerCount =
     add_wrapper (\<lambda>data. cl_insert kept (Wrapped data) before) triggerCount 0 listener"

definition counter_call_list :: "(nat \<Rightarrow> bool) \<Rightarrow> ('c \<Rightarrow> 'a \<Rightarrow> 'c item clist \<times> ('c, int, 's) wstate \<Rightarrow> 'c item clist \<times> ('c, int, 's) wstate)
    \<Rightarrow> 'c item \<Rightarrow> 'a \<Rightarrow> 'c item clist \<times> ('c, int, 's) wstate \<Rightarrow> 'c item clist \<times> ('c, int, 's) wstate" where
  "counter_call_list kept call i a st =
     (case i of
        Plain c \<Rightarrow> call c a st
      | Wrapped p \<Rightarrow>
          let (l, w) = st; data = the (wheap w p); triggerCount = wd_rule data - 1;
              w1 = w\<lparr>wheap := (wheap w)(p \<mapsto> data\<lparr>wd_rule := triggerCount\<rparr>)\<rparr>;
              l1 = (if triggerCount \<le> 0 then
                      (case wd_handle data of None \<Rightarrow> l | Some h \<Rightarrow> snd (cl_remove kept h l)) else l)
          in if wd_rule data = INT_MIN then (l, w\<lparr>wfault := Some Overflow\<rparr>) else call (wd_listener data) a (l1, w1))"

text \<open>
  \<open>ConditionalRemover\<close>. The condition takes the arguments of the call if it can be called
  with them, and none otherwise; it may look at the state.
\<close>

datatype ('a, 's) condition = With_args "'a \<Rightarrow> 's \<Rightarrow> bool" | Without_args "'s \<Rightarrow> bool"

fun shouldRemove :: "('a, 's) condition \<Rightarrow> 'a \<Rightarrow> 's \<Rightarrow> bool" where
  "shouldRemove (With_args p) a s = p a s"
| "shouldRemove (Without_args p) a s = p s"

type_synonym ('c, 'a, 's) cworld = "('c, ('a, 's) condition, 'a, 's) wworld"

definition cond_appendListener :: "int \<Rightarrow> 'c \<Rightarrow> ('a, 's) condition \<Rightarrow> ('c, 'a, 's) cworld \<Rightarrow> nat \<times> ('c, 'a, 's) cworld" where
  "cond_appendListener e listener condition =
     add_wrapper (\<lambda>data. appendListener e (Wrapped data)) condition e listener"

definition cond_prependListener :: "int \<Rightarrow> 'c \<Rightarrow> ('a, 's) condition \<Rightarrow> ('c, 'a, 's) cworld \<Rightarrow> nat \<times> ('c, 'a, 's) cworld" where
  "cond_prependListener e listener condition =
     add_wrapper (\<lambda>data. prependListener e (Wrapped data)) condition e listener"

definition cond_insertListener :: "(int \<Rightarrow> nat \<Rightarrow> bool) \<Rightarrow> int \<Rightarrow> 'c \<Rightarrow> nat \<Rightarrow> ('a, 's) condition \<Rightarrow> ('c, 'a, 's) cworld
    \<Rightarrow> nat \<times> ('c, 'a, 's) cworld" where
  "cond_insertListener kept e listener before condition =
     add_wrapper (\<lambda>data. insertListener kept e (Wrapped data) before) condition e listener"

definition cond_call :: "(int \<Rightarrow> nat \<Rightarrow> bool) \<Rightarrow> ('c \<Rightarrow> 'a \<Rightarrow> ('c, 'a, 's) cworld \<Rightarrow> ('c, 'a, 's) cworld)
    \<Rightarrow> 'c item \<Rightarrow> 'a \<Rightarrow> ('c, 'a, 's) cworld \<Rightarrow> ('c, 'a, 's) cworld" where
  "cond_call kept call i a st =
     (case i of
        Plain c \<Rightarrow> call c a st
      | Wrapped p \<Rightarrow>
          let (q, w) = st; data = the (wheap w p);
              q1 = (if shouldRemove (wd_rule data) a (wuser w) then
                      (case wd_handle data of None \<Rightarrow> q | Some h \<Rightarrow> snd (removeListener kept (wd_event data) h q)) else q)
          in call (wd_listener data) a (q1, w))"

type_synonym ('c, 'a, 's) lworld = "'c item clist \<times> ('c, ('a, 's) condition, 's) wstate"

definition cond_append :: "'c \<Rightarrow> ('a, 's) condition \<Rightarrow> ('c, 'a, 's) lworld \<Rightarrow> nat \<times> ('c, 'a, 's) lworld" where
  "cond_append listener condition = add_wrapper (\<lambda>data. cl_append (Wrapped data)) condition 0 listener"

definition cond_prepend :: "'c \<Rightarrow> ('a, 's) condition \<Rightarrow> ('c, 'a, 's) lworld \<Rightarrow> nat \<times> ('c, 'a, 's) lworld" where
  "cond_prepend listener condition = add_wrapper (\<lambda>data. cl_prepend (Wrapped data)) condition 0 listener"

definition cond_insert :: "(nat \<Rightarrow> bool) \<Rightarrow> 'c \<Rightarrow> nat \<Rightarrow> ('a, 's) condition \<Rightarrow> ('c, 'a, 's) lworld \<Rightarrow> nat \<times> ('c, 'a, 's) lworld" where
  "cond_insert kept listener before condition =
     add_wrapper (\<lambda>data. cl_insert kept (Wrapped data) before) condition 0 listener"

definition cond_call_list :: "(nat \<Rightarrow> bool) \<Rightarrow> ('c \<Rightarrow> 'a \<Rightarrow> ('c, 'a, 's) lworld \<Rightarrow> ('c, 'a, 's) lworld)
    \<Rightarrow> 'c item \<Rightarrow> 'a \<Rightarrow> ('c, 'a, 's) lworld \<Rightarrow> ('c, 'a, 's) lworld" where
  "cond_call_list kept call i a st =
     (case i of
        Plain c \<Rightarrow> call c a st
      | Wrapped p \<Rightarrow>
          let (l, w) = st; data = the (wheap w p);
              l1 = (if shouldRemove (wd_rule data) a (wuser w) then
                      (case wd_handle data of None \<Rightarrow> l | Some h \<Rightarrow> snd (cl_remove kept h l)) else l)
          in call (wd_listener data) a (l1, w))"

section \<open>Reactions\<close>

text \<open>
  Both wrappers decide by their rule, which may change or fail, and then call their listener.
  Listeners here act on the state of the user.
\<close>

definition acting :: "('c \<Rightarrow> 'a \<Rightarrow> 's \<Rightarrow> 's) \<Rightarrow> 'c \<Rightarrow> 'a \<Rightarrow> 'q \<times> ('c, 'd, 's) wstate \<Rightarrow> 'q \<times> ('c, 'd, 's) wstate" where
  "acting act c a st = (fst st, (snd st)\<lparr>wuser := act c a (wuser (snd st))\<rparr>)"

definition counter_rule :: "int \<Rightarrow> 'a \<Rightarrow> 's \<Rightarrow> (bool \<times> int) option" where
  "counter_rule n a s = (if n = INT_MIN then None else Some (n - 1 \<le> 0, n - 1))"

definition cond_rule :: "('a, 's) condition \<Rightarrow> 'a \<Rightarrow> 's \<Rightarrow> (bool \<times> ('a, 's) condition) option" where
  "cond_rule c a s = Some (shouldRemove c a s, c)"

definition decide_on :: "('d \<Rightarrow> 'a \<Rightarrow> 's \<Rightarrow> (bool \<times> 'd) option) \<Rightarrow> ('c \<Rightarrow> 'a \<Rightarrow> 's \<Rightarrow> 's) \<Rightarrow> nat \<Rightarrow> 'a \<Rightarrow> ('c, 'd, 's) wstate
    \<Rightarrow> (int \<times> nat) option \<times> ('c, 'd, 's) wstate" where
  "decide_on decide act p a w =
     (let data = the (wheap w p)
      in case decide (wd_rule data) a (wuser w) of
           None \<Rightarrow> (None, w\<lparr>wfault := Some Overflow\<rparr>)
         | Some (rm, rule) \<Rightarrow>
             let w1 = (if rule = wd_rule data then w else w\<lparr>wheap := (wheap w)(p \<mapsto> data\<lparr>wd_rule := rule\<rparr>)\<rparr>)
             in (if rm then map_option (Pair (wd_event data)) (wd_handle data) else None,
                 w1\<lparr>wuser := act (wd_listener data) a (wuser w)\<rparr>))"

definition wrapped_react :: "('d \<Rightarrow> 'a \<Rightarrow> 's \<Rightarrow> (bool \<times> 'd) option) \<Rightarrow> ('c \<Rightarrow> 'a \<Rightarrow> 's \<Rightarrow> 's)
    \<Rightarrow> ('c item, 'a, ('c, 'd, 's) wstate) qreaction" where
  "wrapped_react decide act i a w =
     (case i of
        Plain c \<Rightarrow> ([], w\<lparr>wuser := act c a (wuser w)\<rparr>)
      | Wrapped p \<Rightarrow>
          let (x, w') = decide_on decide act p a w
          in (case x of None \<Rightarrow> [] | Some (e, h) \<Rightarrow> [QListen e (Remove h)], w'))"

definition wrapped_reaction :: "('d \<Rightarrow> 'a \<Rightarrow> 's \<Rightarrow> (bool \<times> 'd) option) \<Rightarrow> ('c \<Rightarrow> 'a \<Rightarrow> 's \<Rightarrow> 's) \<Rightarrow> 'a
    \<Rightarrow> ('c item, ('c, 'd, 's) wstate) reaction" where
  "wrapped_reaction decide act a h i w =
     (case i of
        Plain c \<Rightarrow> (True, [], w\<lparr>wuser := act c a (wuser w)\<rparr>)
      | Wrapped p \<Rightarrow>
          let (x, w') = decide_on decide act p a w
          in (True, case x of None \<Rightarrow> [] | Some (e, h) \<Rightarrow> [Remove h], w'))"

lemma counter_call_reacts: "counter_call kept (acting act) = reacts kept (wrapped_react counter_rule act)"
  by (intro ext) (auto simp: counter_call_def reacts_def wrapped_react_def decide_on_def counter_rule_def acting_def q_do_def
      Let_def split: item.split option.split prod.split)

lemma cond_call_reacts: "cond_call kept (acting act) = reacts kept (wrapped_react cond_rule act)"
  by (intro ext) (auto simp: cond_call_def reacts_def wrapped_react_def decide_on_def cond_rule_def acting_def q_do_def
      Let_def split: item.split option.split prod.split)

lemma counter_call_list_reacts:
  "(\<lambda>h i st. (True, counter_call_list kept (acting act) i a st)) = reacting kept (wrapped_reaction counter_rule act a)"
  by (intro ext) (auto simp: counter_call_list_def reacting_def wrapped_reaction_def decide_on_def counter_rule_def acting_def
      cl_do_def Let_def split: item.split option.split prod.split)

lemma cond_call_list_reacts:
  "(\<lambda>h i st. (True, cond_call_list kept (acting act) i a st)) = reacting kept (wrapped_reaction cond_rule act a)"
  by (intro ext) (auto simp: cond_call_list_def reacting_def wrapped_reaction_def decide_on_def cond_rule_def acting_def
      cl_do_def Let_def split: item.split option.split prod.split)

section \<open>One dispatch\<close>

definition plain :: "(nat \<times> 'c) list \<Rightarrow> 'c item entries" where
  "plain xs = map (\<lambda>(h, c). (h, Plain c)) xs"

definition call_all :: "('c \<Rightarrow> 'a \<Rightarrow> 's \<Rightarrow> 's) \<Rightarrow> (nat \<times> 'c) list \<Rightarrow> 'a \<Rightarrow> 's \<Rightarrow> 's" where
  "call_all act xs a = fold (\<lambda>c. act c a) (map snd xs)"

lemma call_all_simps [simp]:
  "call_all act [] a s = s" "call_all act (x # xs) a s = call_all act xs a (act (snd x) a s)"
  "call_all act (xs @ ys) a s = call_all act ys a (call_all act xs a s)"
  by (simp_all add: call_all_def)

lemma plain_simps [simp]: "plain [] = []" "plain (x # xs) = (fst x, Plain (snd x)) # plain xs"
  "plain (xs @ ys) = plain xs @ plain ys" "fst ` set (plain xs) = fst ` set xs" "map fst (plain xs) = map fst xs"
  by (simp_all add: plain_def image_image case_prod_unfold comp_def)

lemma spec_calls_plain:
  assumes "fst ` set xs \<subseteq> fst ` set (fst (L e))"
  shows "spec_calls (wrapped_react decide act) e a (plain xs @ es) ((L, P), w)
      = spec_calls (wrapped_react decide act) e a es ((L, P), w\<lparr>wuser := call_all act xs a (wuser w)\<rparr>)"
    and "calls_ok kept (wrapped_react decide act) e a (plain xs @ es) ((L, P), w)
      = calls_ok kept (wrapped_react decide act) e a es ((L, P), w\<lparr>wuser := call_all act xs a (wuser w)\<rparr>)"
    and "calls_ops (wrapped_react decide act) e a (plain xs @ es) ((L, P), w)
      = calls_ops (wrapped_react decide act) e a es ((L, P), w\<lparr>wuser := call_all act xs a (wuser w)\<rparr>)"
  using assms by (induction xs arbitrary: w) (simp_all add: wrapped_react_def)

lemma without_self:
  assumes "distinct (map fst (plain pre @ (h, x) # plain post))"
  shows "filter (\<lambda>y. fst y \<noteq> h) (plain pre @ (h, x) # plain post) = plain (pre @ post)"
proof -
  have "h \<notin> fst ` set (plain pre)" "h \<notin> fst ` set (plain post)" using assms by auto
  then show ?thesis by (auto simp: filter_id_conv simp del: plain_simps(4) intro!: arg_cong2 [of _ _ _ _ "(@)"])
qed

lemma decide_on_data:
  assumes "wheap w p = Some data" and "decide (wd_rule data) a (wuser w) = Some (rm, rule)" and "wd_handle data = Some h"
  shows "decide_on decide act p a w = (if rm then Some (wd_event data, h) else None,
     w\<lparr>wheap := (wheap w)(p \<mapsto> data\<lparr>wd_rule := rule\<rparr>), wuser := act (wd_listener data) a (wuser w)\<rparr>)"
  using assms by (auto simp: decide_on_def fun_upd_idem)

lemma dispatch_wrapped:
  assumes es: "fst (L e) = plain pre @ (h, Wrapped p) # plain post" and d: "distinct (map fst (fst (L e)))"
    and data: "wheap w p = Some data" "wd_event data = e" "wd_handle data = Some h"
    and dec: "decide (wd_rule data) a (call_all act pre a (wuser w)) = Some (rm, rule)"
  shows "spec_dispatch (wrapped_react decide act) (e, a) ((L, P), w) =
      ((if rm then L(e := (plain (pre @ post), snd (L e))) else L, P),
       w\<lparr>wheap := (wheap w)(p \<mapsto> data\<lparr>wd_rule := rule\<rparr>),
         wuser := call_all act post a (act (wd_listener data) a (call_all act pre a (wuser w)))\<rparr>)"
    and "dispatch_ok kept (wrapped_react decide act) (e, a) ((L, P), w)"
    and "dispatch_ops (wrapped_react decide act) (e, a) ((L, P), w) \<le> 1"
proof -
  let ?w = "w\<lparr>wuser := call_all act pre a (wuser w)\<rparr>"
  let ?w' = "w\<lparr>wheap := (wheap w)(p \<mapsto> data\<lparr>wd_rule := rule\<rparr>), wuser := act (wd_listener data) a (call_all act pre a (wuser w))\<rparr>"
  let ?L = "if rm then L(e := (plain (pre @ post), snd (L e))) else L"
  have r: "wrapped_react decide act (Wrapped p) a ?w = (if rm then [QListen e (Remove h)] else [], ?w')"
    using decide_on_data [of ?w p data decide a rm rule h act] data dec by (simp add: wrapped_react_def)
  have op: "spec_op (Remove h) (L e) = (plain (pre @ post), snd (L e))"
    using without_self d unfolding es spec_remove by blast
  let ?L1 = "L(e := (plain pre @ plain post, snd (L e)))"
  have sub: "fst ` set pre \<subseteq> fst ` set (fst (L e))" "fst ` set post \<subseteq> fst ` set (fst (?L1 e))"
    "fst ` set post \<subseteq> fst ` set (fst (L e))" by (auto simp: es image_Un)
  show "spec_dispatch (wrapped_react decide act) (e, a) ((L, P), w) =
      ((?L, P), w\<lparr>wheap := (wheap w)(p \<mapsto> data\<lparr>wd_rule := rule\<rparr>),
         wuser := call_all act post a (act (wd_listener data) a (call_all act pre a (wuser w)))\<rparr>)"
    using r op
    by (cases rm) (simp_all add: spec_dispatch_def es spec_calls_plain(1) [where L = L and e = e, OF sub(1)]
        spec_calls_plain(1) [where L = ?L1 and e = e and es = "[]", OF sub(2), simplified]
        spec_calls_plain(1) [where L = L and e = e and es = "[]", OF sub(3), simplified])
  have "op_ok (kept e) (Remove h) (L e)" using es by (cases "L e") simp
  then show "dispatch_ok kept (wrapped_react decide act) (e, a) ((L, P), w)"
    using r op
    by (cases rm) (simp_all add: dispatch_ok_def es spec_calls_plain(2) [where L = L and e = e, OF sub(1)]
        spec_calls_plain(2) [where L = ?L1 and e = e and es = "[]", OF sub(2), simplified]
        spec_calls_plain(2) [where L = L and e = e and es = "[]", OF sub(3), simplified])
  show "dispatch_ops (wrapped_react decide act) (e, a) ((L, P), w) \<le> 1"
    using r op
    by (cases rm) (simp_all add: dispatch_ops_def es spec_calls_plain(3) [where L = L and e = e, OF sub(1)]
        spec_calls_plain(3) [where L = ?L1 and e = e and es = "[]", OF sub(2), simplified]
        spec_calls_plain(3) [where L = L and e = e and es = "[]", OF sub(3), simplified])
qed

section \<open>The life of a wrapper\<close>

fun dispatches :: "('c \<Rightarrow> 'a \<Rightarrow> ('c, 'a, 's) world \<Rightarrow> ('c, 'a, 's) world) \<Rightarrow> int \<Rightarrow> 'a list \<Rightarrow> ('c, 'a, 's) world \<Rightarrow> ('c, 'a, 's) world option" where
  "dispatches call e [] st = Some st"
| "dispatches call e (a # as) st = (case directDispatch call e a st of None \<Rightarrow> None | Some st' \<Rightarrow> dispatches call e as st')"

text \<open>
  What a sequence of dispatches does when one of the listeners is a wrapper: whether the
  wrapper is still there, and the state; nothing if the wrapper fails.
\<close>

fun lifetime :: "('d \<Rightarrow> 'a \<Rightarrow> 's \<Rightarrow> (bool \<times> 'd) option) \<Rightarrow> ('c \<Rightarrow> 'a \<Rightarrow> 's \<Rightarrow> 's) \<Rightarrow> (nat \<times> 'c) list \<Rightarrow> 'c \<Rightarrow> (nat \<times> 'c) list
    \<Rightarrow> 'd \<Rightarrow> 'a list \<Rightarrow> 's \<Rightarrow> (bool \<times> 's) option" where
  "lifetime decide act pre c post rule [] s = Some (True, s)"
| "lifetime decide act pre c post rule (a # as) s =
     (let s1 = call_all act pre a s; s' = call_all act post a (act c a s1)
      in case decide rule a s1 of
           None \<Rightarrow> None
         | Some (rm, rule') \<Rightarrow>
             if rm then Some (False, fold (call_all act (pre @ post)) as s') else lifetime decide act pre c post rule' as s')"

lemma listed_distinct: "listed l (es, n) \<Longrightarrow> distinct (map fst es)"
  by (auto simp: listed_def rep_def view_def)

lemma plain_dispatches:
  assumes "q_shows q (L, P)" and "fst (L e) = plain xs"
  shows "\<exists>q'. dispatches (reacts kept (wrapped_react decide act)) e as (q, w)
       = Some (q', w\<lparr>wuser := fold (call_all act xs) as (wuser w)\<rparr>) \<and> q_shows q' (L, P)"
  using assms(1)
proof (induction as arbitrary: q w)
  case (Cons a as)
  let ?w = "w\<lparr>wuser := call_all act xs a (wuser w)\<rparr>"
  have "fst ` set xs \<subseteq> fst ` set (fst (L e))" by (simp add: assms(2))
  note p = spec_calls_plain [where L = L and e = e and es = "[]", OF this]
  have "room (dispatch_ops (wrapped_react decide act) (e, a) ((L, P), w)) q"
    by (simp add: dispatch_ops_def assms(2) room_0 p(3) [simplified])
  then obtain q' where "directDispatch (reacts kept (wrapped_react decide act)) e a (q, w) = Some (q', ?w)" "q_shows q' (L, P)"
    using directDispatch_refines [OF Cons.prems, of kept "wrapped_react decide act" e a w "(L, P)" ?w]
    by (auto simp: dispatch_ok_def spec_dispatch_def assms(2) p(1,2) [simplified])
  then show ?case using Cons.IH [of q' ?w] by simp
qed simp

lemma wrapper_lifetime:
  assumes "q_shows q (L, P)" and "fst (L e) = plain pre @ (h, Wrapped p) # plain post"
    and "wheap w p = Some data" and "wd_event data = e" and "wd_handle data = Some h" and "room (length as) q"
    and "lifetime decide act pre (wd_listener data) post (wd_rule data) as (wuser w) = Some (alive, s')"
  shows "\<exists>q' w'. dispatches (reacts kept (wrapped_react decide act)) e as (q, w) = Some (q', w') \<and> wuser w' = s' \<and> wfault w' = wfault w
     \<and> q_shows q' (L(e := (if alive then fst (L e) else plain (pre @ post), snd (L e))), P)"
  using assms
proof (induction as arbitrary: q w data)
  case Nil
  then have "alive" "s' = wuser w" by simp_all
  with Nil(1) show ?case by simp
next
  case (Cons a as)
  obtain rm rule where dec: "decide (wd_rule data) a (call_all act pre a (wuser w)) = Some (rm, rule)"
    using Cons.prems(7) by (cases "decide (wd_rule data) a (call_all act pre a (wuser w))") auto
  have "distinct (map fst (fst (L e)))"
    using Cons.prems(1) listed_distinct [of "list_at e q" "fst (L e)" "snd (L e)"] by (simp add: q_shows_def)
  note d = dispatch_wrapped [where L = L and P = P and decide = decide and act = act and a = a, OF Cons.prems(2) this Cons.prems(3-5) dec]
  let ?s = "call_all act post a (act (wd_listener data) a (call_all act pre a (wuser w)))"
  let ?w = "w\<lparr>wheap := (wheap w)(p \<mapsto> data\<lparr>wd_rule := rule\<rparr>), wuser := ?s\<rparr>"
  let ?L = "if rm then L(e := (plain (pre @ post), snd (L e))) else L"
  have rm1: "room 1 q" using room_mono [OF Cons.prems(6)] by simp
  then have "room (dispatch_ops (wrapped_react decide act) (e, a) ((L, P), w)) q" using room_mono d(3) by blast
  then obtain q1 where q1: "directDispatch (reacts kept (wrapped_react decide act)) e a (q, w) = Some (q1, ?w)" "q_shows q1 (?L, P)"
    "aging (dispatch_ops (wrapped_react decide act) (e, a) ((L, P), w)) q q1"
    using directDispatch_refines [OF Cons.prems(1) d(2) _ d(1)] by blast
  have room1: "room (length as) q1"
    by (rule room_aging [OF _ q1(3)], rule room_mono [OF Cons.prems(6)]) (use d(3) in simp)
  show ?case
  proof (cases rm)
    case True
    then show ?thesis
      using plain_dispatches [OF q1(2), of e "pre @ post" kept decide act as ?w] q1(1) dec Cons.prems(7) by (simp add: Let_def) (elim exE conjE, simp add: fun_upd_def)
  next
    case False
    then have lf: "lifetime decide act pre (wd_listener data) post rule as ?s = Some (alive, s')" using Cons.prems(7) dec by simp
    show ?thesis
      using Cons.IH [of q1 ?w "data\<lparr>wd_rule := rule\<rparr>"] q1(1,2) False Cons.prems(2,4,5) room1 lf by auto
  qed
qed

text \<open>How long a wrapper lives.\<close>

definition called :: "('c \<Rightarrow> 'a \<Rightarrow> 's \<Rightarrow> 's) \<Rightarrow> (nat \<times> 'c) list \<Rightarrow> nat \<times> 'c \<Rightarrow> nat \<Rightarrow> 'a list \<Rightarrow> 's \<Rightarrow> 's" where
  "called act xs x k as s = fold (call_all act xs) (drop k as) (fold (call_all act (xs @ [x])) (take k as) s)"

lemma lifetime_counter:
  "INT_MIN < n \<Longrightarrow>
     lifetime counter_rule act xs c [] n as s = Some (int (length as) < max 1 n, called act xs (h, c) (nat (max 1 n)) as s)"
proof (induction as arbitrary: n s)
  case (Cons a as)
  show ?case
  proof (cases "n \<le> 1")
    case True
    then have "nat (max 1 n) = Suc 0" by simp
    with True Cons.prems show ?thesis by (simp add: counter_rule_def called_def)
  next
    case False
    then have "nat (max 1 n) = Suc (nat (max 1 (n - 1)))" by simp
    moreover have "INT_MIN < n - 1" "n \<noteq> INT_MIN" using False by (simp_all add: INT_MIN_def)
    ultimately show ?thesis using False Cons.IH [of "n - 1"] by (simp add: counter_rule_def called_def) linarith
  qed
qed (simp add: called_def)

lemma lifetime_cond:
  "lifetime cond_rule act xs c [] (With_args (\<lambda>a _. p a)) as s =
     Some (length as < Suc (length (takeWhile (\<lambda>a. \<not> p a) as)), called act xs (h, c) (Suc (length (takeWhile (\<lambda>a. \<not> p a) as))) as s)"
  by (induction as arbitrary: s) (simp_all add: cond_rule_def called_def)

lemma appended_lifetime:
  assumes q: "q_shows q (L, P)" and xs: "fst (L e) = plain xs" and rm: "room (Suc (length as)) q"
    and lf: "lifetime decide act xs c [] rule as (wuser w) = Some (alive, s')"
  shows "\<exists>q1 w1 q2 w2. add_wrapper (\<lambda>data. appendListener e (Wrapped data)) rule e c (q, w) = (snd (L e), q1, w1)
     \<and> dispatches (reacts kept (wrapped_react decide act)) e as (q1, w1) = Some (q2, w2) \<and> wuser w2 = s' \<and> wfault w2 = wfault w
     \<and> q_shows q2 (L(e := (if alive then plain xs @ [(snd (L e), Wrapped (wnext w))] else plain xs, Suc (snd (L e)))), P)"
proof -
  let ?h = "snd (L e)" and ?p = "wnext w" and ?op = "QListen e (Append (Wrapped (wnext w)))"
  let ?L = "L(e := (plain xs @ [(?h, Wrapped ?p)], Suc ?h))" and ?d = "\<lparr>wd_rule = rule, wd_event = e, wd_listener = c, wd_handle = Some ?h\<rparr>"
  let ?w = "w\<lparr>wheap := (wheap w)(?p \<mapsto> ?d), wnext := Suc ?p\<rparr>"
  have sp: "spec_q ?op (L, P) = (?L, P)" using xs by (cases "L e") simp
  have q1: "q_shows (q_do kept ?op q) (?L, P)" using q_do_refines [OF q, of kept ?op] sp by simp
  have "room (length as) (q_do kept ?op q)"
    by (rule room_aging [OF _ q_do_aging [OF q, of kept ?op]]) (use rm room_mono [OF rm, of 1] in simp_all)
  then obtain q2 w2 where "dispatches (reacts kept (wrapped_react decide act)) e as (q_do kept ?op q, ?w) = Some (q2, w2)"
    "wuser w2 = s'" "wfault w2 = wfault w" "q_shows q2 (?L(e := (if alive then fst (?L e) else plain (xs @ []), snd (?L e))), P)"
    using wrapper_lifetime [OF q1, of e xs ?h ?p "[]" ?w ?d as decide act alive s' kept] lf by auto
  moreover have "fst (appendListener e (Wrapped ?p) q) = ?h"
    using fresh_handle(1) [OF q, of e] by (simp add: appendListener_def case_prod_unfold Let_def)
  ultimately show ?thesis
    by (cases "appendListener e (Wrapped ?p) q") (auto simp: add_wrapper_def q_do_def Let_def)
qed

text \<open>The same for one invocation of a callback list.\<close>

lemma spec_each_plain:
  assumes "fst ` set xs \<subseteq> fst ` set (fst st)"
  shows "spec_each (wrapped_reaction decide act a) (plain xs @ es) (st, w)
      = spec_each (wrapped_reaction decide act a) es (st, w\<lparr>wuser := call_all act xs a (wuser w)\<rparr>)"
    and "each_ok kept (wrapped_reaction decide act a) (plain xs @ es) (st, w)
      = each_ok kept (wrapped_reaction decide act a) es (st, w\<lparr>wuser := call_all act xs a (wuser w)\<rparr>)"
    and "each_ops (wrapped_reaction decide act a) (plain xs @ es) (st, w)
      = each_ops (wrapped_reaction decide act a) es (st, w\<lparr>wuser := call_all act xs a (wuser w)\<rparr>)"
  using assms by (induction xs arbitrary: w) (simp_all add: wrapped_reaction_def)

lemma list_wrapped:
  assumes l: "listed l (plain pre @ (h, Wrapped p) # plain post, n)"
    and data: "wheap w p = Some data" "wd_handle data = Some h" and room: "unat (cl_counter l) + 1 < 2 ^ 32"
    and dec: "decide (wd_rule data) a (call_all act pre a (wuser w)) = Some (rm, rule)"
  shows "\<exists>l'. doForEachIf (reacting kept (wrapped_reaction decide act a)) (l, w) = Some (True, l',
         w\<lparr>wheap := (wheap w)(p \<mapsto> data\<lparr>wd_rule := rule\<rparr>),
           wuser := call_all act post a (act (wd_listener data) a (call_all act pre a (wuser w)))\<rparr>)
     \<and> listed l' (if rm then plain (pre @ post) else plain pre @ (h, Wrapped p) # plain post, n)"
proof -
  let ?es = "plain pre @ (h, Wrapped p) # plain post" and ?R = "wrapped_reaction decide act a"
  let ?w = "w\<lparr>wuser := call_all act pre a (wuser w)\<rparr>"
  let ?w' = "w\<lparr>wheap := (wheap w)(p \<mapsto> data\<lparr>wd_rule := rule\<rparr>), wuser := act (wd_listener data) a (call_all act pre a (wuser w))\<rparr>"
  have r: "?R h (Wrapped p) ?w = (True, if rm then [Remove h] else [], ?w')"
    using decide_on_data [of ?w p data decide a rm rule h act] data dec by (simp add: wrapped_reaction_def)
  have op: "spec_op (Remove h) (?es, n) = (plain pre @ plain post, n)"
    using without_self listed_distinct [OF l] unfolding spec_remove by (metis fst_conv snd_conv plain_simps(3))
  have sub: "fst ` set pre \<subseteq> fst ` set (fst (?es, n))" "fst ` set post \<subseteq> fst ` set (fst (plain pre @ plain post, n))"
    "fst ` set post \<subseteq> fst ` set (fst (?es, n))" by (auto simp: image_Un)
  note plains = spec_each_plain [where st = "(?es, n)", OF sub(1)] spec_each_plain [where es = "[]", OF sub(2)]
    spec_each_plain [where es = "[]", OF sub(3)]
  have "each_ok kept ?R ?es ((?es, n), w)" "each_ops ?R ?es ((?es, n), w) \<le> 1"
    "spec_each ?R ?es ((?es, n), w) = (True, (if rm then plain pre @ plain post else ?es, n),
        ?w'\<lparr>wuser := call_all act post a (wuser ?w')\<rparr>)"
    using r op by (cases rm; simp add: plains [simplified])+
  then show ?thesis using listed_each [OF l, of kept ?R w] room by auto
qed

text \<open>A counted and a conditional callback of a list.\<close>

theorem list_self_removing:
  assumes "listed l (plain pre @ (h, Wrapped p) # plain post, n)" and "unat (cl_counter l) + 1 < 2 ^ 32"
    and "wheap w p = Some data" "wd_handle data = Some h" "INT_MIN < wd_rule data" and "wheap v p = Some cdata" "wd_handle cdata = Some h"
  shows "(\<exists>l' w'. doForEachIf (\<lambda>h i st. (True, counter_call_list kept (acting act) i a st)) (l, w) = Some (True, l', w')
       \<and> wuser w' = call_all act (pre @ (h, wd_listener data) # post) a (wuser w)
       \<and> listed l' (if wd_rule data \<le> 1 then plain (pre @ post) else plain pre @ (h, Wrapped p) # plain post, n))
     \<and> (\<exists>l' v'. doForEachIf (\<lambda>h i st. (True, cond_call_list kept (acting act) i a st)) (l, v) = Some (True, l', v')
       \<and> wuser v' = call_all act (pre @ (h, wd_listener cdata) # post) a (wuser v)
       \<and> listed l' (if shouldRemove (wd_rule cdata) a (call_all act pre a (wuser v)) then plain (pre @ post)
                    else plain pre @ (h, Wrapped p) # plain post, n))"
  using assms(5) list_wrapped [OF assms(1,3,4,2), of counter_rule a act _ _ kept] list_wrapped [OF assms(1,6,7,2), of cond_rule a act _ _ kept]
  unfolding counter_call_list_reacts cond_call_list_reacts by (auto simp: counter_rule_def cond_rule_def)

section \<open>Properties\<close>

text \<open>
  C26: A listener added with a trigger count is called for as many dispatches as the count
  says, once if the count is not positive, and then no more; without fault, provided the
  count is not the smallest \<open>int\<close>, which cannot be decremented. One added
  with a condition is called up to and including the first dispatch whose argument satisfies
  the condition. In both cases the other listeners are called for every dispatch, in order,
  and from then on the dispatcher has just the other listeners.\<close>

theorem self_removing_listener:
  assumes "q_shows q (L, P)" and "fst (L e) = plain xs" and "room (Suc (length as)) q" and "INT_MIN < n"
  shows "(\<exists>q1 w1 q2 w2. counter_appendListener e c n (q, w) = (snd (L e), q1, w1)
       \<and> dispatches (counter_call kept (acting act)) e as (q1, w1) = Some (q2, w2)
       \<and> wuser w2 = called act xs (snd (L e), c) (nat (max 1 n)) as (wuser w) \<and> wfault w2 = wfault w
       \<and> q_shows q2 (L(e := (if int (length as) < max 1 n then plain xs @ [(snd (L e), Wrapped (wnext w))] else plain xs, Suc (snd (L e)))), P))
     \<and> (\<exists>q1 w1 q2 w2. cond_appendListener e c (With_args (\<lambda>a _. p a)) (q, v) = (snd (L e), q1, w1)
       \<and> dispatches (cond_call kept (acting act)) e as (q1, w1) = Some (q2, w2)
       \<and> wuser w2 = called act xs (snd (L e), c) (Suc (length (takeWhile (\<lambda>a. \<not> p a) as))) as (wuser v) \<and> wfault w2 = wfault v
       \<and> q_shows q2 (L(e := (if \<not> list_ex p as then plain xs @ [(snd (L e), Wrapped (wnext v))] else plain xs, Suc (snd (L e)))), P))"
proof -
  have ex: "length as < Suc (length (takeWhile (\<lambda>a. \<not> p a) as)) \<longleftrightarrow> \<not> list_ex p as"
    by (induction as) auto
  show ?thesis
    using appended_lifetime [OF assms(1-3) lifetime_counter [OF assms(4), of act xs c as "wuser w" "snd (L e)"], of kept]
      appended_lifetime [OF assms(1-3) lifetime_cond [of act xs c p as "wuser v" "snd (L e)"], of kept]
    unfolding ex counter_call_reacts cond_call_reacts counter_appendListener_def cond_appendListener_def by blast
qed

definition note_call :: "string \<Rightarrow> int \<Rightarrow> (string \<times> int) list \<Rightarrow> (string \<times> int) list" where
  "note_call c a s = s @ [(c, a)]"

definition one_listener :: "(string item, int) equeue" where
  "one_listener = snd (appendListener 1 (Plain ''A'') EventQueue)"

lemma one_listener_shows: "q_shows one_listener ((\<lambda>_. ([], 0))(1 := ([(0, Plain ''A'')], 1)), [])"
  using q_do_refines [OF EventQueue_shows, of "\<lambda>_ _. False" "QListen 1 (Append (Plain ''A''))"]
  by (simp add: one_listener_def q_do_def)

lemma one_listener_room: "room 4 one_listener"
proof -
  have "unat (cl_counter (list_at e one_listener)) \<le> 1" for e
    by (cases "e = 1") (simp_all add: one_listener_def appendListener_def cl_append_def doAllocateNode_def getNextCounter_def
        EventQueue_def list_at_def put_list_def CallbackList_def)
  note le = this
  show ?thesis unfolding room_def
  proof
    fix e
    show "unat (cl_counter (list_at e one_listener)) + 4 < 2 ^ 32" using le [of e] by simp
  qed
qed

theorem self_removing_listener_witness:
  "(\<exists>q1 w1 q2 w2. counter_appendListener 1 ''B'' 2 (one_listener, \<lparr>wheap = Map.empty, wnext = 0, wuser = [], wfault = None\<rparr>) = (1, q1, w1)
      \<and> dispatches (counter_call (\<lambda>_ _. True) (acting note_call)) 1 [7, 8, 9] (q1, w1) = Some (q2, w2)
      \<and> wuser w2 = [(''A'', 7), (''B'', 7), (''A'', 8), (''B'', 8), (''A'', 9)] \<and> wfault w2 = None)
   \<and> (\<exists>q1 w1 q2 w2. cond_appendListener 1 ''B'' (With_args (\<lambda>a _. 8 < a)) (one_listener, \<lparr>wheap = Map.empty, wnext = 0, wuser = [], wfault = None\<rparr>) = (1, q1, w1)
      \<and> dispatches (cond_call (\<lambda>_ _. True) (acting note_call)) 1 [7, 9, 10] (q1, w1) = Some (q2, w2)
      \<and> wuser w2 = [(''A'', 7), (''B'', 7), (''A'', 9), (''B'', 9), (''A'', 10)] \<and> wfault w2 = None)"
proof -
  let ?L = "(\<lambda>_. ([], 0))(1 := ([(0 :: nat, Plain ''A'')], 1 :: nat))"
  have xs: "fst (?L 1) = plain [(0, ''A'')]" by simp
  have room: "room (Suc (length [7, 8, 9 :: int])) one_listener" "room (Suc (length [7, 9, 10 :: int])) one_listener"
    using one_listener_room by (simp_all add: eval_nat_numeral)
  have n: "INT_MIN < 2" by (simp add: INT_MIN_def)
  note both = self_removing_listener [OF one_listener_shows xs _ n]
  show ?thesis
    using conjunct1 [OF both [OF room(1), of "''B''" "\<lparr>wheap = Map.empty, wnext = 0, wuser = [], wfault = None\<rparr>" "\<lambda>_ _. True" note_call]]
      conjunct2 [OF both [OF room(2), of "''B''" _ "\<lambda>_ _. True" note_call "\<lambda>a. 8 < a" "\<lparr>wheap = Map.empty, wnext = 0, wuser = [], wfault = None\<rparr>"]]
    by (simp add: called_def note_call_def) blast
qed

end
