(* ===== verification/Event_Util.thy ===== *)
theory Event_Util
  imports Event_Wrapper "HOL-Library.Option_ord" "HOL-Library.Multiset"
begin

text \<open>
  Further tools of eventpp on dispatchers and queues: searching for listeners
  (utilities/eventutil.h), filters before a dispatch (mixins/mixinfilter.h) and queues
  ordered by event (utilities/orderedqueuelist.h).
\<close>

section \<open>Searching for listeners\<close>

text \<open>The functions given to \<open>forEachIf\<close>; the state is \<open>found\<close>.\<close>

definition find_callback :: "'c \<Rightarrow> nat \<Rightarrow> 'c \<Rightarrow> 'q \<times> bool \<Rightarrow> bool \<times> 'q \<times> bool" where
  "find_callback c handle i st = (if i = c then (False, fst st, True) else (True, st))"

definition find_any :: "nat \<Rightarrow> 'c \<Rightarrow> 'q \<times> bool \<Rightarrow> bool \<times> 'q \<times> bool" where
  "find_any handle i st = (False, fst st, True)"

definition find_and_remove :: "(nat \<Rightarrow> 'q \<Rightarrow> 'q) \<Rightarrow> 'c \<Rightarrow> nat \<Rightarrow> 'c \<Rightarrow> 'q \<times> bool \<Rightarrow> bool \<times> 'q \<times> bool" where
  "find_and_remove remove c handle i st = (if i = c then (False, remove handle (fst st), True) else (True, st))"

definition util_remove :: "(nat \<Rightarrow> bool) \<Rightarrow> 'c \<Rightarrow> 'c clist \<Rightarrow> (bool \<times> 'c clist) option" where
  "util_remove kept c l =
     map_option (\<lambda>(_, l', found). (found, l')) (doForEachIf (find_and_remove (\<lambda>h l. snd (cl_remove kept h l)) c) (l, False))"

definition util_has :: "'c \<Rightarrow> 'c clist \<Rightarrow> bool option" where
  "util_has c l = map_option (\<lambda>(_, _, found). found) (doForEachIf (find_callback c) (l, False))"

definition util_hasAny :: "'c clist \<Rightarrow> bool option" where
  "util_hasAny l = map_option (\<lambda>(_, _, found). found) (doForEachIf find_any (l, False))"

definition util_removeListener :: "(int \<Rightarrow> nat \<Rightarrow> bool) \<Rightarrow> int \<Rightarrow> 'c \<Rightarrow> ('c, 'a) equeue \<Rightarrow> (bool \<times> ('c, 'a) equeue) option" where
  "util_removeListener kept e listener q =
     map_option (\<lambda>(_, q', found). (found, q'))
       (eq_forEachIf e (find_and_remove (\<lambda>h q. snd (removeListener kept e h q)) listener) (q, False))"

definition util_hasListener :: "int \<Rightarrow> 'c \<Rightarrow> ('c, 'a) equeue \<Rightarrow> bool option" where
  "util_hasListener e listener q = map_option (\<lambda>(_, _, found). found) (eq_forEachIf e (find_callback listener) (q, False))"

definition util_hasAnyListener :: "int \<Rightarrow> ('c, 'a) equeue \<Rightarrow> bool option" where
  "util_hasAnyListener e q = map_option (\<lambda>(_, _, found). found) (eq_forEachIf e find_any (q, False))"

section \<open>Filters\<close>

text \<open>
  A dispatcher with filters. A filter gets references to the arguments and may change
  them; its result says whether to go on.
\<close>

type_synonym ('f, 'a, 's) filtering = "'f \<Rightarrow> 'a \<times> 's \<Rightarrow> bool \<times> 'a \<times> 's"

definition appendFilter :: "'f \<Rightarrow> 'f clist \<Rightarrow> nat \<times> 'f clist" where
  "appendFilter f filterList = cl_append f filterList"

definition removeFilter :: "(nat \<Rightarrow> bool) \<Rightarrow> nat \<Rightarrow> 'f clist \<Rightarrow> bool \<times> 'f clist" where
  "removeFilter kept filterHandle filterList = cl_remove kept filterHandle filterList"

definition mixinBeforeDispatch :: "('f, 'a, 's) filtering \<Rightarrow> 'a \<Rightarrow> 'f clist \<times> 's \<Rightarrow> (bool \<times> 'a \<times> 's) option" where
  "mixinBeforeDispatch apply_filter a st =
     (let (filterList, s) = st in
      if cl_empty filterList then Some (True, a, s)
      else map_option (\<lambda>(go, _, a', s'). (go, a', s'))
             (doForEachIf (\<lambda>_ f (l, x). let (go, x') = apply_filter f x in (go, l, x')) (filterList, a, s)))"

definition filteredDispatch :: "('f, 'a, 's) filtering \<Rightarrow> ('c \<Rightarrow> 'a \<Rightarrow> ('c, 'a, 's) world \<Rightarrow> ('c, 'a, 's) world)
    \<Rightarrow> int \<Rightarrow> 'a \<Rightarrow> 'f clist \<Rightarrow> ('c, 'a, 's) world \<Rightarrow> ('c, 'a, 's) world option" where
  "filteredDispatch apply_filter call e a filterList st =
     (case mixinBeforeDispatch apply_filter a (filterList, snd st) of
        None \<Rightarrow> None
      | Some (go, a', s') \<Rightarrow> if \<not> go then Some (fst st, s') else directDispatch call e a' (fst st, s'))"

section \<open>Ordered queues\<close>

text \<open>
  \<open>doSort\<close> sorts the list with \<open>std::list::sort\<close>, which is stable; empty buffers come
  first. The comparison is that of the events.
\<close>

definition OrderedQueueListCompare :: "int \<times> 'a \<Rightarrow> int \<times> 'a \<Rightarrow> bool" where
  "OrderedQueueListCompare a b \<longleftrightarrow> fst a < fst b"

definition oq_before :: "(int \<times> 'a) buffered \<Rightarrow> (int \<times> 'a) buffered \<Rightarrow> bool" where
  "oq_before a b =
     (case bi_get a of
        None \<Rightarrow> (case bi_get b of None \<Rightarrow> False | Some _ \<Rightarrow> True)
      | Some x \<Rightarrow> (case bi_get b of None \<Rightarrow> False | Some y \<Rightarrow> OrderedQueueListCompare x y))"

fun list_insert :: "('a \<Rightarrow> 'a \<Rightarrow> bool) \<Rightarrow> 'a \<Rightarrow> 'a list \<Rightarrow> 'a list" where
  "list_insert before x [] = [x]"
| "list_insert before x (y # ys) = (if before y x then y # list_insert before x ys else x # y # ys)"

definition doSort :: "(int \<times> 'a) buffered list \<Rightarrow> (int \<times> 'a) buffered list" where
  "doSort xs = foldr (list_insert oq_before) xs []"

definition splice_all :: "nat \<Rightarrow> (int \<times> 'a) buffered list \<Rightarrow> (int \<times> 'a) buffered list \<Rightarrow> (int \<times> 'a) buffered list \<times> (int \<times> 'a) buffered list" where
  "splice_all pos xs other = (doSort (take pos xs @ other @ drop pos xs), [])"

definition splice_one :: "nat \<Rightarrow> (int \<times> 'a) buffered list \<Rightarrow> (int \<times> 'a) buffered list \<Rightarrow> nat
    \<Rightarrow> (int \<times> 'a) buffered list \<times> (int \<times> 'a) buffered list" where
  "splice_one pos xs other it = (doSort (take pos xs @ [other ! it] @ drop pos xs), take it other @ drop (Suc it) other)"

text \<open>\<open>doEnqueue\<close> of a queue whose lists are ordered.\<close>

definition ordered_doEnqueue :: "int \<times> 'a \<Rightarrow> ('c, 'a) equeue \<Rightarrow> ('c, 'a) equeue" where
  "ordered_doEnqueue item q =
     (let (temp, free) = (if freeList q \<noteq> [] then splice_one 0 [] (freeList q) 0 else ([], freeList q));
          temp1 = (if temp = [] then [None] else temp);
          temp2 = bi_set item (hd temp1) # tl temp1;
          (queue, _) = splice_one (length (queueList q)) (queueList q) temp2 0
      in q\<lparr>freeList := free, queueList := queue\<rparr>)"

definition ordered_enqueue :: "int \<Rightarrow> 'a \<Rightarrow> ('c, 'a) equeue \<Rightarrow> ('c, 'a) equeue" where
  "ordered_enqueue e a q = (let q1 = ordered_doEnqueue (e, a) q in if doCanProcess q1 then notify_one q1 else q1)"

section \<open>Lemmas\<close>

definition oq_key :: "(int \<times> 'a) buffered \<Rightarrow> int option" where
  "oq_key i = map_option fst i"

lemma oq_before_key: "oq_before a b \<longleftrightarrow> oq_key a < oq_key b"
  by (cases a; cases b) (auto simp: oq_before_def oq_key_def bi_get_def OrderedQueueListCompare_def)

lemma list_insert_insort: "list_insert oq_before x ys = insort_key oq_key x ys"
  by (induction ys) (auto simp: oq_before_key)

lemma doSort_sort: "doSort xs = sort_key oq_key xs"
proof -
  have "list_insert oq_before = (insort_key oq_key :: (int \<times> 'a) buffered \<Rightarrow> _)" by (intro ext) (rule list_insert_insort)
  then show ?thesis by (simp add: doSort_def sort_key_def)
qed

lemma sort_key_full: "sort_key oq_key (map Some xs) = map Some (sort_key fst xs)"
proof -
  have "insort_key oq_key (Some x) (map Some ys) = map Some (insort_key fst x ys)" for x :: "int \<times> 'a" and ys
    by (induction ys) (auto simp: oq_key_def)
  then show ?thesis by (induction xs) simp_all
qed

text \<open>A search over the entries of a list, which may take out what it finds.\<close>

definition search :: "('c \<Rightarrow> bool) \<Rightarrow> bool \<Rightarrow> ('s \<Rightarrow> bool \<Rightarrow> 's) \<Rightarrow> ('c, 's) reaction" where
  "search p rm set_found h i s = (if p i then (False, if rm then [Remove h] else [], set_found s True) else (True, [], set_found s False))"

lemma spec_search:
  assumes "set es \<subseteq> set (fst st)" and "set_found s False = s"
  shows "spec_each (search p rm set_found) es (st, s) =
      (case find (\<lambda>x. p (snd x)) es of
         None \<Rightarrow> (True, st, s)
       | Some x \<Rightarrow> (False, if rm then spec_op (Remove (fst x)) st else st, set_found s True))"
    and "each_ok kept (search p rm set_found) es (st, s)" and "each_ops (search p rm set_found) es (st, s) \<le> 1"
proof -
  have "spec_each (search p rm set_found) es (st, s) =
      (case find (\<lambda>x. p (snd x)) es of
         None \<Rightarrow> (True, st, s)
       | Some x \<Rightarrow> (False, if rm then spec_op (Remove (fst x)) st else st, set_found s True))
    \<and> each_ok kept (search p rm set_found) es (st, s) \<and> each_ops (search p rm set_found) es (st, s) \<le> 1"
    using assms
  proof (induction es)
    case (Cons x es)
    then have "fst x \<in> fst ` set (fst st)" by auto
    moreover from this have "op_ok kept (Remove (fst x)) st" by (cases st) simp
    ultimately show ?case using Cons by (cases x) (simp add: search_def)
  qed simp
  then show "spec_each (search p rm set_found) es (st, s) =
      (case find (\<lambda>x. p (snd x)) es of
         None \<Rightarrow> (True, st, s)
       | Some x \<Rightarrow> (False, if rm then spec_op (Remove (fst x)) st else st, set_found s True))"
    "each_ok kept (search p rm set_found) es (st, s)" "each_ops (search p rm set_found) es (st, s) \<le> 1" by simp_all
qed

definition taken :: "('c \<Rightarrow> bool) \<Rightarrow> bool \<Rightarrow> 'c entries \<times> nat \<Rightarrow> 'c entries \<times> nat" where
  "taken p rm st = (case find (\<lambda>x. p (snd x)) (fst st) of
       None \<Rightarrow> st | Some x \<Rightarrow> (if rm then remove1 x (fst st) else fst st, snd st))"

lemma remove_first:
  assumes "distinct (map fst es)" and "x \<in> set es"
  shows "filter (\<lambda>y. fst y \<noteq> fst x) es = remove1 x es"
proof -
  have "filter (\<lambda>y. fst y \<noteq> fst x) es = filter (\<lambda>y. y \<noteq> x) es"
    using assms by (intro filter_cong) (auto simp: distinct_map inj_on_def)
  moreover have "distinct es" using assms(1) by (simp add: distinct_map)
  ultimately show ?thesis by (simp add: distinct_remove1_removeAll removeAll_filter_not_eq eq_commute)
qed

lemma find_member: "find p xs = Some x \<Longrightarrow> x \<in> set xs \<and> p x"
  by (auto simp: find_Some_iff)

lemma search_list:
  assumes l: "listed l st" and c: "unat (cl_counter l) + 1 < 2 ^ 32" and s: "set_found s False = s"
  shows "\<exists>l'. doForEachIf (reacting kept (search p rm set_found)) (l, s) =
       Some (\<not> list_ex p (map snd (fst st)), l', if list_ex p (map snd (fst st)) then set_found s True else s)
     \<and> listed l' (taken p rm st)"
proof -
  note sp = spec_search [where set_found = set_found and s = s and st = st and es = "fst st" and p = p and rm = rm, OF subset_refl s]
  obtain go l' st' s' where r: "doForEachIf (reacting kept (search p rm set_found)) (l, s) = Some (go, l', s')" "listed l' st'"
    "spec_each (search p rm set_found) (fst st) (st, s) = (go, st', s')"
    using listed_each [OF l sp(2)] sp(3) c by fastforce
  show ?thesis
  proof (cases "find (\<lambda>x. p (snd x)) (fst st)")
    case None
    then have "\<not> list_ex p (map snd (fst st))" by (auto simp: find_None_iff list_ex_iff)
    then show ?thesis using r sp(1) None by (auto simp: taken_def)
  next
    case (Some x)
    have "distinct (map fst (fst st))" using listed_distinct [of l "fst st" "snd st"] l by simp
    then have "spec_op (Remove (fst x)) st = (remove1 x (fst st), snd st)"
      using remove_first [of "fst st" x] find_member [OF Some] by (simp add: spec_remove)
    moreover have "list_ex p (map snd (fst st))" using find_member [OF Some] by (auto simp: list_ex_iff)
    ultimately show ?thesis using r sp(1) Some by (auto simp: taken_def split: if_splits)
  qed
qed

text \<open>The functions of the source are searches.\<close>

lemma list_searches:
  "find_and_remove (\<lambda>h l. snd (cl_remove kept h l)) c = reacting kept (search (\<lambda>i. i = c) True (\<or>))"
  "find_callback c = reacting kept (search (\<lambda>i. i = c) False (\<or>))"
  "find_any = reacting kept (search (\<lambda>_. True) False (\<or>))"
  by (auto simp: find_and_remove_def find_callback_def find_any_def reacting_def search_def cl_do_def fun_eq_iff)

definition found_off :: "int \<Rightarrow> ('c, 'a) equeue \<times> bool \<Rightarrow> bool \<Rightarrow> ('c, 'a) equeue \<times> bool" where
  "found_off e st b = (take_list e (fst st), snd st \<or> b)"

lemma remove_put: "snd (removeListener kept e h (put_list e l q)) = put_list e (snd (cl_remove (kept e) h l)) q"
  by (simp add: removeListener_def doFindCallableList_def put_list_def case_prod_unfold Let_def)

lemma dispatcher_searches:
  "in_list e (find_and_remove (\<lambda>h q. snd (removeListener kept e h q)) c) = reacting (kept e) (search (\<lambda>i. i = c) True (found_off e))"
  "in_list e (find_callback c) = reacting (kept e) (search (\<lambda>i. i = c) False (found_off e))"
  "in_list e find_any = reacting (kept e) (search (\<lambda>_. True) False (found_off e))"
  by (auto simp: in_list_def find_and_remove_def find_callback_def find_any_def reacting_def search_def cl_do_def found_off_def
      remove_put fun_eq_iff)

lemma search_dispatcher:
  assumes q: "q_shows q (L, P)" and rm: "room 1 q" and f: "in_list e f = reacting (kept e) (search p rm' (found_off e))"
  shows "\<exists>q'. eq_forEachIf e f (q, False) = Some (\<not> list_ex p (map snd (fst (L e))), q', list_ex p (map snd (fst (L e))))
     \<and> q_shows q' (L(e := taken p rm' (L e)), P)"
proof (cases "eventCallbackListMap q e")
  case None
  then have "cl_alloc (list_at e q) = 0" by (simp add: list_at_def CallbackList_def)
  then have "L e = ([], 0)" using listed_no_nodes [of "list_at e q" "L e"] q by (simp add: q_shows_def)
  moreover have "taken p rm' ([], 0) = ([], 0)" by (simp add: taken_def)
  ultimately show ?thesis using None q by (simp add: eq_forEachIf_def doFindCallableList_def fun_upd_idem)
next
  case (Some l)
  have la: "list_at e q = l" using Some by (simp add: list_at_def)
  have l: "listed l (L e)" using q la by (auto simp: q_shows_def)
  have pq: "put_list e l (take_list e q) = q" using Some by (simp add: put_list_def take_list_def fun_upd_idem)
  have tt: "take_list e (take_list e q) = take_list e q" by (simp add: take_list_def)
  have "unat (cl_counter l) + 1 < 2 ^ 32" using rm la by (auto simp: room_def)
  moreover have "found_off e (take_list e q, False) False = (take_list e q, False)" by (simp add: found_off_def tt)
  ultimately obtain l' where l': "doForEachIf (reacting (kept e) (search p rm' (found_off e))) (l, take_list e q, False) =
      Some (\<not> list_ex p (map snd (fst (L e))), l', if list_ex p (map snd (fst (L e))) then found_off e (take_list e q, False) True else (take_list e q, False))"
    "listed l' (taken p rm' (L e))"
    using search_list [OF l, of "found_off e" "(take_list e q, False)" "kept e" p rm'] by blast
  have "shows_off e (take_list e q) (L(e := taken p rm' (L e)), P)"
    using q shows_off_put [of l "(L, P)" e "take_list e q"] l pq by (auto simp: shows_off_def)
  then have "q_shows (put_list e l' (take_list e q)) (L(e := taken p rm' (L e)), P)"
    using l'(2) by (simp add: shows_off_put)
  then show ?thesis using l'(1) Some f by (auto simp: eq_forEachIf_def doFindCallableList_def found_off_def tt)
qed

text \<open>Filters one after the other, until one rejects.\<close>

fun run_filters :: "('f, 'a, 's) filtering \<Rightarrow> 'f list \<Rightarrow> 'a \<times> 's \<Rightarrow> bool \<times> 'a \<times> 's" where
  "run_filters apply_filter [] x = (True, x)"
| "run_filters apply_filter (f # fs) x =
     (let (go, x') = apply_filter f x in if go then run_filters apply_filter fs x' else (False, x'))"

definition filter_react :: "('f, 'a, 's) filtering \<Rightarrow> ('f, 'a \<times> 's) reaction" where
  "filter_react apply_filter h f x = (fst (apply_filter f x), [], snd (apply_filter f x))"

lemma spec_filters:
  assumes "fst ` set es \<subseteq> fst ` set (fst st)"
  shows "spec_each (filter_react apply_filter) es (st, x) =
      (fst (run_filters apply_filter (map snd es) x), st, snd (run_filters apply_filter (map snd es) x))"
    and "each_ok kept (filter_react apply_filter) es (st, x)" and "each_ops (filter_react apply_filter) es (st, x) = 0"
  using assms
proof (induction es arbitrary: x)
  case (Cons y es)
  {
    case 1
    then show ?case using Cons.IH(1) by (cases y) (simp add: filter_react_def case_prod_unfold Let_def)
  next
    case 2
    then show ?case using Cons.IH(2) by (cases y) (simp add: filter_react_def)
  next
    case 3
    then show ?case using Cons.IH(3) by (cases y) (simp add: filter_react_def)
  }
qed simp_all

lemma filters_run:
  assumes "listed l st"
  shows "mixinBeforeDispatch apply_filter a (l, s) = Some (run_filters apply_filter (map snd (fst st)) (a, s))"
proof -
  let ?R = "filter_react apply_filter"
  have R: "(\<lambda>_ f (l, x). let (go, x') = apply_filter f x in (go, l, x')) = reacting (\<lambda>_. False) ?R"
    by (intro ext) (auto simp: reacting_def filter_react_def case_prod_unfold Let_def)
  note sp = spec_filters [where st = st and apply_filter = apply_filter, OF subset_refl]
  have "unat (cl_counter l) + each_ops ?R (fst st) (st, a, s) < 2 ^ 32"
    using unsigned_less [of "cl_counter l", where ?'a = nat] by (simp add: sp(3))
  then obtain go l' st' x where "doForEachIf (reacting (\<lambda>_. False) ?R) (l, a, s) = Some (go, l', x)"
    "spec_each ?R (fst st) (st, a, s) = (go, st', x)"
    using listed_each [OF assms sp(2) [where x = "(a, s)" and kept = "\<lambda>_. False"]] by blast
  then have "doForEachIf (reacting (\<lambda>_. False) ?R) (l, a, s) =
      Some (fst (run_filters apply_filter (map snd (fst st)) (a, s)), l', snd (run_filters apply_filter (map snd (fst st)) (a, s)))"
    by (auto simp: sp(1))
  moreover have "mixinBeforeDispatch apply_filter a (l, s) = (if cl_empty l then Some (True, a, s)
      else map_option (\<lambda>(go, _, a', s'). (go, a', s')) (doForEachIf (reacting (\<lambda>_. False) ?R) (l, a, s)))"
    unfolding mixinBeforeDispatch_def R [symmetric] by simp
  ultimately show ?thesis using listed_empty_iff [OF assms] by (simp add: case_prod_unfold)
qed

lemma sort_key_again: "sort_key f (sort_key f xs @ ys) = sort_key f (xs @ ys)"
proof (rule properties_for_sort_key)
  show "mset (sort_key f (xs @ ys)) = mset (sort_key f xs @ ys)" by simp
  show "filter (\<lambda>x. f k = f x) (sort_key f (xs @ ys)) = filter (\<lambda>x. f k = f x) (sort_key f xs @ ys)" for k
    by (simp add: sort_key_stable [of f "f k"] eq_commute)
qed simp

lemma ordered_enqueue_shows:
  assumes "q_shows q (L, P)"
  shows "q_shows (ordered_enqueue e a q) (L, sort_key fst (P @ [(e, a)]))"
proof -
  have "doSort (map Some P @ [Some (e, a)]) = map Some (sort_key fst (P @ [(e, a)]))"
    using sort_key_full [of "P @ [(e, a)]"] by (simp add: doSort_sort)
  then show ?thesis
    using assms by (cases "freeList q") (auto simp: q_shows_def list_at_def ordered_enqueue_def ordered_doEnqueue_def splice_one_def Let_def
        doSort_def bi_set_def notify_one_def)
qed

section \<open>Properties\<close>

text \<open>
  Searching a dispatcher or a callback list tells whether the listener is among its
  listeners, or whether there is any, and changes nothing; removing by listener takes out
  the first entry with that listener, and no other, and tells whether there was one.\<close>

theorem listener_search:
  assumes "listed l st" and "unat (cl_counter l) + 1 < 2 ^ 32" and "q_shows q (L, P)" and "room 1 q"
  shows "(\<exists>l'. util_remove kept c l = Some (c \<in> snd ` set (fst st), l') \<and> listed l' (taken (\<lambda>i. i = c) True st))
     \<and> util_has c l = Some (c \<in> snd ` set (fst st)) \<and> util_hasAny l = Some (fst st \<noteq> [])
     \<and> (\<exists>q'. util_removeListener qkept e c q = Some (c \<in> snd ` set (fst (L e)), q')
            \<and> q_shows q' (L(e := taken (\<lambda>i. i = c) True (L e)), P))
     \<and> util_hasListener e c q = Some (c \<in> snd ` set (fst (L e))) \<and> util_hasAnyListener e q = Some (fst (L e) \<noteq> [])"
proof -
  have ex: "list_ex (\<lambda>i. i = c) (map snd es) \<longleftrightarrow> c \<in> snd ` set es" "list_ex (\<lambda>_. True) (map snd es) \<longleftrightarrow> es \<noteq> []" for es
    by (auto simp: list_ex_iff intro!: Bex_set)
  note l = search_list [OF assms(1,2), of "(\<or>)" False] and d = search_dispatcher [where e = e, OF assms(3,4)]
  have "(\<exists>l'. util_remove kept c l = Some (c \<in> snd ` set (fst st), l') \<and> listed l' (taken (\<lambda>i. i = c) True st))"
    using l [of kept "\<lambda>i. i = c" True] by (auto simp: util_remove_def list_searches ex split: if_splits)
  moreover have "util_has c l = Some (c \<in> snd ` set (fst st))"
    using l [of "\<lambda>_. False" "\<lambda>i. i = c" False] by (auto simp: util_has_def list_searches(2) [of c "\<lambda>_. False"] ex split: if_splits)
  moreover have "util_hasAny l = Some (fst st \<noteq> [])"
    using l [of "\<lambda>_. False" "\<lambda>_. True" False] by (auto simp: util_hasAny_def list_searches(3) [of "\<lambda>_. False"] ex split: if_splits)
  moreover have "\<exists>q'. util_removeListener qkept e c q = Some (c \<in> snd ` set (fst (L e)), q')
      \<and> q_shows q' (L(e := taken (\<lambda>i. i = c) True (L e)), P)"
    using d [where kept = qkept, OF dispatcher_searches(1) [of e qkept c]] by (auto simp: util_removeListener_def ex)
  moreover have "util_hasListener e c q = Some (c \<in> snd ` set (fst (L e)))" "util_hasAnyListener e q = Some (fst (L e) \<noteq> [])"
    using d [where kept = "\<lambda>_ _. False", OF dispatcher_searches(2) [of e c "\<lambda>_ _. False"]]
      d [where kept = "\<lambda>_ _. False", OF dispatcher_searches(3) [of e "\<lambda>_ _. False"]]
    by (auto simp: util_hasListener_def util_hasAnyListener_def ex)
  ultimately show ?thesis by blast
qed

theorem listener_search_witness:
  "(\<exists>l'. util_remove (\<lambda>_. True) ''A'' sample_list = Some (True, l') \<and> listed l' ([(1, ''B''), (2, ''C'')], 3))
   \<and> util_has ''D'' sample_list = Some False
   \<and> util_hasAnyListener 9 (EventQueue :: (string, int) equeue) = Some False"
proof -
  have c: "unat (cl_counter sample_list) + 1 < 2 ^ 32"
  proof -
    have "unat (cl_counter sample_list) = 3" unfolding sample_list_def by code_simp
    then show ?thesis by simp
  qed
  have r: "room 1 (EventQueue :: (string, int) equeue)"
    by (simp add: room_def EventQueue_def list_at_def CallbackList_def)
  note s = listener_search [OF sample_list_listed c EventQueue_shows r, of "\<lambda>_. True"]
  show ?thesis using s [of "''A''" "\<lambda>_ _. True" 9] s [of "''D''" "\<lambda>_ _. True" 9] by (simp add: taken_def)
qed

text \<open>
  C27: A queue ordered by event keeps its pending events sorted by event and, among those of
  one event, in the order they were enqueued: enqueuing a sequence of events is sorting the
  pending and the new ones with a stable sort. Listeners are not changed.\<close>

theorem ordered_queue_priority:
  assumes "q_shows q (L, P)" and "sorted (map fst P)"
  shows "q_shows (fold (\<lambda>(e, a). ordered_enqueue e a) xs q) (L, sort_key fst (P @ xs))"
  using assms
proof (induction xs arbitrary: q P)
  case Nil
  then show ?case by (simp add: sort_key_id_if_sorted)
next
  case (Cons x xs)
  obtain e a where x: "x = (e, a)" by (cases x)
  have "q_shows (fold (\<lambda>(e, a). ordered_enqueue e a) xs (ordered_enqueue e a q)) (L, sort_key fst (sort_key fst (P @ [(e, a)]) @ xs))"
    by (rule Cons.IH [OF ordered_enqueue_shows [OF Cons.prems(1)]]) simp
  then show ?case by (simp add: x sort_key_again)
qed

theorem ordered_queue_priority_witness:
  "q_shows (fold (\<lambda>(e, a). ordered_enqueue e a) [(3, ''c''), (1, ''a''), (3, ''b''), (1, ''d'')] (EventQueue :: (nat, string) equeue))
     (\<lambda>_. ([], 0), [(1, ''a''), (1, ''d''), (3, ''c''), (3, ''b'')])"
  using ordered_queue_priority [OF EventQueue_shows, of "[(3, ''c''), (1, ''a''), (3, ''b''), (1, ''d'')]"] by simp

text \<open>
  Filters gate a dispatch: they are run in their order on the arguments, each seeing the
  changes of those before it, up to the first that rejects; if one rejects no listener is
  called, otherwise the listeners get the arguments as the filters left them.\<close>

theorem filters_gate_dispatch:
  assumes "listed filterList st"
  shows "filteredDispatch apply_filter call e a filterList (q, s) =
     (case run_filters apply_filter (map snd (fst st)) (a, s) of
        (True, a', s') \<Rightarrow> directDispatch call e a' (q, s')
      | (False, a', s') \<Rightarrow> Some (q, s'))"
  by (simp add: filteredDispatch_def filters_run [OF assms] split: prod.split bool.split)

theorem filters_gate_dispatch_witness:
  "filteredDispatch (\<lambda>f (a, s). (a < (10 :: int), a + 4, s @ [f])) (\<lambda>c a (q, s). (q, s @ [c])) 1 3 sample_list (EventQueue, [])
     = Some (EventQueue, [''A'', ''B'', ''C''])"
  using filters_gate_dispatch [OF sample_list_listed, of "\<lambda>f (a, s). (a < (10 :: int), a + 4, s @ [f])" "\<lambda>c a (q, s). (q, s @ [c])" 1 3 EventQueue "[]"]
  by simp

end
