(* ===== verification/Event_Wait.thy ===== *)
theory Event_Wait
  imports Event_Process "HOL-Library.Sublist"
begin

text \<open>
  \<open>wait\<close> and \<open>waitFor\<close> of 3rd/include/eventpp/eventqueue.h, among threads that enqueue events,
  take them out by any of the operations that do, and hold \<open>DisableQueueNotify\<close> objects.

  The other theories take the operations of the queue one at a time. Here each of them is a
  thread with a program counter, and a step is what a thread does under \<open>queueListMutex\<close> in
  one go, or one read of \<open>queueList.empty()\<close> without the mutex, or one access to an atomic
  counter. A thread in \<open>wait\<close> holds the mutex over several steps, because its predicate reads
  the list and both counters one after the other and the mutex does not protect the counters.
  A callback that uses the queue while its event is dispatched is one more thread.

  The shared state is the list and the two counters. The free list has a mutex of its own and
  no decision of these operations to wait or to notify depends on it; the read of
  \<open>queueList.empty()\<close> without the mutex is taken to be atomic.
\<close>

section \<open>The shared state and the threads\<close>

record 'e wait_queue =
  wq_list :: "'e list"      \<comment> \<open>\<open>queueList\<close>\<close>
  wq_empty :: int           \<comment> \<open>\<open>queueEmptyCounter\<close>\<close>
  wq_notify :: int          \<comment> \<open>\<open>queueNotifyCounter\<close>\<close>

text \<open>\<open>wait\<close>, \<open>waitFor\<close>, and \<open>waitFor\<close> once its time is over.\<close>

datatype wait_mode = Forever | For_Time | Over

datatype consumer = Process | Process_One | Process_If | Process_Until | Take_Event | Clear_Events

datatype 'e pc =
    Done
  | E_Push 'e | E_List | E_Empty | E_Notify | E_Wake                 \<comment> \<open>\<open>enqueue\<close>\<close>
  | D_New | D_Live | D_Notify | D_List | D_Empty | D_Wake            \<comment> \<open>\<open>DisableQueueNotify\<close>\<close>
  | T_Lock wait_mode | T_List wait_mode | T_Empty wait_mode | T_Notify wait_mode | T_Block wait_mode
  | Blocked wait_mode | Returned                                     \<comment> \<open>\<open>wait\<close> and \<open>waitFor\<close>\<close>
  | C_Read consumer | C_Enter consumer | C_Take consumer | C_Run consumer "'e list" | C_Back "'e list" | C_Leave

section \<open>What the threads do\<close>

text \<open>
  \<open>enqueue\<close>: the event is appended under the mutex; then \<open>doCanProcess\<close> reads the list, the
  empty counter if the list is empty, and the notify counter.
\<close>

fun enqueue_step :: "'e pc \<Rightarrow> 'e wait_queue \<Rightarrow> 'e pc \<times> 'e wait_queue" where
  "enqueue_step (E_Push e) q = (E_List, q\<lparr>wq_list := wq_list q @ [e]\<rparr>)"
| "enqueue_step E_List q = (if wq_list q = [] then E_Empty else E_Notify, q)"
| "enqueue_step E_Empty q = (if wq_empty q = 0 then Done else E_Notify, q)"
| "enqueue_step E_Notify q = (if wq_notify q = 0 then E_Wake else Done, q)"
| "enqueue_step t q = (t, q)"

text \<open>
  A \<open>DisableQueueNotify\<close> object: the constructor, and the destructor, which reads the notify
  counter, the list, and the empty counter if the list is empty. No access is under the mutex.
\<close>

fun disable_step :: "'e pc \<Rightarrow> 'e wait_queue \<Rightarrow> 'e pc \<times> 'e wait_queue" where
  "disable_step D_New q = (D_Live, q\<lparr>wq_notify := wq_notify q + 1\<rparr>)"
| "disable_step D_Live q = (D_Notify, q\<lparr>wq_notify := wq_notify q - 1\<rparr>)"
| "disable_step D_Notify q = (if wq_notify q = 0 then D_List else Done, q)"
| "disable_step D_List q = (if wq_list q = [] then D_Empty else D_Wake, q)"
| "disable_step D_Empty q = (if wq_empty q = 0 then Done else D_Wake, q)"
| "disable_step t q = (t, q)"

text \<open>
  \<open>wait(lock, predicate)\<close>: the lock is taken, the predicate \<open>doCanProcess\<close> is evaluated, and
  if it is false the thread blocks and gives up the lock; woken, it takes the lock and tests
  again. A \<open>waitFor\<close> whose time is over tests for the last time.
\<close>

definition must_block :: "wait_mode \<Rightarrow> 'e pc" where
  "must_block m = (if m = Over then Done else T_Block m)"

fun wait_step :: "'e pc \<Rightarrow> 'e wait_queue \<Rightarrow> 'e pc \<times> 'e wait_queue" where
  "wait_step (T_Lock m) q = (T_List m, q)"
| "wait_step (T_List m) q = (if wq_list q = [] then T_Empty m else T_Notify m, q)"
| "wait_step (T_Empty m) q = (if wq_empty q = 0 then must_block m else T_Notify m, q)"
| "wait_step (T_Notify m) q = (if wq_notify q = 0 then Returned else must_block m, q)"
| "wait_step (T_Block m) q = (Blocked m, q)"
| "wait_step t q = (t, q)"

fun wake :: "bool \<Rightarrow> 'e pc \<Rightarrow> 'e pc" where
  "wake late (Blocked m) = T_Lock (if late \<and> m = For_Time then Over else m)"
| "wake late t = t"

text \<open>
  The operations that take events out: a look at the list without the mutex; the counter
  guard, except in \<open>takeEvent\<close> and \<open>clearEvents\<close>; one event or all of them under the mutex;
  the dispatch; \<open>processIf\<close> and \<open>processUntil\<close> put what they have not dispatched back to the
  front, under the mutex; the end of the guard.
\<close>

definition guarded :: "consumer \<Rightarrow> bool" where
  "guarded k \<longleftrightarrow> k \<noteq> Take_Event \<and> k \<noteq> Clear_Events"

definition takes_one :: "consumer \<Rightarrow> bool" where
  "takes_one k \<longleftrightarrow> k = Process_One \<or> k = Take_Event"

text \<open>What is left in \<open>tempList\<close> after the dispatch.\<close>

fun may_keep :: "consumer \<Rightarrow> 'e list \<Rightarrow> 'e list \<Rightarrow> bool" where
  "may_keep Process_If kept temp \<longleftrightarrow> subseq kept temp"
| "may_keep Process_Until kept temp \<longleftrightarrow> suffix kept temp"
| "may_keep k kept temp \<longleftrightarrow> kept = []"

fun consume_step :: "'e list \<Rightarrow> 'e pc \<Rightarrow> 'e wait_queue \<Rightarrow> 'e pc \<times> 'e wait_queue" where
  "consume_step kept (C_Read k) q = (if wq_list q = [] then Done else if guarded k then C_Enter k else C_Take k, q)"
| "consume_step kept (C_Enter k) q = (C_Take k, q\<lparr>wq_empty := wq_empty q + 1\<rparr>)"
| "consume_step kept (C_Take k) q =
     (let n = (if takes_one k then 1 else length (wq_list q)); temp = take n (wq_list q)
      in (if \<not> guarded k then Done else if temp = [] then C_Leave else C_Run k temp, q\<lparr>wq_list := drop n (wq_list q)\<rparr>))"
| "consume_step kept (C_Run k temp) q = (if kept = [] then C_Leave else C_Back kept, q)"
| "consume_step kept (C_Back temp) q = (C_Leave, q\<lparr>wq_list := temp @ wq_list q\<rparr>)"
| "consume_step kept C_Leave q = (Done, q\<lparr>wq_empty := wq_empty q - 1\<rparr>)"
| "consume_step kept t q = (t, q)"

text \<open>The next step of a thread: at most one of the four applies to a program counter.\<close>

fun thread_step :: "'e list \<Rightarrow> 'e pc \<Rightarrow> 'e wait_queue \<Rightarrow> 'e pc \<times> 'e wait_queue" where
  "thread_step kept t q =
     (case t of
        Done \<Rightarrow> (t, q) | Blocked _ \<Rightarrow> (t, q) | Returned \<Rightarrow> (t, q) | E_Wake \<Rightarrow> (t, q) | D_Wake \<Rightarrow> (t, q)
      | E_Push _ \<Rightarrow> enqueue_step t q | E_List \<Rightarrow> enqueue_step t q | E_Empty \<Rightarrow> enqueue_step t q | E_Notify \<Rightarrow> enqueue_step t q
      | D_New \<Rightarrow> disable_step t q | D_Live \<Rightarrow> disable_step t q | D_Notify \<Rightarrow> disable_step t q | D_List \<Rightarrow> disable_step t q
      | D_Empty \<Rightarrow> disable_step t q
      | T_Lock _ \<Rightarrow> wait_step t q | T_List _ \<Rightarrow> wait_step t q | T_Empty _ \<Rightarrow> wait_step t q | T_Notify _ \<Rightarrow> wait_step t q
      | T_Block _ \<Rightarrow> wait_step t q
      | _ \<Rightarrow> consume_step kept t q)"

section \<open>Interleavings\<close>

record 'e wait_sys =
  ws_queue :: "'e wait_queue"
  ws_threads :: "'e pc list"

definition wait_sys_new :: "'e wait_sys" where
  "wait_sys_new = \<lparr>ws_queue = \<lparr>wq_list = [], wq_empty = 0, wq_notify = 0\<rparr>, ws_threads = []\<rparr>"

text \<open>A thread in \<open>wait\<close> holds the mutex from its lock to its blocking.\<close>

fun holds_mutex :: "'e pc \<Rightarrow> bool" where
  "holds_mutex (T_List m) \<longleftrightarrow> True"
| "holds_mutex (T_Empty m) \<longleftrightarrow> True"
| "holds_mutex (T_Notify m) \<longleftrightarrow> True"
| "holds_mutex (T_Block m) \<longleftrightarrow> True"
| "holds_mutex t \<longleftrightarrow> False"

fun takes_mutex :: "'e pc \<Rightarrow> bool" where
  "takes_mutex (E_Push e) \<longleftrightarrow> True"
| "takes_mutex (T_Lock m) \<longleftrightarrow> True"
| "takes_mutex (C_Take k) \<longleftrightarrow> True"
| "takes_mutex (C_Back temp) \<longleftrightarrow> True"
| "takes_mutex t \<longleftrightarrow> False"

fun runs :: "'e list \<Rightarrow> 'e pc \<Rightarrow> bool" where
  "runs kept Done \<longleftrightarrow> False"
| "runs kept (Blocked m) \<longleftrightarrow> False"
| "runs kept Returned \<longleftrightarrow> False"
| "runs kept E_Wake \<longleftrightarrow> False"
| "runs kept D_Wake \<longleftrightarrow> False"
| "runs kept (C_Run k temp) \<longleftrightarrow> may_keep k kept temp"
| "runs kept t \<longleftrightarrow> True"

fun blocked :: "'e pc \<Rightarrow> bool" where
  "blocked (Blocked m) \<longleftrightarrow> True"
| "blocked t \<longleftrightarrow> False"

fun starts :: "'e pc \<Rightarrow> bool" where
  "starts (E_Push e) \<longleftrightarrow> True"
| "starts D_New \<longleftrightarrow> True"
| "starts (T_Lock m) \<longleftrightarrow> m \<noteq> Over"
| "starts (C_Read k) \<longleftrightarrow> True"
| "starts t \<longleftrightarrow> False"

text \<open>
  A call from outside; a step of a thread, with what a consumer keeps; a \<open>notify_one\<close>, which
  wakes any one of the blocked threads if there is one; a call of a consumer by a thread that
  \<open>wait\<close> or \<open>waitFor\<close> has told that there are events; the end of a wait without cause and by
  timeout.
\<close>

datatype 'e wait_cmd =
    Call "'e pc" | Run nat "'e list" | Wake nat "nat option" bool | Consume nat consumer | Spurious nat bool | Timeout nat

definition at :: "'e wait_sys \<Rightarrow> nat \<Rightarrow> 'e pc" where
  "at s i = (if i < length (ws_threads s) then ws_threads s ! i else Done)"

fun wait_ready :: "'e wait_cmd \<Rightarrow> 'e wait_sys \<Rightarrow> bool" where
  "wait_ready (Call t) s \<longleftrightarrow> starts t"
| "wait_ready (Run i kept) s \<longleftrightarrow> runs kept (at s i) \<and> (takes_mutex (at s i) \<longrightarrow> list_all (Not \<circ> holds_mutex) (ws_threads s))"
| "wait_ready (Wake i j late) s \<longleftrightarrow> (at s i = E_Wake \<or> at s i = D_Wake)
     \<and> (case j of None \<Rightarrow> list_all (Not \<circ> blocked) (ws_threads s) | Some j \<Rightarrow> blocked (at s j))"
| "wait_ready (Consume i k) s \<longleftrightarrow> at s i = Returned"
| "wait_ready (Spurious j late) s \<longleftrightarrow> blocked (at s j)"
| "wait_ready (Timeout j) s \<longleftrightarrow> at s j = Blocked For_Time"

definition move :: "nat \<Rightarrow> 'e pc \<Rightarrow> 'e wait_sys \<Rightarrow> 'e wait_sys" where
  "move i t s = s\<lparr>ws_threads := (ws_threads s)[i := t]\<rparr>"

fun wait_do :: "'e wait_cmd \<Rightarrow> 'e wait_sys \<Rightarrow> 'e wait_sys" where
  "wait_do (Call t) s = s\<lparr>ws_threads := ws_threads s @ [t]\<rparr>"
| "wait_do (Run i kept) s = (let (t, q) = thread_step kept (at s i) (ws_queue s) in (move i t s)\<lparr>ws_queue := q\<rparr>)"
| "wait_do (Wake i j late) s = move i Done (case j of None \<Rightarrow> s | Some j \<Rightarrow> move j (wake late (at s j)) s)"
| "wait_do (Consume i k) s = move i (C_Read k) s"
| "wait_do (Spurious j late) s = move j (wake late (at s j)) s"
| "wait_do (Timeout j) s = move j (wake True (at s j)) s"

text \<open>
  The two ways to spoil a wake-up: a \<open>DisableQueueNotify\<close> object ends, and notifications are
  enabled beside events, while a thread has made up its mind to block; or a consumer leaves
  events in the list, because it takes only one or puts some back. The list being empty makes
  good for both.
\<close>

fun blocking :: "'e pc \<Rightarrow> bool" where
  "blocking (T_Block m) \<longleftrightarrow> True"
| "blocking t \<longleftrightarrow> False"

fun spoils :: "'e wait_cmd \<Rightarrow> 'e wait_sys \<Rightarrow> bool" where
  "spoils (Run i kept) s \<longleftrightarrow>
     (case at s i of
        D_Live \<Rightarrow> wq_notify (ws_queue s) = 1 \<and> list_ex blocking (ws_threads s)
      | C_Take k \<Rightarrow> takes_one k
      | C_Back temp \<Rightarrow> True
      | _ \<Rightarrow> False)"
| "spoils c s \<longleftrightarrow> False"

inductive wait_reach :: "bool \<Rightarrow> 'e wait_sys \<Rightarrow> bool" where
  start: "wait_reach False wait_sys_new"
| step: "wait_reach spoilt s \<Longrightarrow> wait_ready c s \<Longrightarrow> s' = wait_do c s \<Longrightarrow>
     wait_reach ((spoilt \<or> spoils c s) \<and> wq_list (ws_queue s') \<noteq> []) s'"

text \<open>Without another thread between, the steps are the operations of Event_Queue.\<close>

fun alone :: "nat \<Rightarrow> 'e pc \<Rightarrow> 'e wait_queue \<Rightarrow> 'e pc \<times> 'e wait_queue" where
  "alone 0 t q = (t, q)"
| "alone (Suc n) t q = (let (t', q') = thread_step [] t q in alone n t' q')"

definition queue_of :: "('c, 'a) equeue \<Rightarrow> (int \<times> 'a) wait_queue" where
  "queue_of q = \<lparr>wq_list = map the (queueList q), wq_empty = queueEmptyCounter q, wq_notify = queueNotifyCounter q\<rparr>"

lemmas wait_ops = queue_of_def emptyQueue_def doCanProcess_def doCanNotifyQueueAvailable_def notify_one_def Let_def numeral_eq_Suc
  must_block_def guarded_def takes_one_def

lemma enqueue_alone:
  "alone 4 (E_Push (e, a)) (queue_of q) =
     (if doCanProcess (doEnqueue (e, a) q) then E_Wake else Done, queue_of (enqueue e a q))"
  by (auto simp: wait_ops enqueue_def doEnqueue_def bi_set_def split: list.split)

lemma disable_alone:
  "alone 1 D_New (queue_of q) = (D_Live, queue_of (disable_notify q))"
  "\<exists>t. alone 4 D_Live (queue_of q) = (t, queue_of (enable_notify q))
     \<and> (t = D_Wake \<longleftrightarrow> notifications (enable_notify q) = Suc (notifications q))"
  by (auto simp: wait_ops disable_notify_def enable_notify_def)

lemma wait_alone:
  "alone 4 (T_List m) (queue_of q) = (if doCanProcess q then Returned else if m = Over then Done else Blocked m, queue_of q)"
  by (auto simp: wait_ops)

lemma take_alone:
  "clearEvents q = Some q' \<Longrightarrow> alone 2 (C_Read Clear_Events) (queue_of q) = (Done, queue_of q')"
  "takeEvent q = Some (x, q') \<Longrightarrow> alone 2 (C_Read Take_Event) (queue_of q) = (Done, queue_of q')"
  by (auto simp: wait_ops clearEvents_def takeEvent_def split: if_splits option.splits list.splits)

lemma process_alone:
  assumes "queueList q \<noteq> []" and "guarded k" and "\<not> takes_one k"
  shows "alone 3 (C_Read k) (queue_of q) = (C_Run k (map the (queueList q)), queue_of ((guard_enter q)\<lparr>queueList := []\<rparr>))"
  using assms by (simp add: queue_of_def guard_enter_def numeral_eq_Suc)

section \<open>Wake-ups\<close>

text \<open>Threads that are about to look for events, to take them, or to notify.\<close>

fun stirring :: "'e pc \<Rightarrow> bool" where
  "stirring E_List \<longleftrightarrow> True"
| "stirring E_Notify \<longleftrightarrow> True"
| "stirring E_Wake \<longleftrightarrow> True"
| "stirring D_Notify \<longleftrightarrow> True"
| "stirring D_List \<longleftrightarrow> True"
| "stirring D_Wake \<longleftrightarrow> True"
| "stirring (T_Lock m) \<longleftrightarrow> True"
| "stirring (T_List m) \<longleftrightarrow> True"
| "stirring (T_Notify m) \<longleftrightarrow> True"
| "stirring Returned \<longleftrightarrow> True"
| "stirring (C_Read k) \<longleftrightarrow> True"
| "stirring (C_Enter k) \<longleftrightarrow> True"
| "stirring (C_Take k) \<longleftrightarrow> True"
| "stirring t \<longleftrightarrow> False"

definition wq_events :: "'e wait_queue \<Rightarrow> bool" where
  "wq_events q \<longleftrightarrow> wq_list q \<noteq> [] \<and> wq_notify q = 0"

text \<open>
  Every live \<open>DisableQueueNotify\<close> object counts; a thread that has seen the list empty under
  the mutex is right about it.
\<close>

definition seen_inv :: "'e wait_sys \<Rightarrow> bool" where
  "seen_inv s \<longleftrightarrow> wq_notify (ws_queue s) = int (count_list (ws_threads s) D_Live)
     \<and> (\<forall>m. T_Empty m \<in> set (ws_threads s) \<longrightarrow> wq_list (ws_queue s) = [])"

text \<open>A thread that has made up its mind to block has a reason, and blocked threads are not alone with events.\<close>

definition wake_inv :: "'e wait_sys \<Rightarrow> bool" where
  "wake_inv s \<longleftrightarrow> (wq_events (ws_queue s) \<longrightarrow> \<not> list_ex blocking (ws_threads s)
     \<and> (list_ex blocked (ws_threads s) \<longrightarrow> list_ex stirring (ws_threads s)))"

lemma at_set: "at s i = t \<Longrightarrow> t \<noteq> Done \<Longrightarrow> i < length (ws_threads s) \<and> ws_threads s ! i = t \<and> t \<in> set (ws_threads s)"
  by (auto simp: at_def split: if_splits)

lemma count_list_update:
  "i < length xs \<Longrightarrow> count_list (xs[i := y]) x + (if xs ! i = x then 1 else 0) = count_list xs x + (if y = x then 1 else 0)"
proof (induction xs arbitrary: i)
  case (Cons a xs)
  show ?case
  proof (cases i)
    case (Suc j)
    then show ?thesis using Cons.IH [of j] Cons.prems by (cases "a = x") simp_all
  qed simp
qed simp

lemma set_moved: "i < length xs \<Longrightarrow> u \<in> set (xs[i := y]) \<Longrightarrow> u = y \<or> u \<in> set xs"
  using set_update_subset_insert [of xs i y] by auto

lemma moved_in: "i < length xs \<Longrightarrow> y \<in> set (xs[i := y])"
  by (simp add: set_update_memI)

lemma others_moved: "i < length xs \<Longrightarrow> u \<in> set xs \<Longrightarrow> u \<noteq> xs ! i \<Longrightarrow> u \<in> set (xs[i := y])"
  by (metis in_set_conv_nth length_list_update nth_list_update_neq)

lemma list_ex_moved: "list_ex P (xs[i := y]) \<Longrightarrow> \<not> P y \<Longrightarrow> list_ex P xs"
  using set_update_subset_insert [of xs i y] by (auto simp: list_ex_iff)

text \<open>How a step that moves one thread keeps the second invariant.\<close>

lemma wake_inv_moved:
  assumes i: "wake_inv s" "i < length (ws_threads s)" and ev: "wq_events q \<longrightarrow> wq_events (ws_queue s)"
    and b: "blocking t \<longrightarrow> \<not> wq_events q"
    and st: "stirring t \<or> (\<not> stirring (ws_threads s ! i) \<and> \<not> blocked t) \<or> \<not> wq_events q"
  shows "wake_inv ((move i t s)\<lparr>ws_queue := q\<rparr>)"
  unfolding wake_inv_def
proof (intro impI conjI)
  let ?ts = "ws_threads s"
  assume "wq_events (ws_queue ((move i t s)\<lparr>ws_queue := q\<rparr>))"
  then have e: "wq_events q" "wq_events (ws_queue s)" using ev by simp_all
  then show "\<not> list_ex blocking (ws_threads ((move i t s)\<lparr>ws_queue := q\<rparr>))"
    using i b set_moved [OF i(2), of _ t] by (auto simp: wake_inv_def move_def list_ex_iff)
  assume bl: "list_ex blocked (ws_threads ((move i t s)\<lparr>ws_queue := q\<rparr>))"
  show "list_ex stirring (ws_threads ((move i t s)\<lparr>ws_queue := q\<rparr>))"
  proof (cases "stirring t")
    case True
    then show ?thesis using moved_in [OF i(2), of t] by (auto simp: move_def list_ex_iff)
  next
    case False
    then have n: "\<not> stirring (?ts ! i)" "\<not> blocked t" using st e by simp_all
    then have "list_ex blocked ?ts" using bl set_moved [OF i(2), of _ t] by (auto simp: move_def list_ex_iff)
    then obtain u where u: "u \<in> set ?ts" "stirring u" using i(1) e by (auto simp: wake_inv_def list_ex_iff)
    then have "u \<in> set (?ts[i := t])" using others_moved [OF i(2)] n by metis
    then show ?thesis using u by (auto simp: move_def list_ex_iff)
  qed
qed

lemma wake_inv_quiet: "\<not> wq_events (ws_queue s) \<Longrightarrow> wake_inv s"
  by (simp add: wake_inv_def)

lemma wake_inv_stirred:
  assumes "i < length (ws_threads s)" and "stirring t" and "\<not> list_ex blocking (ws_threads s)"
  shows "wake_inv ((move i t s)\<lparr>ws_queue := q\<rparr>)"
proof -
  have "\<not> blocking t" using assms(2) by (cases t) auto
  then show ?thesis using assms moved_in [OF assms(1), of t] set_moved [OF assms(1), of _ t]
    by (auto simp: wake_inv_def move_def list_ex_iff)
qed

lemma seen_inv_run:
  assumes i: "seen_inv s" and r: "wait_ready (Run i kept) s"
  shows "seen_inv (wait_do (Run i kept) s)"
proof -
  obtain t q where tq: "thread_step kept (at s i) (ws_queue s) = (t, q)" by fastforce
  have "at s i \<noteq> Done" using r by auto
  then have at: "i < length (ws_threads s)" "ws_threads s ! i = at s i" "at s i \<in> set (ws_threads s)" using at_set by blast+
  have c: "int (count_list ((ws_threads s)[i := t]) D_Live) =
      wq_notify (ws_queue s) + (if t = D_Live then 1 else 0) - (if at s i = D_Live then 1 else 0)"
    using count_list_update [OF at(1), of t D_Live] i unfolding at(2) by (auto simp: seen_inv_def split: if_splits)
  have n: "wq_notify q = wq_notify (ws_queue s) + (if t = D_Live then 1 else 0) - (if at s i = D_Live then 1 else 0)"
    using tq r by (cases "at s i") (auto simp: must_block_def Let_def split: if_splits)
  have "wq_list q = wq_list (ws_queue s) \<or> takes_mutex (at s i)"
    using tq r by (cases "at s i") (auto simp: Let_def split: if_splits)
  then have l: "T_Empty m \<in> set (ws_threads s) \<Longrightarrow> wq_list q = []" for m
    using i r by (force simp: seen_inv_def list_all_iff)
  have "t = T_Empty m \<Longrightarrow> wq_list q = []" for m
    using tq r by (cases "at s i") (auto simp: must_block_def Let_def split: if_splits)
  with l c n show ?thesis using tq set_moved [OF at(1)] by (auto simp: seen_inv_def move_def)
qed

lemma wake_inv_run:
  assumes i: "wake_inv s" "seen_inv s" and r: "wait_ready (Run i kept) s" and n: "\<not> spoils (Run i kept) s"
  shows "wake_inv (wait_do (Run i kept) s)"
proof -
  obtain t q where tq: "thread_step kept (at s i) (ws_queue s) = (t, q)" by fastforce
  have "at s i \<noteq> Done" using r by auto
  then have at: "i < length (ws_threads s)" "ws_threads s ! i = at s i" "at s i \<in> set (ws_threads s)" using at_set by blast+
  have doing: "wait_do (Run i kept) s = (move i t s)\<lparr>ws_queue := q\<rparr>" using tq by (simp del: thread_step.simps)
  have nb: "\<not> blocked (at s i)" using r by (cases "at s i") auto
  note moved = wake_inv_moved [OF i(1) at(1), of q t, unfolded at(2)]
  consider (push) e where "at s i = E_Push e" | (last) "at s i = D_Live" | (block) m where "at s i = T_Block m"
    | (other) "\<not> takes_mutex (at s i)" "at s i \<noteq> D_Live" "\<not> blocking (at s i)" | (lock) m where "at s i = T_Lock m"
    | (take) k where "at s i = C_Take k" | (give) temp where "at s i = C_Back temp"
    by (cases "at s i") auto
  then show ?thesis
  proof cases
    case push
    then have "\<not> list_ex blocking (ws_threads s)" using r by (auto simp: list_ex_iff list_all_iff elim!: blocking.elims)
    then show ?thesis unfolding doing using wake_inv_stirred [OF at(1), of t q] push tq by auto
  next
    case last
    have "count_list (ws_threads s) D_Live > 0" using at(3) last by (metis count_list_0_iff neq0_conv)
    then have "wq_notify (ws_queue s) > 0" using i(2) by (simp add: seen_inv_def)
    then show ?thesis
      using last tq n wake_inv_stirred [OF at(1), of t q] unfolding doing by (auto intro: wake_inv_quiet simp: wq_events_def)
  next
    case block
    then have "\<not> wq_events (ws_queue s)" using i(1) at(3) by (force simp: wake_inv_def list_ex_iff)
    then show ?thesis unfolding doing using block tq by (intro wake_inv_quiet) auto
  next
    case other
    then show ?thesis unfolding doing using tq r i(2) at(3) nb
      by (intro moved; cases "at s i") (auto simp: wq_events_def must_block_def seen_inv_def split: if_splits)
  next
    case lock
    then show ?thesis unfolding doing using tq by (intro moved) auto
  next
    case take
    then show ?thesis unfolding doing using tq n by (intro wake_inv_quiet) (auto simp: wq_events_def Let_def)
  next
    case give
    then show ?thesis using n by simp
  qed
qed

lemma seen_inv_moved:
  assumes i: "seen_inv s" and at: "at s i \<noteq> Done" "at s i \<noteq> D_Live" and t: "t \<noteq> D_Live" "\<forall>m. t \<noteq> T_Empty m"
  shows "seen_inv (move i t s)"
proof -
  have l: "i < length (ws_threads s)" "ws_threads s ! i = at s i" using at(1) at_set by blast+
  have "count_list ((ws_threads s)[i := t]) D_Live = count_list (ws_threads s) D_Live"
    using count_list_update [OF l(1), of t D_Live] at(2) l(2) t by simp
  then show ?thesis using i t set_moved [OF l(1)] by (auto simp: seen_inv_def move_def)
qed

lemma blocked_wake: "blocked t \<Longrightarrow> \<exists>m. wake late t = T_Lock m \<and> t \<noteq> Done \<and> t \<noteq> D_Live"
  by (cases t) auto

lemma seen_inv_wake: "seen_inv s \<Longrightarrow> blocked (at s j) \<Longrightarrow> seen_inv (move j (wake late (at s j)) s)"
  using blocked_wake [of "at s j" late] by (auto intro!: seen_inv_moved)

lemma seen_inv_step:
  assumes i: "seen_inv s" and r: "wait_ready c s"
  shows "seen_inv (wait_do c s)"
proof (cases c)
  case (Call t)
  then show ?thesis using i r by (cases t) (auto simp: seen_inv_def)
next
  case (Run k kept)
  then show ?thesis using seen_inv_run i r by blast
next
  case (Wake k j late)
  let ?s = "case j of None \<Rightarrow> s | Some j \<Rightarrow> move j (wake late (at s j)) s"
  have "seen_inv ?s" using i seen_inv_wake [OF i] r Wake by (auto split: option.split)
  moreover have "at ?s k = at s k" using r Wake by (auto simp: at_def move_def nth_list_update split: option.split)
  ultimately show ?thesis using r Wake by (auto intro!: seen_inv_moved)
qed (use i r in \<open>auto intro!: seen_inv_moved seen_inv_wake\<close>)

lemma wake_inv_wake:
  assumes i: "wake_inv s" and j: "blocked (at s j)"
  shows "wake_inv (move j (wake late (at s j)) s)"
proof -
  obtain m where m: "wake late (at s j) = T_Lock m" "at s j \<noteq> Done" using blocked_wake [OF j] by blast
  then have "j < length (ws_threads s)" using at_set by blast
  from wake_inv_moved [OF i this, of "ws_queue s" "T_Lock m"] show ?thesis unfolding m(1) by (simp add: move_def)
qed

lemma wake_inv_done:
  assumes i: "wake_inv s" and at: "at s k = E_Wake \<or> at s k = D_Wake"
    and w: "list_ex blocked (ws_threads s) \<Longrightarrow> \<exists>m. T_Lock m \<in> set (ws_threads s)"
  shows "wake_inv (move k Done s)"
proof -
  have l: "k < length (ws_threads s)" "ws_threads s ! k = at s k" using at at_set by force+
  have "list_ex stirring ((ws_threads s)[k := Done])" if b: "list_ex blocked (ws_threads s)"
  proof -
    obtain m where m: "T_Lock m \<in> set (ws_threads s)" using w [OF b] by blast
    have "T_Lock m \<noteq> ws_threads s ! k" using l(2) at by auto
    from others_moved [OF l(1) m this] have "T_Lock m \<in> set ((ws_threads s)[k := Done])" .
    then show ?thesis by (metis list_ex_iff stirring.simps(7))
  qed
  then show ?thesis using i unfolding wake_inv_def by (auto simp: move_def dest!: list_ex_moved)
qed

lemma wake_inv_step:
  assumes i: "seen_inv s" "wake_inv s" and r: "wait_ready c s" and n: "\<not> spoils c s"
  shows "wake_inv (wait_do c s)"
proof (cases c)
  case (Call t)
  then show ?thesis using i r by (cases t) (auto simp: wake_inv_def)
next
  case (Run k kept)
  then show ?thesis using wake_inv_run i r n by blast
next
  case (Wake k j late)
  show ?thesis
  proof (cases j)
    case None
    then have "\<not> list_ex blocked (ws_threads s)" using r Wake by (auto simp: list_ex_iff list_all_iff)
    then show ?thesis using wake_inv_done [OF i(2)] r None Wake by auto
  next
    case (Some l)
    let ?s = "move l (wake late (at s l)) s"
    have l: "blocked (at s l)" using r Wake Some by simp
    then obtain m where m: "wake late (at s l) = T_Lock m" "at s l \<noteq> Done" using blocked_wake by blast
    then have "T_Lock m \<in> set (ws_threads ?s)" using at_set [OF refl m(2)] moved_in by (auto simp: move_def)
    moreover have "at ?s k = at s k" using l r Wake by (auto simp: at_def move_def nth_list_update)
    ultimately show ?thesis using wake_inv_done [OF wake_inv_wake [OF i(2) l, of late], of k] r Wake Some by auto
  qed
next
  case (Consume k x)
  then have "k < length (ws_threads s)" using r at_set by force
  from wake_inv_moved [OF i(2) this, of "ws_queue s" "C_Read x"] show ?thesis using Consume by (simp add: move_def)
next
  case (Timeout k)
  then show ?thesis using wake_inv_wake [OF i(2), of k True] r by simp
qed (use wake_inv_wake [OF i(2)] r in auto)

lemma wait_reach_inv: "wait_reach spoilt s \<Longrightarrow> seen_inv s \<and> (\<not> spoilt \<longrightarrow> wake_inv s)"
proof (induction rule: wait_reach.induct)
  case start
  show ?case by (simp add: seen_inv_def wake_inv_def wait_sys_new_def)
next
  case (step spoilt s c s')
  then show ?case using seen_inv_step [of s c] wake_inv_step [of s c] wake_inv_quiet [of s'] by (auto simp: wq_events_def)
qed

fun wait_play :: "'e wait_cmd list \<Rightarrow> bool \<times> 'e wait_sys \<Rightarrow> (bool \<times> 'e wait_sys) option" where
  "wait_play [] st = Some st"
| "wait_play (c # cs) (spoilt, s) =
     (if wait_ready c s then
        let s' = wait_do c s in wait_play cs ((spoilt \<or> spoils c s) \<and> wq_list (ws_queue s') \<noteq> [], s')
      else None)"

lemma wait_play_reach: "wait_reach spoilt s \<Longrightarrow> wait_play cs (spoilt, s) = Some (spoilt', s') \<Longrightarrow> wait_reach spoilt' s'"
proof (induction cs arbitrary: spoilt s)
  case (Cons c cs)
  then have "wait_ready c s" by (auto split: if_splits)
  with Cons wait_reach.step [OF Cons.prems(1) this refl] show ?case by (auto simp: Let_def)
qed simp

section \<open>Properties\<close>

text \<open>
  C19: Threads that wait for events are woken. In every state the threads can reach, a thread
  is blocked beside events, with notifications enabled, only if another thread is about to
  look for events, to take them or to notify; unless, since the list was last empty, a
  consumer has left events in the list (\<open>processOne\<close>, \<open>takeEvent\<close>, \<open>processIf\<close>, \<open>processUntil\<close>), or
  the last \<open>DisableQueueNotify\<close> object has ended while a thread was between the test of its
  predicate and its blocking.\<close>

theorem event_wait_woken:
  assumes "wait_reach False s" and "Blocked m \<in> set (ws_threads s)" and "wq_list (ws_queue s) \<noteq> []" and "wq_notify (ws_queue s) = 0"
  shows "\<exists>t\<in>set (ws_threads s). stirring t"
  using wait_reach_inv [OF assms(1)] assms(2-4) by (force simp: wake_inv_def wq_events_def list_ex_iff)

definition sample_wait :: "nat wait_cmd list" where
  "sample_wait = [Call (T_Lock For_Time), Run 0 [], Run 0 [], Run 0 [], Run 0 [], Call (E_Push 7), Run 1 []]"

theorem event_wait_woken_witness:
  "\<exists>s :: nat wait_sys. wait_reach False s \<and> wq_list (ws_queue s) = [7] \<and> wq_notify (ws_queue s) = 0
     \<and> ws_threads s = [Blocked For_Time, E_List] \<and> (\<exists>t\<in>set (ws_threads s). stirring t)"
proof -
  let ?s = "\<lparr>ws_queue = \<lparr>wq_list = [7 :: nat], wq_empty = 0, wq_notify = 0\<rparr>, ws_threads = [Blocked For_Time, E_List]\<rparr>"
  have "wait_play sample_wait (False, wait_sys_new) = Some (False, ?s)"
    by (simp add: sample_wait_def wait_sys_new_def at_def move_def must_block_def)
  from wait_play_reach [OF wait_reach.start this] have r: "wait_reach False ?s" .
  from event_wait_woken [OF r, of For_Time] show ?thesis using r by (intro exI [of _ ?s]) simp
qed

text \<open>Blocked threads beside events, and nobody that would do anything about it.\<close>

definition asleep :: "'e wait_sys \<Rightarrow> bool" where
  "asleep s \<longleftrightarrow> wq_events (ws_queue s) \<and> list_ex blocked (ws_threads s) \<and> list_all (\<lambda>t. t = Done \<or> blocked t) (ws_threads s)"

fun from_outside :: "'e wait_cmd \<Rightarrow> bool" where
  "from_outside (Call t) \<longleftrightarrow> True"
| "from_outside (Spurious j late) \<longleftrightarrow> True"
| "from_outside (Timeout j) \<longleftrightarrow> True"
| "from_outside c \<longleftrightarrow> False"

lemma at_move [simp]: "at (move i t s) k = (if k = i \<and> i < length (ws_threads s) then t else at s k)"
  by (simp add: at_def move_def)

lemma at_queue [simp]: "at (s\<lparr>ws_queue := q\<rparr>) k = at s k" "ws_queue (move i t s) = ws_queue s"
  "length (ws_threads (move i t s)) = length (ws_threads s)"
  by (simp_all add: at_def move_def)

lemma all_at: "P Done \<Longrightarrow> list_all P (ws_threads s) \<longleftrightarrow> (\<forall>k. P (at s k))"
  by (auto simp: at_def list_all_length)

lemma ex_at: "\<not> P Done \<Longrightarrow> list_ex P (ws_threads s) \<longleftrightarrow> (\<exists>k. P (at s k))"
  by (auto simp: at_def list_ex_length)

lemma asleep_at: "asleep s \<longleftrightarrow> wq_events (ws_queue s) \<and> (\<exists>k. blocked (at s k)) \<and> (\<forall>k. at s k = Done \<or> blocked (at s k))"
  by (simp add: asleep_def all_at ex_at)

lemma asleep_outside:
  assumes "asleep s" and "wait_ready c s"
  shows "from_outside c"
proof -
  have a: "at s k = Done \<or> blocked (at s k)" for k using assms(1) by (simp add: asleep_at)
  show ?thesis
  proof (cases c)
    case (Run k kept)
    then show ?thesis using assms(2) a [of k] by (cases "at s k") auto
  next
    case (Wake k j late)
    then show ?thesis using assms(2) a [of k] by auto
  next
    case (Consume k x)
    then show ?thesis using assms(2) a [of k] by auto
  qed simp_all
qed

lemma list_all_moved: "list_all P xs \<Longrightarrow> P y \<Longrightarrow> list_all P (xs[i := y])"
  using set_update_subset_insert [of xs i y] by (auto simp: list_all_iff)

text \<open>
  C20: A lost wake-up. The end of a \<open>DisableQueueNotify\<close> object changes \<open>queueNotifyCounter\<close>
  without the mutex. Whenever the last such object ends while another thread is between the
  test of its predicate and its blocking, beside events and with no other thread at work, it
  depends on the order of two steps whether the thread is woken. If the destructor notifies
  before the thread blocks, the notification finds nobody: the thread stays blocked beside
  events, with notifications enabled, until something from outside happens. If the thread
  blocks first, the notification wakes it.\<close>

theorem event_wait_lost:
  assumes "at s i = T_Block m" and "at s d = D_Live" and "\<forall>k. k \<noteq> i \<and> k \<noteq> d \<longrightarrow> at s k = Done"
    and "wq_list (ws_queue s) \<noteq> []" and "wq_notify (ws_queue s) = 1"
  shows "(\<exists>s'. wait_play [Run d [], Run d [], Run d [], Wake d None False, Run i []] (spoilt, s) = Some (True, s')
       \<and> at s' i = Blocked m \<and> asleep s' \<and> (\<forall>c. wait_ready c s' \<longrightarrow> from_outside c))
     \<and> (\<exists>s'. wait_play [Run d [], Run d [], Run d [], Run i [], Wake d (Some i) False] (spoilt, s) = Some (True, s')
       \<and> at s' i = T_Lock m)"
proof -
  have l: "i < length (ws_threads s)" "ws_threads s ! i = T_Block m" "d < length (ws_threads s)" "ws_threads s ! d = D_Live" "i \<noteq> d"
    using assms(1,2) at_set by fastforce+
  have "\<not> blocked (at s k)" for k using assms(1-3) by (cases "k = i \<or> k = d") auto
  then have nb: "list_all (Not \<circ> blocked) (ws_threads s)" by (simp add: all_at)
  have bl: "list_ex blocking (ws_threads s)" using assms(1) by (auto simp: ex_at intro!: exI [of _ i])
  let ?s = "\<lambda>t. s\<lparr>ws_queue := (ws_queue s)\<lparr>wq_notify := 0\<rparr>, ws_threads := (ws_threads s)[d := Done, i := t]\<rparr>"
  have one: "wait_play [Run d [], Run d [], Run d [], Wake d None False, Run i []] (spoilt, s) = Some (True, ?s (Blocked m))"
    using l nb bl assms(4,5) by (simp add: at_def move_def list_all_moved)
  have two: "wait_play [Run d [], Run d [], Run d [], Run i [], Wake d (Some i) False] (spoilt, s) = Some (True, ?s (T_Lock m))"
    using l bl assms(4,5) by (simp add: at_def move_def list_update_swap [of i d])
  have at: "at (?s t) k = (if k = i then t else Done)" for t k
    using assms(3) l by (auto simp: at_def nth_list_update)
  have "asleep (?s (Blocked m))" using assms(4) unfolding asleep_at at by (auto simp: wq_events_def)
  then show ?thesis using one two at asleep_outside by auto
qed

text \<open>A thread waits while notifications are disabled and an event is there.\<close>

definition sample_race :: "nat wait_cmd list" where
  "sample_race = [Call D_New, Run 0 [], Call (E_Push 7), Run 1 [], Run 1 [], Run 1 [],
     Call (T_Lock Forever), Run 2 [], Run 2 [], Run 2 []]"

theorem event_wait_lost_witness:
  "\<exists>(s :: nat wait_sys) s'. wait_reach False s \<and> ws_threads s = [D_Live, Done, T_Block Forever]
     \<and> wait_play [Run 0 [], Run 0 [], Run 0 [], Wake 0 None False, Run 2 []] (False, s) = Some (True, s')
     \<and> wait_reach True s' \<and> at s' 2 = Blocked Forever \<and> asleep s'"
proof -
  let ?s = "\<lparr>ws_queue = \<lparr>wq_list = [7 :: nat], wq_empty = 0, wq_notify = 1\<rparr>, ws_threads = [D_Live, Done, T_Block Forever]\<rparr>"
  have "wait_play sample_race (False, wait_sys_new) = Some (False, ?s)"
    by (simp add: sample_race_def wait_sys_new_def at_def move_def must_block_def)
  from wait_play_reach [OF wait_reach.start this] have r: "wait_reach False ?s" .
  have "at ?s 2 = T_Block Forever" "at ?s 0 = D_Live" "\<forall>k. k \<noteq> 2 \<and> k \<noteq> 0 \<longrightarrow> at ?s k = Done"
    by (auto simp: at_def less_Suc_eq numeral_eq_Suc)
  from event_wait_lost [OF this, of False] obtain s' where
    "wait_play [Run 0 [], Run 0 [], Run 0 [], Wake 0 None False, Run 2 []] (False, ?s) = Some (True, s')"
    "at s' 2 = Blocked Forever" "asleep s'" by auto
  with wait_play_reach [OF r this(1)] r show ?thesis by (intro exI [of _ ?s] exI [of _ s']) simp
qed

text \<open>
  The same end without \<open>DisableQueueNotify\<close>: a consumer that puts events back does not notify,
  and a thread that has blocked in the meantime stays blocked beside them.\<close>

theorem event_give_back_lost:
  assumes "at s i = Blocked m" and "at s c = C_Back temp" and "temp \<noteq> []" and "\<forall>k. k \<noteq> i \<and> k \<noteq> c \<longrightarrow> at s k = Done"
    and "wq_notify (ws_queue s) = 0"
  shows "\<exists>s'. wait_play [Run c [], Run c []] (spoilt, s) = Some (True, s')
     \<and> wq_list (ws_queue s') = temp @ wq_list (ws_queue s) \<and> at s' i = Blocked m \<and> asleep s'"
proof -
  have l: "c < length (ws_threads s)" "ws_threads s ! c = C_Back temp" "i \<noteq> c" using assms(1,2) at_set by fastforce+
  have "\<not> holds_mutex (at s k)" for k using assms(1,2,4) by (cases "k = i \<or> k = c") auto
  then have nb: "list_all (Not \<circ> holds_mutex) (ws_threads s)" by (simp add: all_at)
  let ?s = "s\<lparr>ws_queue := (ws_queue s)\<lparr>wq_list := temp @ wq_list (ws_queue s), wq_empty := wq_empty (ws_queue s) - 1\<rparr>,
      ws_threads := (ws_threads s)[c := Done]\<rparr>"
  have one: "wait_play [Run c [], Run c []] (spoilt, s) = Some (True, ?s)"
    using l nb assms(3) by (simp add: at_def move_def)
  have at: "at ?s k = (if k = i then Blocked m else Done)" for k
    using assms(1,4) l by (auto simp: at_def nth_list_update)
  have "asleep ?s" using assms(3,5) unfolding asleep_at at by (auto simp: wq_events_def)
  then show ?thesis using one at by simp
qed

text \<open>Two threads wait; the one that is woken processes by a predicate that the event does not satisfy.\<close>

definition sample_back :: "nat wait_cmd list" where
  "sample_back = [Call (T_Lock Forever), Run 0 [], Run 0 [], Run 0 [], Run 0 [],
     Call (T_Lock Forever), Run 1 [], Run 1 [], Run 1 [], Run 1 [],
     Call (E_Push 7), Run 2 [], Run 2 [], Run 2 [], Wake 2 (Some 1) False,
     Run 1 [], Run 1 [], Run 1 [], Consume 1 Process_If, Run 1 [], Run 1 [], Run 1 [], Run 1 [7]]"

theorem event_give_back_lost_witness:
  "\<exists>s' :: nat wait_sys. wait_reach True s' \<and> wq_list (ws_queue s') = [7] \<and> at s' 0 = Blocked Forever \<and> asleep s'"
proof -
  let ?s = "\<lparr>ws_queue = \<lparr>wq_list = [], wq_empty = 1, wq_notify = 0\<rparr>, ws_threads = [Blocked Forever, C_Back [7 :: nat], Done]\<rparr>"
  have "wait_play sample_back (False, wait_sys_new) = Some (False, ?s)"
    by (simp add: sample_back_def wait_sys_new_def at_def move_def must_block_def guarded_def takes_one_def)
  from wait_play_reach [OF wait_reach.start this] have r: "wait_reach False ?s" .
  have "at ?s 0 = Blocked Forever" "at ?s 1 = C_Back [7]" "\<forall>k. k \<noteq> 0 \<and> k \<noteq> 1 \<longrightarrow> at ?s k = Done"
    by (auto simp: at_def less_Suc_eq numeral_eq_Suc)
  from event_give_back_lost [OF this(1,2) _ this(3), of False] obtain s' where
    "wait_play [Run 1 [], Run 1 []] (False, ?s) = Some (True, s')" "wq_list (ws_queue s') = [7]"
    "at s' 0 = Blocked Forever" "asleep s'" by auto
  with wait_play_reach [OF r this(1)] show ?thesis by blast
qed

end
