(* ===== verification/Ini_Binary.thy ===== *)
theory Ini_Binary
  imports Ini
begin

text \<open>
  \<open>saveBinary\<close> and \<open>parseBinary\<close> of libControlCAN/inc/ini.h. A stream is the \<open>istream\<close> of the
  text reader: the characters left and the bits for end of file and failure. Counts are
  \<open>size_t\<close>, 64 bits in the byte order of the machine. Variables that the code leaves
  uninitialised are \<open>None\<close>; using one is a fault.
\<close>

section \<open>Writing\<close>

fun le_chars :: "nat \<Rightarrow> nat \<Rightarrow> string" where
  "le_chars 0 n = []"
| "le_chars (Suc k) n = char_of (n mod 256) # le_chars k (n div 256)"

fun le_number :: "string \<Rightarrow> nat" where
  "le_number [] = 0"
| "le_number (c # cs) = of_char c + 256 * le_number cs"

definition binary_entry :: "string \<times> string \<Rightarrow> string" where
  "binary_entry e = fst e @ [LF] @ snd e @ [LF]"

definition binary_section :: "string \<times> (string \<times> string) list \<Rightarrow> string" where
  "binary_section e = le_chars 8 (length (snd e)) @ fst e @ [LF] @ concat (map binary_entry (snd e))"

definition binary_text :: "table_order \<Rightarrow> string" where
  "binary_text order = le_chars 8 (length order) @ concat (map binary_section order)"

definition saveBinary :: "table_order \<Rightarrow> ini \<Rightarrow> string \<Rightarrow> bool \<Rightarrow> string option" where
  "saveBinary order i filename opens =
     (if \<not> has_file_association i filename then None
      else if \<not> opens then None
      else Some (binary_text order))"

section \<open>Reading\<close>

text \<open>
  The start of a formatted extraction: a stream that is not good fails; white space is
  skipped, and reaching the end of the file fails too.
\<close>

definition sentry :: "istream \<Rightarrow> bool \<times> istream" where
  "sentry st =
     (if ist_eof st \<or> ist_fail st then (False, st\<lparr>ist_fail := True\<rparr>)
      else let r = dropWhile isspace (ist_rest st)
           in if r = [] then (False, \<lparr>ist_rest = [], ist_eof = True, ist_fail = True\<rparr>) else (True, st\<lparr>ist_rest := r\<rparr>))"

definition is_digit :: "char \<Rightarrow> bool" where
  "is_digit c \<longleftrightarrow> c \<in> set ''0123456789''"

definition dec_number :: "string \<Rightarrow> nat" where
  "dec_number ds = foldl (\<lambda>n c. 10 * n + (of_char c - 48)) 0 ds"

text \<open>
  \<open>file >> n\<close> for a \<open>size_t\<close>: a sign and digits. Without digits \<open>n\<close> becomes 0, beyond the range
  it becomes the maximum, and both fail; a minus sign negates modulo the range. When the
  extraction does not start, \<open>n\<close> keeps its value.
\<close>

definition extract_size :: "nat option \<Rightarrow> istream \<Rightarrow> nat option \<times> istream" where
  "extract_size old st =
     (let (ok, st1) = sentry st in
      if \<not> ok then (old, st1)
      else
        let r = ist_rest st1;
            sign = (if hd r \<in> {CHR ''+'', CHR ''-''} then [hd r] else []);
            ds = takeWhile is_digit (drop (length sign) r);
            rest = drop (length sign + length ds) r;
            n = dec_number ds;
            st2 = \<lparr>ist_rest = rest, ist_eof = (rest = []), ist_fail = (ds = [] \<or> n \<ge> 2 ^ 64)\<rparr>
        in (Some (if ds = [] then 0 else if n \<ge> 2 ^ 64 then 2 ^ 64 - 1
                  else if sign = ''-'' then (2 ^ 64 - n) mod 2 ^ 64 else n), st2))"

text \<open>\<open>file >> s\<close> for a string: up to the next white space.\<close>

definition extract_string :: "string \<Rightarrow> istream \<Rightarrow> string \<times> istream" where
  "extract_string old st =
     (let (ok, st1) = sentry st in
      if \<not> ok then (old, st1)
      else let w = takeWhile (\<lambda>c. \<not> isspace c) (ist_rest st1); rest = drop (length w) (ist_rest st1)
           in (w, st1\<lparr>ist_rest := rest, ist_eof := (rest = [])\<rparr>))"

text \<open>
  \<open>file.read(&n, 8)\<close>: the bytes that are there go into the lower part of \<open>n\<close>; fewer than
  eight set both bits.
\<close>

definition read_size :: "nat option \<Rightarrow> istream \<Rightarrow> nat option \<times> istream" where
  "read_size old st =
     (if ist_eof st \<or> ist_fail st then (old, st\<lparr>ist_fail := True\<rparr>)
      else let bs = take 8 (ist_rest st) in
           if length bs = 8 then (Some (le_number bs), st\<lparr>ist_rest := drop 8 (ist_rest st)\<rparr>)
           else (map_option (\<lambda>n. le_number (bs @ drop (length bs) (le_chars 8 n))) old, \<lparr>ist_rest = [], ist_eof = True, ist_fail = True\<rparr>))"

text \<open>
  \<open>file.seekg(1 + file.tellg())\<close>: on a stream that is not good \<open>tellg\<close> fails, \<open>seekg\<close> clears
  the end-of-file bit and then does nothing.
\<close>

definition seek_next :: "istream \<Rightarrow> istream" where
  "seek_next st =
     (if ist_eof st \<or> ist_fail st then st\<lparr>ist_eof := False, ist_fail := True\<rparr>
      else st\<lparr>ist_rest := drop 1 (ist_rest st)\<rparr>)"

text \<open>The variables of \<open>parseBinary\<close> that live across its loops.\<close>

record binary_vars =
  bv_stream :: istream
  bv_keyCount :: "nat option"
  bv_key :: string
  bv_value :: string
  bv_section :: string

fun parse_keys :: "nat \<Rightarrow> binary_vars \<Rightarrow> ini \<Rightarrow> (binary_vars \<times> ini) res" where
  "parse_keys 0 b i = Inr (b, i)"
| "parse_keys (Suc n) b i =
     (let (key, st1) = extract_string (bv_key b) (bv_stream b);
          (v, st2) = extract_string (bv_value b) st1
      in and_then (set_key i key v) (\<lambda>(i', _).
         parse_keys n (b\<lparr>bv_stream := st2, bv_key := key, bv_value := v\<rparr>) i'))"

fun parse_sections :: "nat \<Rightarrow> bool \<Rightarrow> binary_vars \<Rightarrow> ini \<Rightarrow> ini res" where
  "parse_sections 0 first b i = Inr i"
| "parse_sections (Suc n) first b i =
     (let st0 = (if first then bv_stream b else seek_next (bv_stream b));
          (cnt, st1) = read_size (bv_keyCount b) st0;
          (section, st2) = extract_string (bv_section b) st1;
          (i1, _) = ini_create i section
      in case cnt of
           None \<Rightarrow> Inl Uninit_Value
         | Some m \<Rightarrow> and_then (parse_keys m (b\<lparr>bv_stream := st2, bv_keyCount := cnt, bv_section := section\<rparr>) i1) (\<lambda>(b', i').
             parse_sections n False b' i'))"

definition parseBinary :: "string option \<Rightarrow> ini \<Rightarrow> (bool \<times> ini) res" where
  "parseBinary content i =
     (case content of
        None \<Rightarrow> Inr (False, i)
      | Some file \<Rightarrow>
          (case extract_size None (open_text file) of
             (None, st) \<Rightarrow> Inl Uninit_Value
           | (Some sectionCount, st) \<Rightarrow>
               and_then (parse_sections sectionCount True
                   \<lparr>bv_stream = st, bv_keyCount = None, bv_key = [], bv_value = [], bv_section = []\<rparr> i)
                 (\<lambda>i'. Inr (True, i'))))"

section \<open>What is read back\<close>

definition good_word :: "string \<Rightarrow> bool" where
  "good_word w \<longleftrightarrow> w \<noteq> [] \<and> list_all (\<lambda>c. \<not> isspace c) w"

definition binary_order :: "table_order \<Rightarrow> bool" where
  "binary_order order \<longleftrightarrow> distinct (map fst order)
     \<and> (\<forall>(s, kvs) \<in> set order. good_word s \<and> distinct (map fst kvs) \<and> list_all (\<lambda>(k, v). good_word k \<and> good_word v) kvs
          \<and> length kvs < 2 ^ 64)"

lemma length_le_chars [simp]: "length (le_chars k n) = k"
  by (induction k arbitrary: n) simp_all

lemma le_number_chars: "le_number (le_chars k n) = n mod 256 ^ k"
  by (induction k arbitrary: n) (simp_all add: mod_mult2_eq add.commute)

lemma extract_word:
  assumes "good_word w"
  shows "extract_string old (open_text (w @ LF # r)) = (w, open_text (LF # r))"
    and "extract_string old (open_text (LF # w @ LF # r)) = (w, open_text (LF # r))"
proof -
  obtain c cs where w: "w = c # cs" "\<not> isspace c" "list_all (\<lambda>c. \<not> isspace c) cs" using assms by (cases w) (auto simp: good_word_def)
  have "takeWhile (\<lambda>c. \<not> isspace c) (w @ LF # r) = w" using assms by (auto simp: good_word_def list_all_iff isspace_def)
  then show "extract_string old (open_text (w @ LF # r)) = (w, open_text (LF # r))"
    "extract_string old (open_text (LF # w @ LF # r)) = (w, open_text (LF # r))"
    using w by (simp_all add: extract_string_def sentry_def open_text_def isspace_def)
qed

lemma parse_keys_ok:
  assumes "list_all (\<lambda>(k, v). good_word k \<and> good_word v) kvs" and "ini_current i = Addr a"
    and "bv_stream b = open_text (LF # concat (map binary_entry kvs) @ r)"
  shows "\<exists>b'. parse_keys (length kvs) b i = Inr (b', i\<lparr>ini_heap := (ini_heap i)(a := ini_heap i a ++ map_of (rev kvs))\<rparr>)
     \<and> bv_stream b' = open_text (LF # r)"
  using assms
proof (induction kvs arbitrary: b i)
  case Nil
  then show ?case by (simp add: fun_upd_idem)
next
  case (Cons e kvs)
  obtain k v where e: "e = (k, v)" by (cases e)
  let ?r = "concat (map binary_entry kvs) @ r" and ?i = "i\<lparr>ini_heap := (ini_heap i)(a := (ini_heap i a)(k \<mapsto> v))\<rparr>"
  let ?b = "b\<lparr>bv_stream := open_text (LF # ?r), bv_key := k, bv_value := v\<rparr>"
  have w: "good_word k" "good_word v" using Cons.prems(1) by (auto simp: e)
  have "set_key i k v = Inr (?i, True)" using Cons.prems(2) by (simp add: set_key_def assign_def)
  moreover have "bv_stream b = open_text (LF # k @ LF # v @ LF # ?r)" using Cons.prems(3) by (simp add: e binary_entry_def [of "(k, v)"])
  ultimately have s: "parse_keys (length (e # kvs)) b i = parse_keys (length kvs) ?b ?i"
    using extract_word(2) [OF w(1), of "bv_key b"] extract_word(2) [OF w(2), of "bv_value b"] by simp
  have h: "?i\<lparr>ini_heap := (ini_heap ?i)(a := ini_heap ?i a ++ map_of (rev kvs))\<rparr>
     = i\<lparr>ini_heap := (ini_heap i)(a := ini_heap i a ++ map_of (rev (e # kvs)))\<rparr>" by (simp add: e)
  have "list_all (\<lambda>(k, v). good_word k \<and> good_word v) kvs" "ini_current ?i = Addr a" "bv_stream ?b = open_text (LF # ?r)"
    using Cons.prems by simp_all
  from Cons.IH [OF this] show ?case unfolding s h .
qed

lemma create_new:
  assumes "wf_ini i" and "ini_sections i s = None" and "distinct (map fst kvs)"
  defines "i1 \<equiv> fst (ini_create i s)"
  shows "ini_current i1 = Addr (ini_next i)"
    and "wf_ini i1"
    and "ini_view (i1\<lparr>ini_heap := (ini_heap i1)(ini_next i := ini_heap i1 (ini_next i) ++ map_of (rev kvs))\<rparr>) = (ini_view i)(s \<mapsto> map_of kvs)"
proof -
  have fresh: "ini_sections i x \<noteq> Some (ini_next i)" for x using assms(1) by (auto simp: wf_ini_def ran_def)
  show "wf_ini i1" unfolding i1_def by (rule wf_ini_create [OF assms(1)])
  show "ini_current i1 = Addr (ini_next i)" using assms(2) by (simp add: i1_def ini_create_def ini_select_def new_keys_def)
  show "ini_view (i1\<lparr>ini_heap := (ini_heap i1)(ini_next i := ini_heap i1 (ini_next i) ++ map_of (rev kvs))\<rparr>) = (ini_view i)(s \<mapsto> map_of kvs)"
  proof
    fix x
    show "ini_view (i1\<lparr>ini_heap := (ini_heap i1)(ini_next i := ini_heap i1 (ini_next i) ++ map_of (rev kvs))\<rparr>) x
        = ((ini_view i)(s \<mapsto> map_of kvs)) x"
      using fresh [of x] assms(2) map_of_rev_distinct [OF assms(3)]
      by (cases "ini_sections i x") (auto simp: ini_view_def i1_def ini_create_def ini_select_def new_keys_def)
  qed
qed

lemma read_saved_count: "n < 2 ^ 64 \<Longrightarrow> read_size old (open_text (le_chars 8 n @ r)) = (Some n, open_text r)"
  by (simp add: read_size_def open_text_def le_number_chars)

lemma parse_section_ok:
  assumes "wf_ini i" and "ini_sections i s = None" and "good_word s" and "distinct (map fst kvs)"
    and "list_all (\<lambda>(k, v). good_word k \<and> good_word v) kvs" and "length kvs < 2 ^ 64"
    and "bv_stream b = open_text ((if first then [] else [LF]) @ binary_section (s, kvs) @ r)"
  shows "\<exists>b' i'. parse_sections (Suc n) first b i = parse_sections n False b' i' \<and> bv_stream b' = open_text (LF # r)
     \<and> wf_ini i' \<and> ini_view i' = (ini_view i)(s \<mapsto> map_of kvs)"
proof -
  let ?i1 = "fst (ini_create i s)" and ?r = "LF # concat (map binary_entry kvs) @ r"
  note c = create_new [OF assms(1,2,4)]
  have st: "(if first then bv_stream b else seek_next (bv_stream b)) = open_text (le_chars 8 (length kvs) @ s @ ?r)"
    using assms(7) by (simp add: binary_section_def seek_next_def open_text_def)
  let ?b = "b\<lparr>bv_stream := open_text ?r, bv_keyCount := Some (length kvs), bv_section := s\<rparr>"
  let ?i2 = "?i1\<lparr>ini_heap := (ini_heap ?i1)(ini_next i := ini_heap ?i1 (ini_next i) ++ map_of (rev kvs))\<rparr>"
  from parse_keys_ok [OF assms(5) c(1), of ?b r] obtain b' where b': "parse_keys (length kvs) ?b ?i1 = Inr (b', ?i2)"
    "bv_stream b' = open_text (LF # r)" by auto
  have "extract_string (bv_section b) (open_text (s @ ?r)) = (s, open_text ?r)" using extract_word(1) [OF assms(3)] by blast
  then have "parse_sections (Suc n) first b i = and_then (parse_keys (length kvs) ?b ?i1) (\<lambda>(b', i'). parse_sections n False b' i')"
    using st read_saved_count [OF assms(6), of "bv_keyCount b" "s @ ?r"] by (simp add: case_prod_beta)
  then have "parse_sections (Suc n) first b i = parse_sections n False b' ?i2" by (simp only: b'(1) and_then.simps prod.case)
  moreover have "wf_ini ?i2" using c(2) by simp
  ultimately show ?thesis using b'(2) c(3) by blast
qed

lemma parse_sections_ok:
  assumes "wf_ini i" and "binary_order order" and "\<forall>s \<in> fst ` set order. ini_view i s = None"
    and "bv_stream b = open_text ((if first then [] else [LF]) @ concat (map binary_section order))"
  shows "\<exists>i'. parse_sections (length order) first b i = Inr i'
     \<and> (\<forall>s. ini_view i' s = (case map_of order s of None \<Rightarrow> ini_view i s | Some kvs \<Rightarrow> Some (map_of kvs)))"
  using assms
proof (induction order arbitrary: i b first)
  case Nil
  then show ?case by simp
next
  case (Cons e order)
  obtain s kvs where e: "e = (s, kvs)" by (cases e)
  have g: "good_word s" "distinct (map fst kvs)" "list_all (\<lambda>(k, v). good_word k \<and> good_word v) kvs" "length kvs < 2 ^ 64"
    "binary_order order" "s \<notin> fst ` set order" "ini_sections i s = None"
    using Cons.prems(2,3) by (auto simp: binary_order_def e ini_view_def)
  have "bv_stream b = open_text ((if first then [] else [LF]) @ binary_section (s, kvs) @ concat (map binary_section order))"
    using Cons.prems(4) by (simp add: e)
  from parse_section_ok [OF Cons.prems(1) g(7,1-4) this, of "length order"] obtain b' i1 where
    1: "parse_sections (Suc (length order)) first b i = parse_sections (length order) False b' i1"
       "bv_stream b' = open_text (LF # concat (map binary_section order))" "wf_ini i1" "ini_view i1 = (ini_view i)(s \<mapsto> map_of kvs)"
    by blast
  have "\<forall>x \<in> fst ` set order. ini_view i1 x = None" using Cons.prems(3) g(6) 1(4) by (auto simp: e)
  from Cons.IH [OF 1(3) g(5) this, of b' False] 1(2) obtain i' where
    2: "parse_sections (length order) False b' i1 = Inr i'"
       "\<forall>x. ini_view i' x = (case map_of order x of None \<Rightarrow> ini_view i1 x | Some kvs \<Rightarrow> Some (map_of kvs))" by auto
  have "map_of order s = None" using g(6) by (simp add: map_of_eq_None_iff)
  then show ?case using 1(1,4) 2 by (auto simp: e split: option.split)
qed

text \<open>
  The loops of \<open>parseBinary\<close> read back what the loops of \<open>saveBinary\<close> write, for names and
  values without white space.
\<close>

theorem ini_binary_sections:
  assumes "binary_order order"
  shows "\<exists>i. parse_sections (length order) True \<lparr>bv_stream = open_text (concat (map binary_section order)),
       bv_keyCount = None, bv_key = [], bv_value = [], bv_section = []\<rparr> (new_ini src) = Inr i \<and> enumerates order i"
proof -
  have v: "ini_view (new_ini src) s = None" for s by (simp add: new_ini_def ini_view_def)
  then have "\<forall>s \<in> fst ` set order. ini_view (new_ini src) s = None" by simp
  from parse_sections_ok [OF wf_new_ini assms this, of "\<lparr>bv_stream = open_text (concat (map binary_section order)),
       bv_keyCount = None, bv_key = [], bv_value = [], bv_section = []\<rparr>" True] v
  show ?thesis by (auto simp: enumerates_def split: option.split)
qed

lemma digit_code: "is_digit c \<Longrightarrow> (48 :: nat) \<le> of_char c"
  by (auto simp: is_digit_def)

text \<open>
  The count in front of them is not: it is written as eight bytes and read as decimal text.
  A file with fewer than 48 sections is read as a file without any, and reported as read.
\<close>

theorem ini_binary_lost:
  assumes "length order < 48" and "saveBinary order i filename opens = Some file"
  shows "parseBinary (Some file) j = Inr (True, j)"
proof -
  let ?n = "length order" and ?c = "char_of (length order) :: char"
  have "le_chars 8 ?n = ?c # NUL # le_chars 6 0"
    using le_chars.simps(2) [of 7 ?n] le_chars.simps(2) [of 6 0] assms(1) by (simp add: char_of_def)
  then obtain r where f: "file = ?c # NUL # r"
    using assms(2) by (auto simp: saveBinary_def binary_text_def split: if_splits)
  have "\<not> is_digit ?c" using digit_code [of ?c] assms(1) by auto
  moreover have "\<not> is_digit NUL" "\<not> isspace NUL" by (simp_all add: is_digit_def isspace_def)
  ultimately have "fst (extract_size None (open_text file)) = Some 0"
    by (auto simp: f extract_size_def sentry_def open_text_def Let_def)
  then show ?thesis by (auto simp: parseBinary_def split: prod.split)
qed

theorem ini_binary_lost_witness:
  "parseBinary (Some (binary_text [(''CAN'', [(''Port'', ''1'')])])) (new_ini (source_file ''a'')) = Inr (True, new_ini (source_file ''a''))
     \<and> saveBinary [(''CAN'', [(''Port'', ''1'')])] (new_ini source_memory) ''a'' True = Some (binary_text [(''CAN'', [(''Port'', ''1'')])])"
proof -
  have s: "saveBinary [(''CAN'', [(''Port'', ''1'')])] (new_ini source_memory) ''a'' True = Some (binary_text [(''CAN'', [(''Port'', ''1'')])])"
    by (simp add: saveBinary_def has_file_association_def)
  from ini_binary_lost [OF _ this, of "new_ini (source_file ''a'')"] s show ?thesis by simp
qed

end
