(* ===== verification/Cond_Var.thy ===== *)
theory Cond_Var
  imports Prelude
begin

text \<open>
  \<open>std::condition_variable\<close>, as far as the queues of the program use it: the number of
  threads that wait on it, and of those that have been woken but do not yet hold the mutex
  again. The blocking queue of the logging library builds on it.
\<close>

record cond_var =
  cv_waiting :: nat
  cv_woken :: nat

definition cv_new :: cond_var where "cv_new = \<lparr>cv_waiting = 0, cv_woken = 0\<rparr>"

definition cv_wait :: "cond_var \<Rightarrow> cond_var" where
  "cv_wait c = c\<lparr>cv_waiting := Suc (cv_waiting c)\<rparr>"

definition cv_resume :: "cond_var \<Rightarrow> cond_var" where
  "cv_resume c = c\<lparr>cv_woken := cv_woken c - 1\<rparr>"

definition cv_leave :: "cond_var \<Rightarrow> cond_var" where
  "cv_leave c = c\<lparr>cv_waiting := cv_waiting c - 1\<rparr>"

definition cv_notify :: "cond_var \<Rightarrow> cond_var" where
  "cv_notify c = (if cv_waiting c = 0 then c else c\<lparr>cv_waiting := cv_waiting c - 1, cv_woken := Suc (cv_woken c)\<rparr>)"

text \<open>
  Every one of \<open>k\<close> reasons to run is backed by a thread that is awake or by a notification
  that is about to be sent, unless nobody waits.
\<close>

definition awake :: "nat \<Rightarrow> cond_var \<Rightarrow> nat \<Rightarrow> bool" where
  "awake k c notes \<longleftrightarrow> cv_waiting c = 0 \<or> k \<le> cv_woken c + notes"

lemma awake_notify [simp]: "0 < notes \<Longrightarrow> awake k c notes \<Longrightarrow> awake k (cv_notify c) (notes - Suc 0)"
  by (auto simp: awake_def cv_notify_def)

lemma awake_spurious [simp]: "awake k c notes \<Longrightarrow> awake k (cv_notify c) notes"
  by (auto simp: awake_def cv_notify_def)

lemma awake_wait [simp]: "awake 0 c notes"
  by (simp add: awake_def)

lemma awake_more: "awake k c notes \<Longrightarrow> awake (Suc k) c (Suc notes)"
  by (auto simp: awake_def)

lemma awake_less: "awake k c notes \<Longrightarrow> k' \<le> k \<Longrightarrow> awake k' c notes"
  by (auto simp: awake_def)

lemma awake_resume: "awake k c notes \<Longrightarrow> awake (k - 1) (cv_resume c) notes"
  by (auto simp: awake_def cv_resume_def)

lemma awake_leave: "awake k c notes \<Longrightarrow> awake k (cv_leave c) notes"
  by (auto simp: awake_def cv_leave_def)

end
