(* ===== verification/Log_Ring.thy ===== *)
theory Log_Ring
  imports Cond_Var "HOL-Library.Sublist"
begin

text \<open>
  The queues of the logging library, libControlCAN/inc/spdlog/details/circular\_q.h and
  mpmc\_blocking\_q.h. A \<open>circular_q\<close> is a view of a vector with one slot more than it holds
  items; it overwrites its oldest item when there is no room. \<open>mpmc_blocking_queue\<close> wraps
  it with a mutex and two condition variables.

  Indices stay below the length of the vector, so they are natural numbers; the two places
  where \<open>size_t\<close> can wrap around, the capacity and the overrun counter, say so.
\<close>

section \<open>The circular queue\<close>

record 'a circular_q =
  max_items :: nat
  cq_head :: nat
  cq_tail :: nat
  overrun_counter :: nat
  cq_v :: "'a list"

definition size_max :: nat where "size_max = 2 ^ 64"

definition cq_disabled :: "'a circular_q" where
  "cq_disabled = \<lparr>max_items = 0, cq_head = 0, cq_tail = 0, overrun_counter = 0, cq_v = []\<rparr>"

text \<open>\<open>dflt\<close> is the value that \<open>v_(max_items_)\<close> gives the elements.\<close>

definition circular_q_new :: "'a \<Rightarrow> nat \<Rightarrow> 'a circular_q" where
  "circular_q_new dflt n =
     (let m = (n + 1) mod size_max
      in \<lparr>max_items = m, cq_head = 0, cq_tail = 0, overrun_counter = 0, cq_v = replicate m dflt\<rparr>)"

definition cq_push_back :: "'a \<Rightarrow> 'a circular_q \<Rightarrow> 'a circular_q res" where
  "cq_push_back item q =
     (if max_items q > 0 then
        if cq_tail q < length (cq_v q) then
          let q1 = q\<lparr>cq_v := (cq_v q)[cq_tail q := item], cq_tail := (cq_tail q + 1) mod max_items q\<rparr>
          in Inr (if cq_tail q1 = cq_head q1
                  then q1\<lparr>cq_head := (cq_head q1 + 1) mod max_items q1, overrun_counter := (overrun_counter q1 + 1) mod size_max\<rparr>
                  else q1)
        else Inl Write_Overrun
      else Inr q)"

definition cq_front :: "'a circular_q \<Rightarrow> 'a res" where
  "cq_front q = fetch (cq_v q) (cq_head q)"

definition cq_size :: "'a circular_q \<Rightarrow> nat" where
  "cq_size q = (if cq_tail q \<ge> cq_head q then cq_tail q - cq_head q else max_items q - (cq_head q - cq_tail q))"

definition cq_at :: "'a circular_q \<Rightarrow> nat \<Rightarrow> 'a res" where
  "cq_at q i =
     (if i < cq_size q then
        if max_items q = 0 then Inl Div_Zero else fetch (cq_v q) ((cq_head q + i) mod max_items q)
      else Inl Abort)"

definition cq_pop_front :: "'a circular_q \<Rightarrow> 'a circular_q res" where
  "cq_pop_front q =
     (if max_items q = 0 then Inl Div_Zero else Inr (q\<lparr>cq_head := (cq_head q + 1) mod max_items q\<rparr>))"

definition cq_empty :: "'a circular_q \<Rightarrow> bool" where
  "cq_empty q \<longleftrightarrow> cq_tail q = cq_head q"

definition cq_full :: "'a circular_q \<Rightarrow> bool" where
  "cq_full q \<longleftrightarrow> (if max_items q > 0 then (cq_tail q + 1) mod max_items q = cq_head q else False)"

text \<open>\<open>copy_moveable\<close>: the new value of the target, and what is left of the source.\<close>

definition copy_moveable :: "'a circular_q \<Rightarrow> 'a circular_q \<times> 'a circular_q" where
  "copy_moveable other =
     (other, other\<lparr>max_items := 0, cq_head := 0, cq_tail := 0, overrun_counter := 0, cq_v := []\<rparr>)"

section \<open>What the queue holds\<close>

definition cq_ok :: "'a circular_q \<Rightarrow> bool" where
  "cq_ok q \<longleftrightarrow> length (cq_v q) = max_items q
     \<and> (if max_items q = 0 then cq_head q = 0 \<and> cq_tail q = 0 else cq_head q < max_items q \<and> cq_tail q < max_items q)"

definition cq_items :: "'a circular_q \<Rightarrow> 'a list" where
  "cq_items q = map (\<lambda>i. cq_v q ! ((cq_head q + i) mod max_items q)) [0..<cq_size q]"

text \<open>How many items fit.\<close>

definition cq_room :: "'a circular_q \<Rightarrow> nat" where
  "cq_room q = max_items q - 1"

text \<open>The abstract queue: the last \<open>n\<close> items.\<close>

definition last_n :: "nat \<Rightarrow> 'a list \<Rightarrow> 'a list" where
  "last_n n xs = drop (length xs - n) xs"

lemma last_n_short [simp]: "length xs \<le> n \<Longrightarrow> last_n n xs = xs"
  by (simp add: last_n_def)

lemma last_n_Suc: "length xs = Suc n \<Longrightarrow> last_n n xs = tl xs"
  by (simp add: last_n_def drop_Suc)

lemma subseq_last_n: "subseq (last_n n xs) xs"
  by (simp add: last_n_def suffix_imp_subseq suffix_drop)

lemma length_last_n [simp]: "length (last_n n xs) = min n (length xs)"
  by (simp add: last_n_def)

lemma last_n_last_n: "last_n n (last_n n xs @ ys) = last_n n (xs @ ys)"
proof (cases "length xs \<le> n")
  case False
  then have "last_n n xs @ ys = drop (length xs - n) (xs @ ys)" by (simp add: last_n_def)
  then show ?thesis using False by (simp add: last_n_def min_def add.commute)
qed simp

lemma length_cq_items [simp]: "length (cq_items q) = cq_size q"
  by (simp add: cq_items_def)

lemma cq_size_le: "cq_ok q \<Longrightarrow> cq_size q \<le> cq_room q"
  by (auto simp: cq_ok_def cq_size_def cq_room_def split: if_splits)

text \<open>Steps along the ring.\<close>

lemma wrap_mod: "h < m \<Longrightarrow> i \<le> m \<Longrightarrow> (h + i) mod m = (if h + i < m then h + i else h + i - m)" for h m :: nat
  by (auto simp: mod_if)

lemma wrap_Suc: "h < m \<Longrightarrow> Suc h mod m = (if Suc h = m then 0 else Suc h)" for h m :: nat
  by (auto simp: mod_if)

lemma ring_tail:
  assumes "cq_ok q" and "max_items q > 0"
  shows "(cq_head q + cq_size q) mod max_items q = cq_tail q"
  using assms by (auto simp: cq_ok_def cq_size_def wrap_mod)

lemma cq_full_iff: "cq_ok q \<Longrightarrow> cq_full q \<longleftrightarrow> max_items q > 0 \<and> cq_size q = cq_room q"
  by (auto simp: cq_ok_def cq_full_def cq_size_def cq_room_def wrap_Suc split: if_splits)

lemma cq_empty_iff: "cq_ok q \<Longrightarrow> cq_empty q \<longleftrightarrow> cq_items q = []"
  by (auto simp: cq_ok_def cq_empty_def cq_size_def cq_items_def split: if_splits)

lemma ring_distinct:
  assumes "i < cq_size q" and "cq_ok q"
  shows "(cq_head q + i) mod max_items q \<noteq> cq_tail q"
  using assms by (auto simp: cq_ok_def cq_size_def wrap_mod split: if_splits)

lemma at_item: "cq_ok q \<Longrightarrow> i < cq_size q \<Longrightarrow> cq_at q i = Inr (cq_items q ! i)"
  by (auto simp: cq_at_def cq_ok_def cq_items_def cq_size_def fetch_def split: if_splits)

lemma front_item: "cq_ok q \<Longrightarrow> cq_items q \<noteq> [] \<Longrightarrow> cq_front q = Inr (hd (cq_items q))"
  by (auto simp: cq_front_def cq_ok_def cq_items_def cq_size_def fetch_def hd_map upt_conv_Cons split: if_splits)

lemma pop_item:
  assumes "cq_ok q" and "cq_items q \<noteq> []"
  shows "\<exists>q'. cq_pop_front q = Inr q' \<and> cq_ok q' \<and> cq_items q' = tl (cq_items q) \<and> max_items q' = max_items q
     \<and> overrun_counter q' = overrun_counter q"
proof -
  let ?q = "q\<lparr>cq_head := Suc (cq_head q) mod max_items q\<rparr>"
  have m: "max_items q > 0" "cq_size q > 0" using assms by (auto simp: cq_ok_def cq_size_def cq_items_def split: if_splits)
  then have sz: "cq_size ?q = cq_size q - 1" using assms(1) by (auto simp: cq_ok_def cq_size_def wrap_Suc split: if_splits)
  have "cq_items ?q = tl (cq_items q)"
  proof (rule nth_equalityI)
    fix i assume "i < length (cq_items ?q)"
    then have "Suc i < cq_size q" "i < cq_size ?q" by (simp_all add: sz)
    then show "cq_items ?q ! i = tl (cq_items q) ! i"
      by (simp add: nth_tl cq_items_def mod_simps)
  qed (simp add: sz)
  then show ?thesis using assms(1) m by (simp add: cq_pop_front_def cq_ok_def)
qed

text \<open>Writing behind the items leaves them as they are.\<close>

lemma stored_item:
  assumes "cq_ok q" and "max_items q > 0" and "i \<le> cq_size q"
  shows "(cq_v q)[cq_tail q := x] ! ((cq_head q + i) mod max_items q) = (cq_items q @ [x]) ! i"
proof (cases "i = cq_size q")
  case True
  then show ?thesis using assms ring_tail [OF assms(1,2)] by (auto simp: nth_append cq_ok_def)
next
  case False
  then have "i < cq_size q" using assms(3) by simp
  then show ?thesis using ring_distinct [OF _ assms(1), THEN not_sym] by (simp add: nth_append cq_items_def)
qed

lemma push_item:
  assumes "cq_ok q" and "max_items q > 0"
  shows "\<exists>q'. cq_push_back x q = Inr q' \<and> cq_ok q' \<and> cq_items q' = last_n (cq_room q) (cq_items q @ [x])
     \<and> max_items q' = max_items q \<and> overrun_counter q' = (if cq_full q then (overrun_counter q + 1) mod size_max else overrun_counter q)"
proof (cases "cq_full q")
  case True
  let ?t = "Suc (cq_tail q) mod max_items q"
  let ?q = "q\<lparr>cq_v := (cq_v q)[cq_tail q := x], cq_tail := ?t, cq_head := Suc (cq_head q) mod max_items q,
      overrun_counter := Suc (overrun_counter q) mod size_max\<rparr>"
  have f: "?t = cq_head q" "cq_size q = cq_room q" using True assms cq_full_iff [OF assms(1)] by (auto simp: cq_full_def)
  have sz: "cq_size ?q = cq_size q" using assms f by (auto simp: cq_ok_def cq_size_def cq_room_def wrap_Suc split: if_splits)
  have "cq_items ?q = tl (cq_items q @ [x])"
  proof (rule nth_equalityI)
    fix i assume "i < length (cq_items ?q)"
    then have i: "Suc i \<le> cq_size q" "i < cq_size ?q" by (simp_all add: sz)
    have "cq_items ?q ! i = (cq_items q @ [x]) ! Suc i"
      using stored_item [OF assms i(1), of x] i(2) by (simp add: cq_items_def mod_simps)
    also have "\<dots> = tl (cq_items q @ [x]) ! i" by (rule nth_tl [symmetric]) (use i(1) in simp)
    finally show "cq_items ?q ! i = tl (cq_items q @ [x]) ! i" .
  qed (simp add: sz)
  moreover have "tl (cq_items q @ [x]) = last_n (cq_room q) (cq_items q @ [x])" by (simp add: last_n_Suc f(2))
  moreover have "cq_push_back x q = Inr ?q" using assms f(1) by (simp add: cq_push_back_def cq_ok_def)
  ultimately show ?thesis using True assms by (simp add: cq_ok_def)
next
  case False
  let ?q = "q\<lparr>cq_v := (cq_v q)[cq_tail q := x], cq_tail := Suc (cq_tail q) mod max_items q\<rparr>"
  have f: "Suc (cq_tail q) mod max_items q \<noteq> cq_head q" "cq_size q < cq_room q"
    using False assms cq_full_iff [OF assms(1)] cq_size_le [OF assms(1)] by (auto simp: cq_full_def)
  have sz: "cq_size ?q = Suc (cq_size q)" using assms f by (auto simp: cq_ok_def cq_size_def wrap_Suc split: if_splits)
  have "cq_items ?q = cq_items q @ [x]"
  proof (rule nth_equalityI)
    fix i assume "i < length (cq_items ?q)"
    then have i: "i \<le> cq_size q" "i < cq_size ?q" by (simp_all add: sz)
    then show "cq_items ?q ! i = (cq_items q @ [x]) ! i" using stored_item [OF assms i(1), of x] by (simp add: cq_items_def)
  qed (simp add: sz)
  moreover have "last_n (cq_room q) (cq_items q @ [x]) = cq_items q @ [x]" using f(2) by simp
  moreover have "cq_push_back x q = Inr ?q" using assms f(1) by (simp add: cq_push_back_def cq_ok_def)
  ultimately show ?thesis using False assms by (simp add: cq_ok_def)
qed

lemma push_disabled: "max_items q = 0 \<Longrightarrow> cq_push_back x q = Inr q"
  by (simp add: cq_push_back_def)

lemma disabled_items: "cq_ok q \<Longrightarrow> max_items q = 0 \<Longrightarrow> cq_items q = [] \<and> cq_room q = 0"
  by (simp add: cq_ok_def cq_items_def cq_size_def cq_room_def)

lemma new_items: "cq_ok (circular_q_new d n)" "cq_items (circular_q_new d n) = []" "n + 1 < size_max \<Longrightarrow> cq_room (circular_q_new d n) = n"
  by (simp_all add: circular_q_new_def cq_ok_def cq_items_def cq_size_def cq_room_def Let_def)

lemma moved_items: "cq_ok (snd (copy_moveable q))" "cq_items (snd (copy_moveable q)) = []" "fst (copy_moveable q) = q"
  by (simp_all add: copy_moveable_def cq_ok_def cq_items_def cq_size_def)

section \<open>Queues that keep their last items\<close>

locale last_items =
  fixes ok :: "'q \<Rightarrow> bool" and items :: "'q \<Rightarrow> 'a list" and room :: "'q \<Rightarrow> nat"
    and push :: "'a \<Rightarrow> 'q \<Rightarrow> 'q res"
  assumes push_ok: "ok q \<Longrightarrow> \<exists>q'. push x q = Inr q' \<and> ok q' \<and> items q' = last_n (room q) (items q @ [x]) \<and> room q' = room q"
begin

fun push_list :: "'a list \<Rightarrow> 'q \<Rightarrow> 'q res" where
  "push_list [] q = Inr q"
| "push_list (x # xs) q = and_then (push x q) (push_list xs)"

lemma push_list_ok:
  "ok q \<Longrightarrow> length (items q) \<le> room q \<Longrightarrow>
     \<exists>q'. push_list xs q = Inr q' \<and> ok q' \<and> items q' = last_n (room q) (items q @ xs) \<and> room q' = room q"
proof (induction xs arbitrary: q)
  case (Cons x xs)
  obtain q1 where q1: "push x q = Inr q1" "ok q1" "items q1 = last_n (room q) (items q @ [x])" "room q1 = room q"
    using push_ok [OF Cons.prems(1)] by blast
  obtain q' where "push_list xs q1 = Inr q'" "ok q'" "items q' = last_n (room q) (items q1 @ xs)" "room q' = room q"
    using Cons.IH [OF q1(2)] q1(3,4) by auto
  then show ?case using q1 last_n_last_n [of "room q" "items q @ [x]" xs] by auto
qed simp

end

interpretation cq: last_items cq_ok cq_items cq_room cq_push_back
proof
  fix q :: "'a circular_q" and x
  assume q: "cq_ok q"
  show "\<exists>q'. cq_push_back x q = Inr q' \<and> cq_ok q' \<and> cq_items q' = last_n (cq_room q) (cq_items q @ [x]) \<and> cq_room q' = cq_room q"
  proof (cases "max_items q = 0")
    case True
    then show ?thesis using q disabled_items [OF q True] by (simp add: push_disabled last_n_def)
  next
    case False
    then show ?thesis using push_item [OF q, of x] by (auto simp: cq_room_def)
  qed
qed

section \<open>The blocking queue\<close>

text \<open>
  Each step below is what one thread does while it holds the mutex; the notification that
  follows the release of the mutex is a step of its own. The predicates only depend on the
  queue, which the mutex protects, so testing one and starting to wait is one step.
\<close>

record 'a mpmc =
  mq :: "'a circular_q"
  push_cv :: cond_var
  pop_cv :: cond_var
  push_notes :: nat     \<comment> \<open>threads about to call \<open>push_cv_.notify_one()\<close>\<close>
  pop_notes :: nat      \<comment> \<open>threads about to call \<open>pop_cv_.notify_one()\<close>\<close>

definition mpmc_new :: "'a \<Rightarrow> nat \<Rightarrow> 'a mpmc" where
  "mpmc_new dflt n = \<lparr>mq = circular_q_new dflt n, push_cv = cv_new, pop_cv = cv_new, push_notes = 0, pop_notes = 0\<rparr>"

text \<open>\<open>enqueue\<close> from the test of its predicate on, reached first or after a wake-up.\<close>

definition enqueue_try :: "'a \<Rightarrow> 'a mpmc \<Rightarrow> (bool \<times> 'a mpmc) res" where
  "enqueue_try x m =
     (if cq_full (mq m) then Inr (False, m\<lparr>pop_cv := cv_wait (pop_cv m)\<rparr>)
      else and_then (cq_push_back x (mq m)) (\<lambda>q. Inr (True, m\<lparr>mq := q, push_notes := Suc (push_notes m)\<rparr>)))"

definition enqueue_nowait :: "'a \<Rightarrow> 'a mpmc \<Rightarrow> 'a mpmc res" where
  "enqueue_nowait x m = and_then (cq_push_back x (mq m)) (\<lambda>q. Inr (m\<lparr>mq := q, push_notes := Suc (push_notes m)\<rparr>))"

definition dequeue_front :: "'a mpmc \<Rightarrow> ('a option \<times> 'a mpmc) res" where
  "dequeue_front m =
     and_then (cq_front (mq m)) (\<lambda>x. and_then (cq_pop_front (mq m)) (\<lambda>q.
       Inr (Some x, m\<lparr>mq := q, pop_notes := Suc (pop_notes m)\<rparr>)))"

text \<open>\<open>dequeue_for\<close> likewise; once the time is over it does not wait again.\<close>

definition dequeue_try :: "bool \<Rightarrow> 'a mpmc \<Rightarrow> ('a option \<times> 'a mpmc) res" where
  "dequeue_try over m =
     (if cq_empty (mq m) then Inr (None, if over then m else m\<lparr>push_cv := cv_wait (push_cv m)\<rparr>)
      else dequeue_front m)"

text \<open>The steps of the threads, with the items that went in and came out.\<close>

datatype 'a mpmc_cmd =
    Enqueue 'a | Enqueue_Woken 'a | Enqueue_Nowait 'a
  | Dequeue | Dequeue_Woken bool | Dequeue_Timeout
  | Notify_Push | Notify_Pop | Spurious_Push | Spurious_Pop

fun mpmc_ready :: "'a mpmc_cmd \<Rightarrow> 'a mpmc \<Rightarrow> bool" where
  "mpmc_ready (Enqueue_Woken x) m \<longleftrightarrow> cv_woken (pop_cv m) > 0"
| "mpmc_ready (Dequeue_Woken over) m \<longleftrightarrow> cv_woken (push_cv m) > 0"
| "mpmc_ready Dequeue_Timeout m \<longleftrightarrow> cv_waiting (push_cv m) > 0"
| "mpmc_ready Notify_Push m \<longleftrightarrow> push_notes m > 0"
| "mpmc_ready Notify_Pop m \<longleftrightarrow> pop_notes m > 0"
| "mpmc_ready Spurious_Push m \<longleftrightarrow> cv_waiting (push_cv m) > 0"
| "mpmc_ready Spurious_Pop m \<longleftrightarrow> cv_waiting (pop_cv m) > 0"
| "mpmc_ready _ m \<longleftrightarrow> True"

definition entered :: "'a \<Rightarrow> (bool \<times> 'a mpmc) res \<Rightarrow> ('a list \<times> 'a list \<times> 'a mpmc) res" where
  "entered x r = and_then r (\<lambda>(ok, m). Inr (if ok then [x] else [], [], m))"

definition taken :: "('a option \<times> 'a mpmc) res \<Rightarrow> ('a list \<times> 'a list \<times> 'a mpmc) res" where
  "taken r = and_then r (\<lambda>(x, m). Inr ([], case x of None \<Rightarrow> [] | Some y \<Rightarrow> [y], m))"

fun mpmc_do :: "'a mpmc_cmd \<Rightarrow> 'a mpmc \<Rightarrow> ('a list \<times> 'a list \<times> 'a mpmc) res" where
  "mpmc_do (Enqueue x) m = entered x (enqueue_try x m)"
| "mpmc_do (Enqueue_Woken x) m = entered x (enqueue_try x (m\<lparr>pop_cv := cv_resume (pop_cv m)\<rparr>))"
| "mpmc_do (Enqueue_Nowait x) m = and_then (enqueue_nowait x m) (\<lambda>m'. Inr ([x], [], m'))"
| "mpmc_do Dequeue m = taken (dequeue_try False m)"
| "mpmc_do (Dequeue_Woken over) m = taken (dequeue_try over (m\<lparr>push_cv := cv_resume (push_cv m)\<rparr>))"
| "mpmc_do Dequeue_Timeout m = taken (dequeue_try True (m\<lparr>push_cv := cv_leave (push_cv m)\<rparr>))"
| "mpmc_do Notify_Push m = Inr ([], [], m\<lparr>push_cv := cv_notify (push_cv m), push_notes := push_notes m - 1\<rparr>)"
| "mpmc_do Notify_Pop m = Inr ([], [], m\<lparr>pop_cv := cv_notify (pop_cv m), pop_notes := pop_notes m - 1\<rparr>)"
| "mpmc_do Spurious_Push m = Inr ([], [], m\<lparr>push_cv := cv_notify (push_cv m)\<rparr>)"
| "mpmc_do Spurious_Pop m = Inr ([], [], m\<lparr>pop_cv := cv_notify (pop_cv m)\<rparr>)"

fun nowait :: "'a mpmc_cmd \<Rightarrow> bool" where
  "nowait (Enqueue_Nowait x) \<longleftrightarrow> True"
| "nowait _ \<longleftrightarrow> False"

inductive mpmc_reach :: "nat \<Rightarrow> bool \<Rightarrow> 'a list \<Rightarrow> 'a list \<Rightarrow> 'a mpmc \<Rightarrow> bool" for n where
  start: "mpmc_reach n False [] [] (mpmc_new dflt n)"
| step: "mpmc_reach n lossy ins outs m \<Longrightarrow> mpmc_ready c m \<Longrightarrow> mpmc_do c m = Inr (xs, ys, m') \<Longrightarrow>
     mpmc_reach n (lossy \<or> nowait c) (ins @ xs) (outs @ ys) m'"

section \<open>Nothing is lost, and no wake-up either\<close>

text \<open>What went in and came out.\<close>

definition fifo_inv :: "bool \<Rightarrow> 'a list \<Rightarrow> 'a list \<Rightarrow> 'a circular_q \<Rightarrow> bool" where
  "fifo_inv lossy ins outs q \<longleftrightarrow> subseq (outs @ cq_items q) ins \<and> (\<not> lossy \<longrightarrow> ins = outs @ cq_items q)
     \<and> overrun_counter q = (length ins - length (outs @ cq_items q)) mod size_max"

text \<open>Where threads wait, a wake-up is on its way for every item and every free place.\<close>

definition mpmc_inv :: "nat \<Rightarrow> bool \<Rightarrow> 'a list \<Rightarrow> 'a list \<Rightarrow> 'a mpmc \<Rightarrow> bool" where
  "mpmc_inv n lossy ins outs m \<longleftrightarrow> cq_ok (mq m) \<and> max_items (mq m) > 0 \<and> cq_room (mq m) = n
     \<and> fifo_inv lossy ins outs (mq m)
     \<and> awake (cq_size (mq m)) (push_cv m) (push_notes m) \<and> awake (n - cq_size (mq m)) (pop_cv m) (pop_notes m)"

lemma fifo_push:
  assumes f: "fifo_inv lossy ins outs q" and q: "cq_ok q" "max_items q > 0" and l: "cq_full q \<longrightarrow> lossy'" "lossy \<longrightarrow> lossy'"
  shows "\<exists>q'. cq_push_back x q = Inr q' \<and> cq_ok q' \<and> max_items q' = max_items q \<and> fifo_inv lossy' (ins @ [x]) outs q'
     \<and> cq_size q' = min (cq_room q) (Suc (cq_size q))"
proof -
  obtain q' where q': "cq_push_back x q = Inr q'" "cq_ok q'" "cq_items q' = last_n (cq_room q) (cq_items q @ [x])"
    "max_items q' = max_items q" "overrun_counter q' = (if cq_full q then (overrun_counter q + 1) mod size_max else overrun_counter q)"
    using push_item [OF q] by blast
  have sz: "cq_size q' = min (cq_room q) (Suc (cq_size q))" using arg_cong [OF q'(3), of length] by simp
  have s: "subseq (outs @ cq_items q) ins" and len: "length (outs @ cq_items q) \<le> length ins"
    using f list_emb_length by (auto simp: fifo_inv_def)
  have "subseq (outs @ last_n (cq_room q) (cq_items q @ [x])) (outs @ cq_items q @ [x])"
    using subseq_last_n by (intro list_emb_append_mono) auto
  moreover have "subseq (outs @ cq_items q @ [x]) (ins @ [x])" using s list_emb_append_mono [of "(=)" "outs @ cq_items q" ins "[x]" "[x]"] by simp
  ultimately have "subseq (outs @ cq_items q') (ins @ [x])" unfolding q'(3) by (rule subseq_order.trans)
  moreover have "\<not> lossy' \<longrightarrow> ins @ [x] = outs @ cq_items q'"
    using f l q'(3) cq_full_iff [OF q(1)] cq_size_le [OF q(1)] q(2) by (auto simp: fifo_inv_def)
  moreover have "overrun_counter q' = (length (ins @ [x]) - length (outs @ cq_items q')) mod size_max"
  proof (cases "cq_full q")
    case True
    then have "cq_size q' = cq_size q" using sz cq_full_iff [OF q(1)] by simp
    then show ?thesis using f q'(5) len True by (simp add: fifo_inv_def mod_simps Suc_diff_le)
  next
    case False
    then have "cq_size q' = Suc (cq_size q)" using sz cq_full_iff [OF q(1)] cq_size_le [OF q(1)] q(2) by simp
    then show ?thesis using f q'(5) False by (simp add: fifo_inv_def)
  qed
  ultimately show ?thesis using q' sz by (auto simp: fifo_inv_def)
qed

lemma fifo_pop:
  assumes f: "fifo_inv lossy ins outs q" and q: "cq_ok q" "\<not> cq_empty q"
  shows "\<exists>x q'. cq_front q = Inr x \<and> cq_pop_front q = Inr q' \<and> cq_ok q' \<and> max_items q' = max_items q
     \<and> fifo_inv lossy ins (outs @ [x]) q' \<and> cq_size q = Suc (cq_size q')"
proof -
  have ne: "cq_items q \<noteq> []" using q cq_empty_iff by blast
  obtain q' where q': "cq_pop_front q = Inr q'" "cq_ok q'" "cq_items q' = tl (cq_items q)" "max_items q' = max_items q"
    "overrun_counter q' = overrun_counter q" using pop_item [OF q(1) ne] by blast
  have "cq_size q = Suc (cq_size q')" using arg_cong [OF q'(3), of length] ne length_greater_0_conv [of "cq_items q"] by simp
  moreover have e: "outs @ cq_items q = (outs @ [hd (cq_items q)]) @ cq_items q'" using ne q'(3) by simp
  ultimately show ?thesis using q' front_item [OF q(1) ne] f unfolding fifo_inv_def e by auto
qed

lemma pushed_awake:
  assumes "mpmc_inv n lossy ins outs m" and "k = min n (Suc (cq_size (mq m)))"
  shows "awake k (push_cv m) (Suc (push_notes m))"
  using awake_less [OF awake_more, of "cq_size (mq m)"] assms by (simp add: mpmc_inv_def)

lemma enqueue_inv:
  assumes i: "mpmc_inv n lossy ins outs m" and a: "awake (n - cq_size (mq m) - 1) c (pop_notes m)"
  shows "\<exists>ok m'. enqueue_try x (m\<lparr>pop_cv := c\<rparr>) = Inr (ok, m') \<and> mpmc_inv n lossy (ins @ (if ok then [x] else [])) outs m'"
proof (cases "cq_full (mq m)")
  case True
  then have "n - cq_size (mq m) = 0" using i cq_full_iff [of "mq m"] by (auto simp: mpmc_inv_def)
  then show ?thesis using True i by (auto simp: enqueue_try_def mpmc_inv_def)
next
  case False
  obtain q' where q': "cq_push_back x (mq m) = Inr q'" "cq_ok q'" "max_items q' = max_items (mq m)" "fifo_inv lossy (ins @ [x]) outs q'"
    "cq_size q' = min n (Suc (cq_size (mq m)))"
    using fifo_push [of lossy ins outs "mq m" lossy x] i False by (auto simp: mpmc_inv_def)
  have "awake (n - cq_size q') c (pop_notes m)" using awake_less [OF a] q'(5) by auto
  then show ?thesis using False i q' pushed_awake [OF i q'(5)] by (auto simp: enqueue_try_def mpmc_inv_def cq_room_def)
qed

lemma nowait_inv:
  assumes i: "mpmc_inv n lossy ins outs m"
  shows "\<exists>m'. enqueue_nowait x m = Inr m' \<and> mpmc_inv n True (ins @ [x]) outs m'"
proof -
  obtain q' where q': "cq_push_back x (mq m) = Inr q'" "cq_ok q'" "max_items q' = max_items (mq m)" "fifo_inv True (ins @ [x]) outs q'"
    "cq_size q' = min n (Suc (cq_size (mq m)))"
    using fifo_push [of lossy ins outs "mq m" True x] i by (auto simp: mpmc_inv_def)
  have "cq_size (mq m) \<le> n" using i cq_size_le by (auto simp: mpmc_inv_def)
  then have "awake (n - cq_size q') (pop_cv m) (pop_notes m)"
    using awake_less [of "n - cq_size (mq m)"] i q'(5) by (auto simp: mpmc_inv_def)
  then show ?thesis using i q' pushed_awake [OF i q'(5)] by (auto simp: enqueue_nowait_def mpmc_inv_def cq_room_def)
qed

lemma dequeue_inv:
  assumes i: "mpmc_inv n lossy ins outs m" and a: "awake (cq_size (mq m) - 1) c (push_notes m)"
  shows "\<exists>x m'. dequeue_try over (m\<lparr>push_cv := c\<rparr>) = Inr (x, m')
     \<and> mpmc_inv n lossy ins (outs @ (case x of None \<Rightarrow> [] | Some y \<Rightarrow> [y])) m'"
proof (cases "cq_empty (mq m)")
  case True
  then have "cq_size (mq m) = 0" using i cq_empty_iff by (fastforce simp: mpmc_inv_def cq_items_def)
  then show ?thesis using True i a by (auto simp: dequeue_try_def mpmc_inv_def)
next
  case False
  obtain x q' where q': "cq_front (mq m) = Inr x" "cq_pop_front (mq m) = Inr q'" "cq_ok q'" "max_items q' = max_items (mq m)"
    "fifo_inv lossy ins (outs @ [x]) q'" "cq_size (mq m) = Suc (cq_size q')"
    using fifo_pop [of lossy ins outs "mq m"] i False by (auto simp: mpmc_inv_def)
  have "awake (n - cq_size q') (pop_cv m) (Suc (pop_notes m))"
    using i q'(6) by (intro awake_less [OF awake_more, of "n - cq_size (mq m)"]) (auto simp: mpmc_inv_def)
  then show ?thesis using False i a q' by (auto simp: dequeue_try_def dequeue_front_def mpmc_inv_def cq_room_def)
qed

lemma mpmc_step_ok:
  assumes i: "mpmc_inv n lossy ins outs m" and r: "mpmc_ready c m"
  shows "\<exists>xs ys m'. mpmc_do c m = Inr (xs, ys, m') \<and> mpmc_inv n (lossy \<or> nowait c) (ins @ xs) (outs @ ys) m'"
proof (cases c)
  case (Enqueue x)
  have "awake (n - cq_size (mq m) - 1) (pop_cv m) (pop_notes m)"
    using awake_less [of "n - cq_size (mq m)"] i by (simp add: mpmc_inv_def)
  from enqueue_inv [OF i this, of x] show ?thesis using Enqueue by (auto simp: entered_def)
next
  case (Enqueue_Woken x)
  have "awake (n - cq_size (mq m) - 1) (cv_resume (pop_cv m)) (pop_notes m)"
    using awake_resume [of "n - cq_size (mq m)" "pop_cv m" "pop_notes m"] i by (simp add: mpmc_inv_def)
  from enqueue_inv [OF i this, of x] show ?thesis using Enqueue_Woken by (auto simp: entered_def)
next
  case (Enqueue_Nowait x)
  from nowait_inv [OF i, of x] show ?thesis using Enqueue_Nowait by auto
next
  case Dequeue
  have "awake (cq_size (mq m) - 1) (push_cv m) (push_notes m)"
    using awake_less [of "cq_size (mq m)"] i by (simp add: mpmc_inv_def)
  from dequeue_inv [OF i this, of False] show ?thesis using Dequeue by (auto simp: taken_def)
next
  case (Dequeue_Woken over)
  have "awake (cq_size (mq m) - 1) (cv_resume (push_cv m)) (push_notes m)"
    using awake_resume [of "cq_size (mq m)" "push_cv m" "push_notes m"] i by (simp add: mpmc_inv_def)
  from dequeue_inv [OF i this, of over] show ?thesis using Dequeue_Woken by (auto simp: taken_def)
next
  case Dequeue_Timeout
  have "awake (cq_size (mq m) - 1) (cv_leave (push_cv m)) (push_notes m)"
    using awake_less [OF awake_leave, of "cq_size (mq m)"] i by (simp add: mpmc_inv_def)
  from dequeue_inv [OF i this, of True] show ?thesis using Dequeue_Timeout by (auto simp: taken_def)
qed (use i r in \<open>auto simp: mpmc_inv_def\<close>)

lemma mpmc_reach_inv:
  assumes "mpmc_reach n lossy ins outs m" and "n + 1 < size_max"
  shows "mpmc_inv n lossy ins outs m"
  using assms(1)
proof (induction rule: mpmc_reach.induct)
  case (start dflt)
  have "max_items (circular_q_new dflt n) > 0" using assms(2) by (simp add: circular_q_new_def Let_def)
  then show ?case using assms(2)
    by (simp add: mpmc_inv_def mpmc_new_def new_items fifo_inv_def awake_def cv_new_def) (simp add: circular_q_new_def Let_def)
next
  case (step lossy ins outs m c xs ys m')
  then show ?case using mpmc_step_ok [of n lossy ins outs m c] by auto
qed

section \<open>Properties\<close>

text \<open>
  C28: The blocking queue of the logging library is a bounded first-in-first-out queue. In
  every state its threads can reach, no operation runs outside the vector or divides by
  zero; the items taken out, followed by those inside, are a subsequence of the items put
  in, and the overrun counter is the number of the missing ones modulo the size of its type;
  while only the blocking \<open>enqueue\<close> is used, nothing is missing at all.\<close>

theorem log_queue_fifo:
  assumes "mpmc_reach n lossy ins outs m" and "n + 1 < size_max"
  shows "subseq (outs @ cq_items (mq m)) ins \<and> (\<not> lossy \<longrightarrow> ins = outs @ cq_items (mq m)) \<and> length (cq_items (mq m)) \<le> n
     \<and> overrun_counter (mq m) = (length ins - length (outs @ cq_items (mq m))) mod size_max
     \<and> (\<forall>c. mpmc_ready c m \<longrightarrow> (\<exists>xs ys m'. mpmc_do c m = Inr (xs, ys, m')))"
proof -
  note i = mpmc_reach_inv [OF assms]
  have "\<forall>c. mpmc_ready c m \<longrightarrow> (\<exists>xs ys m'. mpmc_do c m = Inr (xs, ys, m'))" using mpmc_step_ok [OF i] by blast
  then show ?thesis using i cq_size_le [of "mq m"] by (simp add: mpmc_inv_def fifo_inv_def)
qed

fun mpmc_play :: "'a mpmc_cmd list \<Rightarrow> 'a mpmc \<Rightarrow> ('a list \<times> 'a list \<times> 'a mpmc) option" where
  "mpmc_play [] m = Some ([], [], m)"
| "mpmc_play (c # cs) m =
     (if mpmc_ready c m then
        (case mpmc_do c m of
           Inl _ \<Rightarrow> None
         | Inr (xs, ys, m') \<Rightarrow> map_option (\<lambda>(ins, outs, m''). (xs @ ins, ys @ outs, m'')) (mpmc_play cs m'))
      else None)"

lemma mpmc_play_reach:
  "mpmc_reach n lossy ins outs m \<Longrightarrow> mpmc_play cs m = Some (xs, ys, m') \<Longrightarrow>
     mpmc_reach n (lossy \<or> list_ex nowait cs) (ins @ xs) (outs @ ys) m'"
proof (induction cs arbitrary: lossy ins outs m xs ys)
  case (Cons c cs)
  then obtain x1 y1 m1 x2 y2 where 1: "mpmc_ready c m" "mpmc_do c m = Inr (x1, y1, m1)" "mpmc_play cs m1 = Some (x2, y2, m')"
    "xs = x1 @ x2" "ys = y1 @ y2" by (auto split: if_splits sum.splits)
  from Cons.IH [OF mpmc_reach.step [OF Cons.prems(1) 1(1,2)] 1(3)] show ?case by (simp add: 1(4,5))
qed simp

text \<open>Two producers and a consumer on a queue with one place.\<close>

definition sample_threads :: "nat mpmc_cmd list" where
  "sample_threads = [Dequeue, Enqueue 1, Enqueue 2, Notify_Push, Dequeue_Woken False, Notify_Pop, Enqueue_Woken 2]"

lemma mpmc_new_1:
  "mpmc_new d 1 = \<lparr>mq = \<lparr>max_items = 2, cq_head = 0, cq_tail = 0, overrun_counter = 0, cq_v = [d, d]\<rparr>,
     push_cv = cv_new, pop_cv = cv_new, push_notes = 0, pop_notes = 0\<rparr>"
proof -
  have "replicate 2 d = [d, d]" by (simp add: numeral_2_eq_2)
  then show ?thesis by (simp add: mpmc_new_def circular_q_new_def size_max_def)
qed

lemma sample_threads_run:
  "mpmc_play sample_threads (mpmc_new 0 1) =
     Some ([1, 2], [1], \<lparr>mq = \<lparr>max_items = 2, cq_head = 1, cq_tail = 0, overrun_counter = 0, cq_v = [1, 2]\<rparr>,
       push_cv = cv_new, pop_cv = cv_new, push_notes = 1, pop_notes = 0\<rparr>)"
  unfolding mpmc_new_1 by code_simp

theorem log_queue_fifo_witness:
  "\<exists>m. mpmc_reach 1 False [1 :: nat, 2] [1] m \<and> [1, 2] = [1] @ cq_items (mq m)"
proof -
  obtain m where "mpmc_play sample_threads (mpmc_new 0 1) = Some ([1, 2], [1], m)" using sample_threads_run by blast
  from mpmc_play_reach [OF mpmc_reach.start this] have r: "mpmc_reach 1 False [1, 2] [1] m" by (simp add: sample_threads_def)
  from log_queue_fifo [OF r] show ?thesis using r by (auto simp: size_max_def)
qed

text \<open>
  C29: The blocking queue loses no wake-up, whatever the order of its threads and however
  often a wait ends without cause. While a consumer waits, there are at least as many woken
  consumers and notifications about to be sent as there are items inside; while a producer
  waits, at least as many woken producers and notifications as there are free places. So no
  thread waits beside an item or a free place that nobody has been woken for.\<close>

theorem log_queue_wakeups:
  assumes "mpmc_reach n lossy ins outs m" and "n + 1 < size_max"
  shows "(cv_waiting (push_cv m) > 0 \<longrightarrow> length (cq_items (mq m)) \<le> cv_woken (push_cv m) + push_notes m)
     \<and> (cv_waiting (pop_cv m) > 0 \<longrightarrow> n - length (cq_items (mq m)) \<le> cv_woken (pop_cv m) + pop_notes m)"
  using mpmc_reach_inv [OF assms] by (auto simp: mpmc_inv_def awake_def)

text \<open>A consumer waits when an item arrives on a queue with one place.\<close>

theorem log_queue_wakeups_witness:
  "\<exists>m. mpmc_reach 1 False [1 :: nat] [] m \<and> cv_waiting (push_cv m) = 1 \<and> length (cq_items (mq m)) = 1
     \<and> 1 \<le> cv_woken (push_cv m) + push_notes m"
proof -
  have e: "mpmc_play [Dequeue, Enqueue 1] (mpmc_new 0 1) =
     Some ([1 :: nat], [], \<lparr>mq = \<lparr>max_items = 2, cq_head = 0, cq_tail = 1, overrun_counter = 0, cq_v = [1, 0]\<rparr>,
       push_cv = cv_wait cv_new, pop_cv = cv_new, push_notes = 1, pop_notes = 0\<rparr>)"
    unfolding mpmc_new_1 by code_simp
  from mpmc_play_reach [OF mpmc_reach.start e]
  have r: "mpmc_reach 1 False [1 :: nat] [] \<lparr>mq = \<lparr>max_items = 2, cq_head = 0, cq_tail = 1, overrun_counter = 0, cq_v = [1, 0]\<rparr>,
       push_cv = cv_wait cv_new, pop_cv = cv_new, push_notes = 1, pop_notes = 0\<rparr>" by simp
  from log_queue_wakeups [OF r] show ?thesis using r
    by (intro exI conjI) (auto simp: size_max_def cv_wait_def cv_new_def cq_size_def)
qed

end
