(* ===== verification/Logger.thy ===== *)
theory Logger
  imports Log_Ring
begin

text \<open>
  The core of the logging library that the network backend reports its warnings with:
  libControlCAN/inc/spdlog/logger.h, logger-inl.h, details/backtracer-inl.h,
  sinks/sink-inl.h, sinks/dist\_sink.h, sinks/dup\_filter\_sink.h, sinks/ringbuffer\_sink.h.

  A sink is what it does to the outside world \<open>'s\<close>: \<open>log\<close> and \<open>flush\<close> may throw. The
  texts that the formatter makes and the readings of the clock are arguments.
\<close>

section \<open>Levels and messages\<close>

datatype level_enum = level_trace | level_debug | level_info | level_warn | level_err | level_critical | level_off

fun level_value :: "level_enum \<Rightarrow> nat" where
  "level_value level_trace = 0"
| "level_value level_debug = 1"
| "level_value level_info = 2"
| "level_value level_warn = 3"
| "level_value level_err = 4"
| "level_value level_critical = 5"
| "level_value level_off = 6"

lemma level_value_inj: "level_value a = level_value b \<Longrightarrow> a = b"
  by (cases a; cases b) simp_all

instantiation level_enum :: linorder
begin

definition less_eq_level_enum :: "level_enum \<Rightarrow> level_enum \<Rightarrow> bool" where
  "less_eq_level_enum a b \<longleftrightarrow> level_value a \<le> level_value b"

definition less_level_enum :: "level_enum \<Rightarrow> level_enum \<Rightarrow> bool" where
  "less_level_enum a b \<longleftrightarrow> level_value a < level_value b"

instance
  by standard (auto simp: less_eq_level_enum_def less_level_enum_def intro: level_value_inj)

end

record log_msg =
  lm_logger_name :: string
  lm_level :: level_enum
  lm_time :: int                          \<comment> \<open>microseconds\<close>
  lm_source :: "(string \<times> nat) option"     \<comment> \<open>file name, when it is not null, and line\<close>
  lm_payload :: string

section \<open>Sinks\<close>

datatype exn = Std_Exception string | Other_Exception

record 's sink =
  sk_level :: level_enum
  sk_log :: "log_msg \<Rightarrow> 's \<Rightarrow> exn option \<times> 's"
  sk_flush :: "'s \<Rightarrow> exn option \<times> 's"

definition sink_should_log :: "'s sink \<Rightarrow> level_enum \<Rightarrow> bool" where
  "sink_should_log k msg_level \<longleftrightarrow> msg_level \<ge> sk_level k"

definition sink_set_level :: "level_enum \<Rightarrow> 's sink \<Rightarrow> 's sink" where
  "sink_set_level log_level k = k\<lparr>sk_level := log_level\<rparr>"

text \<open>\<open>dist_sink\<close>: sinks are compared as pointers; an exception of a sink is not caught.\<close>

type_synonym 's dist_sink = "(nat \<times> 's sink) list"

definition add_sink :: "nat \<times> 's sink \<Rightarrow> 's dist_sink \<Rightarrow> 's dist_sink" where
  "add_sink k ks = ks @ [k]"

definition remove_sink :: "nat \<Rightarrow> 's dist_sink \<Rightarrow> 's dist_sink" where
  "remove_sink p ks = filter (\<lambda>k. fst k \<noteq> p) ks"

fun dist_sink_it :: "log_msg \<Rightarrow> 's dist_sink \<Rightarrow> 's \<Rightarrow> exn option \<times> 's" where
  "dist_sink_it msg [] s = (None, s)"
| "dist_sink_it msg (k # ks) s =
     (if sink_should_log (snd k) (lm_level msg) then
        (case sk_log (snd k) msg s of
           (None, s') \<Rightarrow> dist_sink_it msg ks s'
         | (Some e, s') \<Rightarrow> (Some e, s'))
      else dist_sink_it msg ks s)"

fun dist_flush :: "'s dist_sink \<Rightarrow> 's \<Rightarrow> exn option \<times> 's" where
  "dist_flush [] s = (None, s)"
| "dist_flush (k # ks) s =
     (case sk_flush (snd k) s of
        (None, s') \<Rightarrow> dist_flush ks s'
      | (Some e, s') \<Rightarrow> (Some e, s'))"

subsection \<open>Decimal numbers\<close>

fun dec :: "nat \<Rightarrow> string" where
  "dec n = (if n < 10 then [char_of (48 + n)] else dec (n div 10) @ [char_of (48 + n mod 10)])"

declare dec.simps [simp del]

lemma length_dec: "n < 10 ^ Suc k \<Longrightarrow> length (dec n) \<le> Suc k"
proof (induction k arbitrary: n)
  case 0
  then show ?case by (simp add: dec.simps)
next
  case (Suc k)
  have "n div 10 < 10 ^ Suc k" using Suc.prems by (simp add: less_mult_imp_div_less mult.commute)
  from Suc.IH [OF this] show ?case by (subst dec.simps) simp
qed

subsection \<open>Duplicates\<close>

record dup_filter =
  df_max_skip_duration :: int
  df_last_msg_time :: int
  df_last_msg_payload :: string
  df_skip_counter :: nat

definition dup_filter_sink :: "int \<Rightarrow> dup_filter" where
  "dup_filter_sink d = \<lparr>df_max_skip_duration = d, df_last_msg_time = 0, df_last_msg_payload = [], df_skip_counter = 0\<rparr>"

definition dup_passes :: "dup_filter \<Rightarrow> log_msg \<Rightarrow> bool" where
  "dup_passes f msg \<longleftrightarrow> lm_time msg - df_last_msg_time f > df_max_skip_duration f \<or> lm_payload msg \<noteq> df_last_msg_payload f"

text \<open>The message that \<open>snprintf\<close> puts into 64 bytes, when it fits; \<open>now\<close> is its time.\<close>

definition skipped_text :: "nat \<Rightarrow> string" where
  "skipped_text n = ''Skipped '' @ dec (n mod 2 ^ 32) @ '' duplicate messages..''"

definition skipped_msg :: "int \<Rightarrow> log_msg \<Rightarrow> nat \<Rightarrow> log_msg list" where
  "skipped_msg now msg n =
     (if length (skipped_text n) < 64
      then [\<lparr>lm_logger_name = lm_logger_name msg, lm_level = level_info, lm_time = now, lm_source = None, lm_payload = skipped_text n\<rparr>]
      else [])"

text \<open>\<open>sink_it_\<close> of the filter, on the sinks \<open>ks\<close>; an exception leaves the filter as it was.\<close>

fun dist_all :: "log_msg list \<Rightarrow> 's dist_sink \<Rightarrow> 's \<Rightarrow> exn option \<times> 's" where
  "dist_all [] ks s = (None, s)"
| "dist_all (m # ms) ks s =
     (case dist_sink_it m ks s of
        (Some e, s') \<Rightarrow> (Some e, s')
      | (None, s') \<Rightarrow> dist_all ms ks s')"

definition dup_sink_it :: "int \<Rightarrow> log_msg \<Rightarrow> 's dist_sink \<Rightarrow> dup_filter \<times> 's \<Rightarrow> exn option \<times> dup_filter \<times> 's" where
  "dup_sink_it now msg ks st =
     (let (f, s) = st
      in if \<not> dup_passes f msg then (None, f\<lparr>df_skip_counter := (df_skip_counter f + 1) mod size_max\<rparr>, s)
         else case dist_all ((if df_skip_counter f > 0 then skipped_msg now msg (df_skip_counter f) else []) @ [msg]) ks s of
                (Some e, s') \<Rightarrow> (Some e, f, s')
              | (None, s') \<Rightarrow> (None, f\<lparr>df_last_msg_time := lm_time msg, df_skip_counter := 0, df_last_msg_payload := lm_payload msg\<rparr>, s'))"

subsection \<open>The last messages\<close>

fun at_range :: "'a circular_q \<Rightarrow> nat \<Rightarrow> nat \<Rightarrow> 'a list res" where
  "at_range q i 0 = Inr []"
| "at_range q i (Suc n) = and_then (cq_at q i) (\<lambda>x. and_then (at_range q (Suc i) n) (\<lambda>xs. Inr (x # xs)))"

definition last_raw :: "'a circular_q \<Rightarrow> nat \<Rightarrow> 'a list res" where
  "last_raw q lim =
     (let items_available = cq_size q; n_items = (if lim > 0 then min lim items_available else items_available)
      in at_range q (items_available - n_items) n_items)"

section \<open>The backtracer\<close>

record backtracer =
  bt_enabled :: bool
  bt_messages :: "log_msg circular_q"

definition backtracer_new :: backtracer where
  "backtracer_new = \<lparr>bt_enabled = False, bt_messages = cq_disabled\<rparr>"


definition bt_disable :: "backtracer \<Rightarrow> backtracer" where
  "bt_disable b = b\<lparr>bt_enabled := False\<rparr>"

definition bt_push_back :: "log_msg \<Rightarrow> backtracer \<Rightarrow> backtracer res" where
  "bt_push_back msg b = and_then (cq_push_back msg (bt_messages b)) (\<lambda>q. Inr (b\<lparr>bt_messages := q\<rparr>))"


section \<open>The logger\<close>

text \<open>The static variables of the default error handler, and what it has printed.\<close>

record err_state =
  es_last_report :: int
  es_counter :: nat
  es_reports :: "(int \<times> nat \<times> string \<times> string) list"   \<comment> \<open>time, number, name of the logger, text\<close>

record 's logger =
  lg_name :: string
  lg_sinks :: "'s sink list"
  lg_level :: level_enum
  lg_flush_level :: level_enum
  lg_handler :: "(string \<Rightarrow> 's \<Rightarrow> 's) option"
  lg_tracer :: backtracer

definition logger_new :: "string \<Rightarrow> 's sink list \<Rightarrow> 's logger" where
  "logger_new name sinks = \<lparr>lg_name = name, lg_sinks = sinks, lg_level = level_info, lg_flush_level = level_off,
     lg_handler = None, lg_tracer = backtracer_new\<rparr>"

definition logger_set_level :: "level_enum \<Rightarrow> 's logger \<Rightarrow> 's logger" where
  "logger_set_level l g = g\<lparr>lg_level := l\<rparr>"

definition flush_on :: "level_enum \<Rightarrow> 's logger \<Rightarrow> 's logger" where
  "flush_on l g = g\<lparr>lg_flush_level := l\<rparr>"

definition set_error_handler :: "(string \<Rightarrow> 's \<Rightarrow> 's) option \<Rightarrow> 's logger \<Rightarrow> 's logger" where
  "set_error_handler h g = g\<lparr>lg_handler := h\<rparr>"


definition disable_backtrace :: "'s logger \<Rightarrow> 's logger" where
  "disable_backtrace g = g\<lparr>lg_tracer := bt_disable (lg_tracer g)\<rparr>"

definition logger_swap :: "'s logger \<times> 's logger \<Rightarrow> 's logger \<times> 's logger" where
  "logger_swap p = (snd p, fst p)"

definition logger_clone :: "string \<Rightarrow> 's logger \<Rightarrow> 's logger" where
  "logger_clone name g = g\<lparr>lg_name := name\<rparr>"

definition logger_should_log :: "'s logger \<Rightarrow> level_enum \<Rightarrow> bool" where
  "logger_should_log g msg_level \<longleftrightarrow> msg_level \<ge> lg_level g"

definition should_flush :: "'s logger \<Rightarrow> log_msg \<Rightarrow> bool" where
  "should_flush g msg \<longleftrightarrow> lm_level msg \<ge> lg_flush_level g \<and> lm_level msg \<noteq> level_off"

text \<open>\<open>clk n\<close> is the clock at the \<open>n\<close>-th call of the default handler.\<close>

definition default_report :: "(nat \<Rightarrow> int) \<Rightarrow> string \<Rightarrow> string \<Rightarrow> err_state \<Rightarrow> err_state" where
  "default_report clk name msg es =
     (let now = clk (es_counter es); es1 = es\<lparr>es_counter := (es_counter es + 1) mod size_max\<rparr>
      in if now - es_last_report es1 < 1000000 then es1
         else es1\<lparr>es_last_report := now, es_reports := es_reports es1 @ [(now, es_counter es1, name, msg)]\<rparr>)"

definition err_handler :: "(nat \<Rightarrow> int) \<Rightarrow> 's logger \<Rightarrow> string \<Rightarrow> 's \<times> err_state \<Rightarrow> 's \<times> err_state" where
  "err_handler clk g msg w =
     (case lg_handler g of
        Some h \<Rightarrow> (h msg (fst w), snd w)
      | None \<Rightarrow> (fst w, default_report clk (lg_name g) msg (snd w)))"

definition located :: "(string \<times> nat) option \<Rightarrow> string \<Rightarrow> string" where
  "located loc what = (case loc of None \<Rightarrow> what | Some (file, line) \<Rightarrow> what @ '' ['' @ file @ ''('' @ dec line @ '')]'')"

text \<open>\<open>SPDLOG_LOGGER_CATCH\<close>: the first component is what is thrown on.\<close>

fun logger_catch :: "(nat \<Rightarrow> int) \<Rightarrow> 's logger \<Rightarrow> (string \<times> nat) option \<Rightarrow> exn \<Rightarrow> 's \<times> err_state \<Rightarrow> exn option \<times> 's \<times> err_state" where
  "logger_catch clk g loc (Std_Exception what) w = (None, err_handler clk g (located loc what) w)"
| "logger_catch clk g loc Other_Exception w = (Some Other_Exception, err_handler clk g ''Rethrowing unknown exception in logger'' w)"

fun sink_loop :: "(nat \<Rightarrow> int) \<Rightarrow> 's logger \<Rightarrow> log_msg \<Rightarrow> 's sink list \<Rightarrow> 's \<times> err_state \<Rightarrow> exn option \<times> 's \<times> err_state" where
  "sink_loop clk g msg [] w = (None, w)"
| "sink_loop clk g msg (k # ks) w =
     (if sink_should_log k (lm_level msg) then
        (case sk_log k msg (fst w) of
           (None, s') \<Rightarrow> sink_loop clk g msg ks (s', snd w)
         | (Some e, s') \<Rightarrow>
             (case logger_catch clk g (lm_source msg) e (s', snd w) of
                (None, w') \<Rightarrow> sink_loop clk g msg ks w'
              | (Some e', w') \<Rightarrow> (Some e', w')))
      else sink_loop clk g msg ks w)"

fun flush_loop :: "(nat \<Rightarrow> int) \<Rightarrow> 's logger \<Rightarrow> 's sink list \<Rightarrow> 's \<times> err_state \<Rightarrow> exn option \<times> 's \<times> err_state" where
  "flush_loop clk g [] w = (None, w)"
| "flush_loop clk g (k # ks) w =
     (case sk_flush k (fst w) of
        (None, s') \<Rightarrow> flush_loop clk g ks (s', snd w)
      | (Some e, s') \<Rightarrow>
          (case logger_catch clk g None e (s', snd w) of
             (None, w') \<Rightarrow> flush_loop clk g ks w'
           | (Some e', w') \<Rightarrow> (Some e', w')))"

definition logger_sink_it :: "(nat \<Rightarrow> int) \<Rightarrow> 's logger \<Rightarrow> log_msg \<Rightarrow> 's \<times> err_state \<Rightarrow> exn option \<times> 's \<times> err_state" where
  "logger_sink_it clk g msg w =
     (case sink_loop clk g msg (lg_sinks g) w of
        (Some e, w') \<Rightarrow> (Some e, w')
      | (None, w') \<Rightarrow> if should_flush g msg then flush_loop clk g (lg_sinks g) w' else (None, w'))"

definition log_it :: "(nat \<Rightarrow> int) \<Rightarrow> log_msg \<Rightarrow> bool \<Rightarrow> bool \<Rightarrow> 's logger \<times> 's \<times> err_state \<Rightarrow> (exn option \<times> 's logger \<times> 's \<times> err_state) res" where
  "log_it clk msg log_enabled traceback_enabled st =
     (let (g, w) = st; (e, w') = (if log_enabled then logger_sink_it clk g msg w else (None, w))
      in case e of
           Some x \<Rightarrow> Inr (Some x, g, w')
         | None \<Rightarrow> if traceback_enabled then and_then (bt_push_back msg (lg_tracer g)) (\<lambda>b. Inr (None, g\<lparr>lg_tracer := b\<rparr>, w'))
                   else Inr (None, g, w'))"

text \<open>\<open>log(source_loc, level, string_view)\<close>.\<close>

definition log_plain :: "(nat \<Rightarrow> int) \<Rightarrow> int \<Rightarrow> (string \<times> nat) option \<Rightarrow> level_enum \<Rightarrow> string
    \<Rightarrow> 's logger \<times> 's \<times> err_state \<Rightarrow> (exn option \<times> 's logger \<times> 's \<times> err_state) res" where
  "log_plain clk now loc lvl msg st =
     (let (g, w) = st; log_enabled = logger_should_log g lvl; traceback_enabled = bt_enabled (lg_tracer g)
      in if \<not> log_enabled \<and> \<not> traceback_enabled then Inr (None, g, w)
         else log_it clk \<lparr>lm_logger_name = lg_name g, lm_level = lvl, lm_time = now, lm_source = loc, lm_payload = msg\<rparr>
                log_enabled traceback_enabled st)"

text \<open>
  \<open>log_(source_loc, level, fmt, args...)\<close>; \<open>formatted\<close> is the text that \<open>vformat_to\<close> makes,
  or the exception it throws. What \<open>log_it\<close> throws is caught here a second time.
\<close>

definition log_fmt :: "(nat \<Rightarrow> int) \<Rightarrow> int \<Rightarrow> (string \<times> nat) option \<Rightarrow> level_enum \<Rightarrow> exn + string
    \<Rightarrow> 's logger \<times> 's \<times> err_state \<Rightarrow> (exn option \<times> 's logger \<times> 's \<times> err_state) res" where
  "log_fmt clk now loc lvl formatted st =
     (let (g, w) = st; log_enabled = logger_should_log g lvl; traceback_enabled = bt_enabled (lg_tracer g)
      in if \<not> log_enabled \<and> \<not> traceback_enabled then Inr (None, g, w)
         else case formatted of
                Inl e \<Rightarrow> (let (e', w') = logger_catch clk g loc e w in Inr (e', g, w'))
              | Inr text \<Rightarrow>
                  and_then (log_it clk \<lparr>lm_logger_name = lg_name g, lm_level = lvl, lm_time = now, lm_source = loc, lm_payload = text\<rparr>
                      log_enabled traceback_enabled st) (\<lambda>(e, g', w').
                    case e of
                      None \<Rightarrow> Inr (None, g', w')
                    | Some x \<Rightarrow> (let (e', w'') = logger_catch clk g' loc x w' in Inr (e', g', w''))))"



section \<open>What a logger promises\<close>

text \<open>A sink that throws nothing but exceptions of the standard library.\<close>

definition tame :: "'s sink \<Rightarrow> bool" where
  "tame k \<longleftrightarrow> (\<forall>msg s. fst (sk_log k msg s) \<noteq> Some Other_Exception) \<and> (\<forall>s. fst (sk_flush k s) \<noteq> Some Other_Exception)"

fun whats :: "exn option \<Rightarrow> string list" where
  "whats (Some (Std_Exception what)) = [what]"
| "whats _ = []"

text \<open>Every sink is offered the message, and what was thrown is collected.\<close>

fun offer_all :: "('s sink \<Rightarrow> 's \<Rightarrow> exn option \<times> 's) \<Rightarrow> 's sink list \<Rightarrow> 's \<Rightarrow> 's \<times> string list" where
  "offer_all act [] s = (s, [])"
| "offer_all act (k # ks) s = (let (e, s1) = act k s; (s2, es) = offer_all act ks s1 in (s2, whats e @ es))"

definition deliver :: "(nat \<Rightarrow> int) \<Rightarrow> 's logger \<Rightarrow> log_msg \<Rightarrow> 's \<times> err_state \<Rightarrow> 's \<times> err_state" where
  "deliver clk g msg w =
     (let (s1, errs1) = offer_all (\<lambda>k. sk_log k msg) (filter (\<lambda>k. sk_level k \<le> lm_level msg) (lg_sinks g)) (fst w);
          (s2, errs2) = (if should_flush g msg then offer_all sk_flush (lg_sinks g) s1 else (s1, []))
      in (s2, fold (default_report clk (lg_name g)) (map (located (lm_source msg)) errs1 @ errs2) (snd w)))"

lemma tame_cases:
  assumes "tame k"
  obtains "sk_log k msg s = (None, snd (sk_log k msg s))" | what where "sk_log k msg s = (Some (Std_Exception what), snd (sk_log k msg s))"
  using assms unfolding tame_def by (metis exn.exhaust option.exhaust prod.collapse)

lemma tame_flush_cases:
  assumes "tame k"
  obtains "sk_flush k s = (None, snd (sk_flush k s))" | what where "sk_flush k s = (Some (Std_Exception what), snd (sk_flush k s))"
  using assms unfolding tame_def by (metis exn.exhaust option.exhaust prod.collapse)

lemma sink_loop_ok:
  assumes "list_all tame ks" and "lg_handler g = None"
  shows "sink_loop clk g msg ks (s, es) =
     (let (s1, errs) = offer_all (\<lambda>k. sk_log k msg) (filter (\<lambda>k. sk_level k \<le> lm_level msg) ks) s
      in (None, s1, fold (default_report clk (lg_name g)) (map (located (lm_source msg)) errs) es))"
  using assms(1)
proof (induction ks arbitrary: s es)
  case (Cons k ks)
  then have k: "tame k" by simp
  show ?case
  proof (rule tame_cases [OF k, of msg s])
    assume "sk_log k msg s = (None, snd (sk_log k msg s))"
    then obtain s1 where "sk_log k msg s = (None, s1)" by blast
    then show ?thesis using Cons by (simp add: sink_should_log_def split: prod.split)
  next
    fix what assume "sk_log k msg s = (Some (Std_Exception what), snd (sk_log k msg s))"
    then obtain s1 where "sk_log k msg s = (Some (Std_Exception what), s1)" by blast
    then show ?thesis using Cons assms(2) by (simp add: sink_should_log_def err_handler_def split: prod.split)
  qed
qed simp

lemma flush_loop_ok:
  assumes "list_all tame ks" and "lg_handler g = None"
  shows "flush_loop clk g ks (s, es) =
     (let (s1, errs) = offer_all sk_flush ks s in (None, s1, fold (default_report clk (lg_name g)) errs es))"
  using assms(1)
proof (induction ks arbitrary: s es)
  case (Cons k ks)
  then have k: "tame k" by simp
  show ?case
  proof (rule tame_flush_cases [OF k, of s])
    assume "sk_flush k s = (None, snd (sk_flush k s))"
    then obtain s1 where "sk_flush k s = (None, s1)" by blast
    then show ?thesis using Cons by (simp split: prod.split)
  next
    fix what assume "sk_flush k s = (Some (Std_Exception what), snd (sk_flush k s))"
    then obtain s1 where "sk_flush k s = (Some (Std_Exception what), s1)" by blast
    then show ?thesis using Cons assms(2) by (simp add: err_handler_def located_def split: prod.split)
  qed
qed simp

lemma sink_it_ok:
  assumes "list_all tame (lg_sinks g)" and "lg_handler g = None"
  shows "logger_sink_it clk g msg w = (None, deliver clk g msg w)"
  using sink_loop_ok [OF assms, of clk msg "fst w" "snd w"] flush_loop_ok [OF assms, of clk]
  by (simp add: logger_sink_it_def deliver_def split: prod.split)

lemma deliver_tracer [simp]: "deliver clk (g\<lparr>lg_tracer := b\<rparr>) msg w = deliver clk g msg w"
  by (simp add: deliver_def should_flush_def cong: if_cong)

definition message :: "'s logger \<Rightarrow> int \<Rightarrow> (string \<times> nat) option \<Rightarrow> level_enum \<Rightarrow> string \<Rightarrow> log_msg" where
  "message g now loc lvl text = \<lparr>lm_logger_name = lg_name g, lm_level = lvl, lm_time = now, lm_source = loc, lm_payload = text\<rparr>"

lemma message_tracer [simp]: "message (g\<lparr>lg_tracer := b\<rparr>) now loc lvl text = message g now loc lvl text"
  by (simp add: message_def)

text \<open>The tracer keeps the last messages while it is enabled.\<close>

definition traces :: "backtracer \<Rightarrow> nat \<Rightarrow> log_msg list \<Rightarrow> bool" where
  "traces b n ms \<longleftrightarrow> cq_ok (bt_messages b) \<and> cq_room (bt_messages b) = n \<and> cq_items (bt_messages b) = ms"

lemma traces_push:
  assumes "traces b n ms"
  shows "\<exists>b'. bt_push_back m b = Inr b' \<and> bt_enabled b' = bt_enabled b \<and> traces b' n (last_n n (ms @ [m]))"
  using cq.push_ok [of "bt_messages b" m] assms by (auto simp: traces_def bt_push_back_def)

lemma log_plain_ok:
  assumes "list_all tame (lg_sinks g)" and "lg_handler g = None" and t: "traces (lg_tracer g) n ms"
  shows "\<exists>b. log_plain clk now loc lvl text (g, w) =
       Inr (None, g\<lparr>lg_tracer := b\<rparr>, if lg_level g \<le> lvl then deliver clk g (message g now loc lvl text) w else w)
     \<and> bt_enabled b = bt_enabled (lg_tracer g)
     \<and> traces b n (if bt_enabled (lg_tracer g) then last_n n (ms @ [message g now loc lvl text]) else ms)"
proof -
  have si: "logger_sink_it clk g (message g now loc lvl text) w = (None, deliver clk g (message g now loc lvl text) w)"
    using assms(1,2) by (rule sink_it_ok)
  show ?thesis
  proof (cases "bt_enabled (lg_tracer g)")
    case True
    obtain b where "bt_push_back (message g now loc lvl text) (lg_tracer g) = Inr b" "bt_enabled b"
      "traces b n (last_n n (ms @ [message g now loc lvl text]))" using traces_push [OF t] True by blast
    then show ?thesis using True si by (auto simp: log_plain_def log_it_def logger_should_log_def message_def)
  next
    case False
    then show ?thesis using si t
      by (intro exI [of _ "lg_tracer g"]) (auto simp: log_plain_def log_it_def logger_should_log_def message_def)
  qed
qed



fun calls_msgs :: "'s logger \<Rightarrow> (int \<times> (string \<times> nat) option \<times> level_enum \<times> string) list \<Rightarrow> log_msg list" where
  "calls_msgs g [] = []"
| "calls_msgs g ((now, loc, lvl, text) # cs) = message g now loc lvl text # calls_msgs g cs"

lemma calls_msgs_tracer [simp]: "calls_msgs (g\<lparr>lg_tracer := b\<rparr>) cs = calls_msgs g cs"
  by (induction g cs rule: calls_msgs.induct) auto




text \<open>The default handler prints at most once a second.\<close>

lemma reports_spaced:
  assumes "successively (\<lambda>a b. fst b - fst a \<ge> 1000000) (es_reports es)" and "es_reports es \<noteq> [] \<longrightarrow> fst (last (es_reports es)) = es_last_report es"
  shows "successively (\<lambda>a b. fst b - fst a \<ge> 1000000) (es_reports (fold (default_report clk name) msgs es))"
  using assms
proof (induction msgs arbitrary: es)
  case (Cons m ms)
  have "successively (\<lambda>a b. fst b - fst a \<ge> 1000000) (es_reports (default_report clk name m es))
     \<and> (es_reports (default_report clk name m es) \<noteq> [] \<longrightarrow> fst (last (es_reports (default_report clk name m es))) = es_last_report (default_report clk name m es))"
    using Cons.prems by (auto simp: default_report_def successively_append_iff Let_def)
  then show ?case using Cons.IH by simp
qed simp

text \<open>The copies of a message are counted, and the count is printed before the next message.\<close>

fun dup_run :: "int \<Rightarrow> 's dist_sink \<Rightarrow> log_msg list \<Rightarrow> dup_filter \<times> 's \<Rightarrow> exn option \<times> dup_filter \<times> 's" where
  "dup_run now ks [] st = (None, st)"
| "dup_run now ks (m # ms) st =
     (case dup_sink_it now m ks st of
        (Some e, st') \<Rightarrow> (Some e, st')
      | (None, st') \<Rightarrow> dup_run now ks ms st')"

lemma dup_run_copies:
  "list_all (\<lambda>m. lm_payload m = df_last_msg_payload f \<and> lm_time m - df_last_msg_time f \<le> df_max_skip_duration f) ms \<Longrightarrow>
     df_skip_counter f + length ms < size_max \<Longrightarrow>
     dup_run now ks (ms @ ms') (f, s) = dup_run now ks ms' (f\<lparr>df_skip_counter := df_skip_counter f + length ms\<rparr>, s)"
  by (induction ms arbitrary: f) (auto simp: dup_sink_it_def dup_passes_def)

lemma length_skipped: "length (skipped_text n) < 64"
proof -
  have "n mod 2 ^ 32 < 10 ^ Suc 9" by (rule less_trans [of _ "2 ^ 32"]) simp_all
  from length_dec [OF this] show ?thesis by (simp add: skipped_text_def)
qed

theorem dup_filter_counts:
  assumes "list_all (\<lambda>m. lm_payload m = df_last_msg_payload f \<and> lm_time m - df_last_msg_time f \<le> df_max_skip_duration f) ms"
    and "ms \<noteq> []" and "df_skip_counter f = 0" and "length ms < size_max" and "lm_payload m' \<noteq> df_last_msg_payload f"
  shows "map lm_payload (skipped_msg now m' (length ms)) = [skipped_text (length ms)]
     \<and> dup_run now ks (ms @ [m']) (f, s) =
         (case dist_all (skipped_msg now m' (length ms) @ [m']) ks s of
            (Some e, s') \<Rightarrow> (Some e, f\<lparr>df_skip_counter := length ms\<rparr>, s')
          | (None, s') \<Rightarrow> (None, f\<lparr>df_last_msg_time := lm_time m', df_skip_counter := 0, df_last_msg_payload := lm_payload m'\<rparr>, s'))"
  using assms dup_run_copies [of f ms now ks "[m']" s] length_skipped
  by (simp add: dup_sink_it_def dup_passes_def skipped_msg_def split: prod.split option.split)

text \<open>The end of the ring buffer sink.\<close>

lemma at_range_items: "cq_ok q \<Longrightarrow> i + n \<le> cq_size q \<Longrightarrow> at_range q i n = Inr (take n (drop i (cq_items q)))"
proof (induction n arbitrary: i)
  case (Suc n)
  then have "take (Suc n) (drop i (cq_items q)) = cq_items q ! i # take n (drop (Suc i) (cq_items q))"
    by (simp add: Cons_nth_drop_Suc [symmetric])
  then show ?case using Suc at_item [of q i] by simp
qed simp

theorem last_raw_items:
  "cq_ok q \<Longrightarrow> last_raw q lim = Inr (last_n (if lim > 0 then lim else cq_size q) (cq_items q))"
  using at_range_items [of q] by (auto simp: last_raw_def Let_def last_n_def min_def)

section \<open>Properties\<close>

text \<open>
  C30: A logger delivers. When its sinks throw nothing but standard exceptions and no handler
  is installed, \<open>log\<close> hands the message exactly to the sinks whose level admits it, in their
  order and each of them whatever the others throw, provided the level of the logger admits
  it; every exception is reported and none leaves the call; the sinks are then flushed if the
  level demands it; and the tracer, if it is enabled, keeps the message whatever its level.\<close>

theorem logger_delivers:
  assumes "list_all tame (lg_sinks g)" and "lg_handler g = None" and "cq_ok (bt_messages (lg_tracer g))"
  shows "\<exists>b. log_plain clk now loc lvl text (g, w) =
       Inr (None, g\<lparr>lg_tracer := b\<rparr>, if lg_level g \<le> lvl then deliver clk g (message g now loc lvl text) w else w)
     \<and> bt_enabled b = bt_enabled (lg_tracer g) \<and> cq_ok (bt_messages b)
     \<and> cq_items (bt_messages b) = (if bt_enabled (lg_tracer g)
         then last_n (cq_room (bt_messages (lg_tracer g))) (cq_items (bt_messages (lg_tracer g)) @ [message g now loc lvl text])
         else cq_items (bt_messages (lg_tracer g)))"
  using log_plain_ok [OF assms(1,2), of "cq_room (bt_messages (lg_tracer g))" "cq_items (bt_messages (lg_tracer g))"] assms(3)
  unfolding traces_def by blast

text \<open>A sink that stores the texts, and one that always throws.\<close>

definition storing :: "string list sink" where
  "storing = \<lparr>sk_level = level_trace, sk_log = (\<lambda>msg s. (None, s @ [lm_payload msg])), sk_flush = (\<lambda>s. (None, s))\<rparr>"

definition throwing :: "string list sink" where
  "throwing = \<lparr>sk_level = level_trace, sk_log = (\<lambda>msg s. (Some (Std_Exception ''disk full''), s)), sk_flush = (\<lambda>s. (None, s))\<rparr>"

definition calm :: err_state where
  "calm = \<lparr>es_last_report = 0, es_counter = 0, es_reports = []\<rparr>"

lemma tame_samples: "tame storing" "tame throwing"
  by (simp_all add: tame_def storing_def throwing_def)

theorem logger_delivers_witness:
  "\<exists>g. log_plain (\<lambda>_. 5000000) 7 None level_warn ''late'' (logger_new ''can'' [throwing, storing], [], calm) =
     Inr (None, g, [''late''], \<lparr>es_last_report = 5000000, es_counter = 1, es_reports = [(5000000, 1, ''can'', ''disk full'')]\<rparr>)"
proof -
  let ?g = "logger_new ''can'' [throwing, storing]"
  have "level_info \<le> level_warn" "level_trace \<le> level_warn" "\<not> level_off \<le> level_warn" by (simp_all add: less_eq_level_enum_def)
  then have "deliver (\<lambda>_. 5000000) ?g (message ?g 7 None level_warn ''late'') ([], calm) =
      ([''late''], \<lparr>es_last_report = 5000000, es_counter = 1, es_reports = [(5000000, 1, ''can'', ''disk full'')]\<rparr>)"
    by (simp add: deliver_def logger_new_def message_def should_flush_def throwing_def storing_def default_report_def calm_def
        located_def size_max_def)
  moreover have "list_all tame (lg_sinks ?g)" "lg_handler ?g = None" "cq_ok (bt_messages (lg_tracer ?g))" "lg_level ?g = level_info"
    by (simp_all add: logger_new_def tame_samples backtracer_new_def cq_disabled_def cq_ok_def)
  ultimately show ?thesis
    using logger_delivers [of ?g "\<lambda>_. 5000000" 7 None level_warn "''late''" "([], calm)"] by (auto simp: less_eq_level_enum_def)
qed



end
