(* ===== verification/Spec2Isabelle.thy ===== *)
theory Spec2Isabelle
  imports Can_Net_Io Agent_System Event_Util Event_Wait Ini_Binary Logger
begin

text \<open>
  Verification development of libControlCAN2, a C++ library that gives programs access to
  USB-CAN adapters through the functions VCI\_OpenDevice, VCI\_Transmit, VCI\_Receive, ...,
  and of can\_agent, a server that passes the objects of an adapter on to clients over TCP.

  \<^bold>\<open>The program.\<close> A program calls the exported C functions, which forward to one object of
  class CanAbstract. It owns a backend behind the interface CanImpInterface: a direct backend
  loads the driver libraries of the vendors, which an INI file lists, and routes each call by
  device type; the network backend turns each call into a line of text on a TCP connection and
  decodes the lines that come back. On the other side of such a connection is the agent: a
  thread receives objects from a device through the same library, stamps each with a running
  number and an extrapolated time, and enqueues it as a line on an event queue (eventpp); the
  listeners of that queue are the sessions of the clients, which hand the lines to the I/O
  thread through bounded queues and write them to their sockets.

  \<^bold>\<open>How code becomes definitions.\<close> Structures are records, enumerations and unions
  datatypes, machine integers words of their width. Every operation is one executable function
  that takes and returns the state it changes. Undefined behaviour and exceptions are values:
  \<open>'a res\<close> is \<open>fault + 'a\<close>, and every access to an array, a pointer or an uninitialised
  variable that may fail has its own fault. Where the code shares objects through pointers (key
  tables of the INI reader, nodes of callback lists, data of self-removing listeners, sessions)
  there is an explicit store. Threads and completion handlers are steps that interleave freely:
  what a thread does under a mutex, or one handler, is one step. The operations of callback
  lists and, but for Event\_Wait, those of event queues are taken one at a time, and in
  Agent\_System a dispatch of all pending events is one step.

  \<^bold>\<open>The theories\<close>, each with the sources it models:

  \<^item> Prelude: machine types, faults, bounded buffers, byte images of words.
  \<^item> Usbcan (include/usbcan.h): structures and codes with their object representations.
  \<^item> Hex\_Dump (include/hex\_dump.hpp): printers and readers of hexadecimal text. The
    table-driven printers agree with the stream-based reference and stay inside their buffers;
    reading inverts printing.
  \<^item> Ini, Ini\_Binary (libControlCAN/inc/ini.h): parsing returns for files with short lines,
    and diverges on a long one; saving and parsing is the identity on well-formed tables; which
    malformed lines are faults; a binary file is not read back.
  \<^item> Host (libControlCAN/inc/misc.hpp and what the sources use of the machine), Vendor\_Dll
    (inc/lib\_control\_can\_define.hpp, include/lib\_control\_can\_imp.h), Direct\_Can
    (src/lib\_control\_can\_imp\_dc.cc, ...\_dc2.cc): which driver serves which device type, that
    sessions on either direct backend are sessions on the driver, and that the lazy and the eager
    backend agree. The locale \<open>vci_router\<close> holds what both share.
  \<^item> Can\_Net, Can\_Net\_Io (src/lib\_control\_can\_imp\_net.cc): connection, deadlines, the
    request lines, sending and receiving of objects. The locale \<open>deadline_op\<close> is the contract of
    an operation that races with its timer. Requests are sent exactly or the connection is
    dropped; the receiver accounts for every byte and decodes exactly the objects sent.
  \<^item> Lib\_Control\_Can (src/lib\_control\_can.cc): the C interface over the backends.
  \<^item> Callback\_List, Callback\_Refine (3rd/include/eventpp/callbacklist.h): nodes on a heap,
    and their refinement to a sequence of entries, also while callbacks change the list that is
    being iterated.
  \<^item> Event\_Queue, Event\_Process (eventdispatcher.h, eventqueue.h, internal/eventqueue\_i.h):
    the operations one at a time, refined to listeners per event and a sequence of events.
    Event\_Wait cuts the operations into steps of threads, one access each, and is about \<open>wait\<close>
    and \<open>waitFor\<close>: when a blocked thread is woken, and the two ways in which it is not.
  \<^item> Event\_Remover, Event\_Wrapper, Event\_Util (utilities/scopedremover.h, counterremover.h,
    conditionalremover.h, eventutil.h, orderedqueuelist.h, mixins/mixinfilter.h): removal of
    listeners, filters, and ordered queues. The locales \<open>listener_list\<close> and \<open>keyed_removal\<close> are
    interpreted for dispatchers and for callback lists.
  \<^item> Session (can\_agent/server/session.cc, session.h, canobj\_queue\_type.h), Tick\_Ext
    (3rd/include/ticks/tick\_ext.h), Can\_Agent (can\_agent/main.cc, server/server.cc,
    server/session\_pool.cc), Agent\_System (their composition): a client gets the published
    lines in order, each of them once, from its connection on; lines are dropped only when its
    queue is full; a session drains what it has; a broken session is removed.
  \<^item> Cond\_Var, Log\_Ring, Logger (libControlCAN/inc/spdlog/: details/circular\_q.h,
    details/mpmc\_blocking\_q.h, details/backtracer-inl.h, logger.h, logger-inl.h and the sinks
    dist\_sink.h, dup\_filter\_sink.h, ringbuffer\_sink.h): the queues of the logging library, its
    wake-ups, and what a logger hands to its sinks. The locale \<open>last_items\<close> is the contract of a
    queue that keeps its last items.
  \<^item> This theory: the agent and the client's network backend together.

  \<^bold>\<open>Parameters and hypotheses.\<close> Code outside the sources is an argument of the definitions:
  the entry points of driver libraries, the file system and the dynamic loader (record \<open>host\<close>),
  the order in which boost::asio calls handlers (lists of events, with \<open>admissible\<close> and
  \<open>rx_admissible\<close> for what asio guarantees), boost::lockfree::spsc\_queue (record \<open>spsc\<close>, with
  \<open>spsc_ok\<close> for its documentation), floating-point arithmetic (record \<open>fp\<close>), clocks, and the
  sinks of a logger. Each property with such a hypothesis is applied to a concrete instance.
  Loading and unloading a driver library do not touch the state of the driver. An
  \<open>async_write\<close> consumes what it has written from its \<open>streambuf\<close> before it calls the handler.

  \<^bold>\<open>Loops and fuel.\<close> The loops that may run for ever, the parser and \<open>foreach_pop\<close>, are
  \<open>partial_function\<close>s, and that they return is part of the properties. Loops over a callback
  list take one more than the number of nodes ever allocated as fuel; the list is acyclic, so
  it is enough, and the refinement shows it. All other loops are structural recursions.

  \<^bold>\<open>Not modelled.\<close> The cycle counter (inline assembly; its readings are arguments); argument
  passing modes and policies of eventpp, which are resolved at compile time, and its
  heterogeneous variants, which nothing instantiates; include/format.hpp, which cannot be
  instantiated, and likewise \<open>saveBinaryExperimental\<close>; conversion of INI values to other types;
  logging flags, signals, thread start and join of the agent's \<open>main\<close>; formatters, registry,
  asynchronous logger and the file and console sinks of spdlog; the other vendored libraries
  (fmt, glog, googletest, libzmq, cppzmq), which serve diagnostics and tests; examples and tests;
  build files.
\<close>

section \<open>From the agent to the client\<close>

text \<open>What a client has got of a stream of lines: whole lines and the beginning of one.\<close>

lemma prefix_of_lines:
  assumes "prefix d (unlines ls)"
  shows "\<exists>j rest. j \<le> length ls \<and> d = unlines (take j ls) @ rest
     \<and> (rest = [] \<or> (j < length ls \<and> prefix rest (ls ! j)))"
  using assms
proof (induction ls arbitrary: d)
  case Nil
  then show ?case by (simp add: unlines_def)
next
  case (Cons l ls)
  have "prefix d ((l @ [LF]) @ unlines ls)" using Cons.prems by simp
  then consider "prefix d (l @ [LF])" | d' where "d = (l @ [LF]) @ d'" "prefix d' (unlines ls)"
    unfolding prefix_append by auto
  then show ?case
  proof cases
    case 1
    then consider "d = l @ [LF]" | "prefix d l" by auto
    then show ?thesis
    proof cases
      case 1
      then show ?thesis by (intro exI [of _ 1] exI [of _ "[]"]) (simp add: unlines_def)
    next
      case 2
      then show ?thesis by (intro exI [of _ 0] exI [of _ d]) (simp add: unlines_def)
    qed
  next
    case (2 d')
    then obtain j rest where "j \<le> length ls" "d' = unlines (take j ls) @ rest"
      "rest = [] \<or> (j < length ls \<and> prefix rest (ls ! j))" using Cons.IH by blast
    with 2(1) show ?thesis by (intro exI [of _ "Suc j"] exI [of _ rest]) simp
  qed
qed

lemma all_lines:
  assumes "unlines ls = unlines (take j ls) @ rest" and "LF \<notin> set rest" and "j \<le> length ls"
  shows "j = length ls"
proof (rule ccontr)
  assume "j \<noteq> length ls"
  moreover have "unlines ls = unlines (take j ls) @ unlines (drop j ls)"
    unfolding unlines_def by (metis append_take_drop_id concat_append map_append)
  ultimately show False using assms unlines_has_LF [of "drop j ls" "[]"] by simp
qed

lemma prefix_rx_line_ok:
  assumes "prefix rest (rx_line cs obj)" and "length cs = 16" and "wf_can_obj obj"
  shows "line_ok rest \<and> LF \<notin> set rest"
proof -
  have "length (rx_line cs obj) = 92" using assms(2,3) by (simp add: rx_line_def length_can_obj_bytes)
  then have "length rest \<le> 92" using prefix_length_le [OF assms(1)] by simp
  moreover have "LF \<notin> set rest"
    using rx_line_no_lf [of cs obj] set_mono_prefix [OF assms(1)] by (auto simp: no_lf_def)
  ultimately show ?thesis by (auto simp: line_ok_def receive_pattern_def sizeof_can_obj_def)
qed

lemma numbered_wf:
  assumes "length ts = length objs" and "list_all wf_can_obj objs"
  shows "map snd (numbered c ts objs) = objs
     \<and> list_all (\<lambda>(cs, obj). length cs = 16 \<and> wf_can_obj obj) (numbered c ts objs)"
  using assms
proof (induction c ts objs rule: numbered.induct)
  case (1 c t ts obj objs)
  then show ?case by simp
qed auto

lemma length_stamps [simp]: "length (stamps F clk i n te) = n"
  by (induction n arbitrary: i te) simp_all

lemma concat_agent_lines: "concat (map agent_line ps) = unlines (map (\<lambda>(cs, obj). rx_line cs obj) ps)"
  by (induction ps) (auto simp: agent_line_def unlines_def)

lemma fold_consume:
  assumes "spsc_ok B contents 2048" and "length (contents (spsc_queue s)) + length nodes \<le> 2048"
  shows "let s' = fold (consumeCanObjHandler B) nodes s in contents (spsc_queue s') = contents (spsc_queue s) @ nodes
     \<and> shr_tx_buff s' = shr_tx_buff s \<and> delivered s' = delivered s \<and> outstanding s' = outstanding s
     \<and> dropped s' = dropped s"
  using assms(2)
proof (induction nodes arbitrary: s)
  case (Cons n nodes)
  have "length (contents (spsc_queue s)) < 2048" using Cons.prems by simp
  then have "fst (sp_push B n (spsc_queue s))" "contents (snd (sp_push B n (spsc_queue s))) = contents (spsc_queue s) @ [n]"
    using spsc_pushes [OF assms(1)] by simp_all
  then show ?case
    using Cons.IH [of "consumeCanObjHandler B n s"] Cons.prems
    by (simp add: consumeCanObjHandler_def Let_def case_prod_unfold)
qed simp

text \<open>The client's side: any part of the stream it has got decodes to the first objects.\<close>

lemma client_decodes:
  assumes "net_connected cl" and "net_rx cl = []" and "len \<noteq> 0" and "rx_admissible (rx_start cl mem (unat len)) es"
    and "24 * unat len \<le> length mem" and "prefix (data_of es) (concat (map agent_line ps))"
    and wf: "list_all (\<lambda>(cs, obj). length cs = 16 \<and> wf_can_obj obj) ps"
  shows "\<exists>k cl'. k \<le> unat len \<and> k \<le> length ps
     \<and> net_VCI_Receive cl t i c (Some mem) len w es =
         Inr (of_nat k, Some (concat (map can_obj_bytes (take k (map snd ps))) @ drop (24 * k) mem), cl')
     \<and> (net_connected cl' \<and> data_of es = concat (map agent_line ps) \<longrightarrow> k = min (unat len) (length ps))"
proof -
  let ?ls = "map (\<lambda>(cs, obj). rx_line cs obj) ps"
  obtain j rest where j: "j \<le> length ps" "data_of es = unlines (take j ?ls) @ rest"
      "rest = [] \<or> (j < length ps \<and> prefix rest (?ls ! j))"
    using prefix_of_lines [of "data_of es" ?ls] assms(6) by (auto simp: concat_agent_lines)
  have r: "line_ok rest \<and> LF \<notin> set rest"
  proof (cases "rest = []")
    case True
    then show ?thesis by (simp add: line_ok_def receive_pattern_def head_match_def)
  next
    case False
    obtain cs obj where p: "ps ! j = (cs, obj)" by (cases "ps ! j")
    with j(3) False wf have "prefix rest (rx_line cs obj)" "length cs = 16" "wf_can_obj obj"
      by (auto simp: list_all_length)
    then show ?thesis by (rule prefix_rx_line_ok)
  qed
  have wfj: "list_all (\<lambda>(cs, obj). length cs = 16 \<and> wf_can_obj obj) (take j ps)"
    using wf by (auto simp: list_all_iff dest: in_set_takeD)
  have st: "net_rx cl @ data_of es = unlines (map (\<lambda>(cs, obj). rx_line cs obj) (take j ps)) @ rest"
    using assms(2) j(2) by (simp add: take_map)
  obtain k cl' where k: "k \<le> unat len" "k \<le> length (take j ps)"
    "net_VCI_Receive cl t i c (Some mem) len w es =
       Inr (of_nat k, Some (concat (map (\<lambda>(_, obj). can_obj_bytes obj) (take k (take j ps))) @ drop (24 * k) mem), cl')"
    "net_connected cl' \<longrightarrow> k = unat len \<or> k = length (take j ps)"
    using receive_decodes [OF assms(1,3,4,5) st conjunct2 [OF r] wfj conjunct1 [OF r], of t i c w] by blast
  have kj: "take k (take j ps) = take k ps" using k(2) by (simp add: min_absorb1)
  have "map (\<lambda>(_, obj). can_obj_bytes obj) (take k ps) = map can_obj_bytes (take k (map snd ps))"
    by (simp add: take_map case_prod_unfold)
  moreover have "j = length ps" if "data_of es = concat (map agent_line ps)"
  proof -
    have "unlines ?ls = unlines (take j ?ls) @ rest" using j(2) that unfolding concat_agent_lines by (rule trans [OF sym, rotated])
    from all_lines [OF this] show ?thesis using r j(1) by simp
  qed
  moreover have "length (take j ps) = j" using j(1) by simp
  ultimately show ?thesis using k j(1) unfolding kj
    by (intro exI [of _ k] exI [of _ cl'] conjI impI) (simp_all, linarith)
qed

lemma quiet_run:
  assumes "spsc_ok B contents 2048" and "ses_inv contents s" and "ses_schedule B kept evs (s, q) \<and> published evs = []"
  shows "\<exists>s' q'. ses_run B kept evs (s, q) = Inr (s', q') \<and> prefix (delivered s') (on_its_way contents s)
     \<and> (outstanding s' \<noteq> Nothing \<longrightarrow> on_its_way contents s' = on_its_way contents s)"
proof -
  have "accepted B kept evs (s, q) = []" if "subseq (accepted B kept evs (s, q)) (published evs)"
    using that assms(3) by (metis list_emb_Nil2)
  then show ?thesis using ses_run_ok [OF assms(1,2), of kept evs q] assms(3) by fastforce
qed

lemma client_of_session:
  assumes del: "prefix (delivered s) (concat (map agent_line ps))"
    and way: "outstanding s \<noteq> Nothing \<longrightarrow> on_its_way contents s = concat (map agent_line ps)"
    and wf: "list_all (\<lambda>(cs, obj). length cs = 16 \<and> wf_can_obj obj) ps" and "map snd ps = take n buff"
    and cl: "net_connected cl" "net_rx cl = []" "len \<noteq> 0" "rx_admissible (rx_start cl mem (unat len)) es"
      "24 * unat len \<le> length mem" and pre: "prefix (data_of es) (delivered s)" and "n \<le> length buff"
  shows "\<exists>k cl'. k \<le> unat len \<and> k \<le> n
     \<and> net_VCI_Receive cl t i c (Some mem) len w es =
         Inr (of_nat k, Some (concat (map can_obj_bytes (take k buff)) @ drop (24 * k) mem), cl')
     \<and> (net_connected cl' \<and> data_of es = delivered s \<and> outstanding s \<noteq> Nothing \<and> shr_tx_buff s = [] \<and> contents (spsc_queue s) = [] \<longrightarrow>
          k = min (unat len) n)"
proof -
  have "prefix (data_of es) (concat (map agent_line ps))" using pre del by (rule prefix_order.trans)
  moreover have lp: "length ps = n" using assms(4,11) by (metis length_map length_take min.absorb2)
  ultimately obtain k cl' where
    k: "k \<le> unat len" "k \<le> n"
      "net_VCI_Receive cl t i c (Some mem) len w es =
         Inr (of_nat k, Some (concat (map can_obj_bytes (take k (take n buff))) @ drop (24 * k) mem), cl')"
      "net_connected cl' \<and> data_of es = concat (map agent_line ps) \<longrightarrow> k = min (unat len) n"
    using client_decodes [OF cl _ wf, of t i c w] unfolding lp assms(4) by blast
  moreover have "take k (take n buff) = take k buff" using k(2) by (simp add: min_absorb1)
  ultimately show ?thesis using way by (intro exI [of _ k] exI [of _ cl']) (auto simp: on_its_way_def)
qed

text \<open>
  C1: The objects a round of the agent has received from the library reach every client of
  the agent unchanged and in order. The round returns; a listening session without a
  backlog queues its lines, at most 2048 of them; whatever its timer and its writes then do,
  it runs without fault; and when a client has read any part of what the session has
  written, its \<open>VCI_Receive\<close> returns the images of the first of these objects, none
  skipped, repeated or altered, and nothing behind them. A client that has read all that a
  session has written whose writes have not failed and that has nothing left to write, and
  that stays connected, gets as many objects as it asked for or all there are.\<close>

theorem agent_to_client:
  assumes q: "q_shows q (L, [])" and n: "unat frame_num \<le> length buff" and "unat frame_num \<le> 2048"
    and wf: "list_all wf_can_obj (take (unat frame_num) buff)" and b: "length (node_bytes (pub_buff p)) = 256"
    and d: "distinct (map snd (fst (L kPpqCanObjEvtId)))" and "sid \<in> snd ` set (fst (L kPpqCanObjEvtId))"
    and B: "spsc_ok B contents 2048" and s: "ss sid = Some s" "contents (spsc_queue s) = []"
    and idle: "shr_tx_buff s = []" "delivered s = []" "outstanding s = Waiting"
  shows "\<exists>p' q' ss' s1. rx_round F clk B frame_num buff (p, q, ss) = Inr (Some (p', q', ss')) \<and> ss' sid = Some s1
     \<and> (\<forall>evs. ses_schedule B kept evs (s1, q') \<and> published evs = [] \<longrightarrow>
          (\<exists>s2 q2. ses_run B kept evs (s1, q') = Inr (s2, q2)
           \<and> (\<forall>cl mem len es. net_connected cl \<and> net_rx cl = [] \<and> len \<noteq> 0
                \<and> rx_admissible (rx_start cl mem (unat len)) es \<and> 24 * unat len \<le> length mem
                \<and> prefix (data_of es) (delivered s2) \<longrightarrow>
                (\<exists>k cl'. k \<le> unat len \<and> k \<le> unat frame_num
                 \<and> net_VCI_Receive cl t i c (Some mem) len w es =
                     Inr (of_nat k, Some (concat (map can_obj_bytes (take k buff)) @ drop (24 * k) mem), cl')
                 \<and> (net_connected cl' \<and> data_of es = delivered s2 \<and> outstanding s2 \<noteq> Nothing \<and> shr_tx_buff s2 = [] \<and> contents (spsc_queue s2) = [] \<longrightarrow>
                      k = min (unat len) (unat frame_num))))))"
proof -
  let ?objs = "take (unat frame_num) buff"
  let ?ps = "numbered (pub_count p) (stamps F clk 0 (unat frame_num) (pub_tick p)) ?objs"
  obtain p' q' ss' nodes where r: "rx_round F clk B frame_num buff (p, q, ss) = Inr (Some (p', q', ss'))"
    "list_all wf_node nodes" "map node_line nodes = map agent_line ?ps"
    and at: "\<forall>sid s. ss sid = Some s \<longrightarrow>
       ss' sid = Some (if sid \<in> snd ` set (fst (L kPpqCanObjEvtId)) then fold (consumeCanObjHandler B) nodes s else s)"
    using agent_round [OF q n wf b d, of F clk B ss] by blast
  define s1 where "s1 = fold (consumeCanObjHandler B) nodes s"
  have at1: "ss' sid = Some s1" using at s(1) assms(7) by (simp add: s1_def)
  have len: "length ?objs = unat frame_num" using n by simp
  then have ps: "map snd ?ps = ?objs" "list_all (\<lambda>(cs, obj). length cs = 16 \<and> wf_can_obj obj) ?ps"
    using numbered_wf [of "stamps F clk 0 (unat frame_num) (pub_tick p)" ?objs] wf by simp_all
  then have "length nodes \<le> 2048" using len r(3) assms(3) by (metis length_map)
  then have "contents (spsc_queue s1) = nodes" "shr_tx_buff s1 = []" "delivered s1 = []" "outstanding s1 = Waiting"
    using fold_consume [OF B, of s nodes] s(2) idle by (simp_all add: s1_def Let_def)
  then have inv: "ses_inv contents s1" "on_its_way contents s1 = concat (map agent_line ?ps)"
    using r(2,3) by (simp_all add: ses_inv_def on_its_way_def)
  show ?thesis
  proof (rule exI [of _ p'], rule exI [of _ q'], rule exI [of _ ss'], rule exI [of _ s1], intro conjI allI impI)
    fix evs assume ev: "ses_schedule B kept evs (s1, q') \<and> published evs = []"
    then obtain s2 q2 where run: "ses_run B kept evs (s1, q') = Inr (s2, q2)"
      and way: "prefix (delivered s2) (concat (map agent_line ?ps))"
        "outstanding s2 \<noteq> Nothing \<longrightarrow> on_its_way contents s2 = concat (map agent_line ?ps)"
      using quiet_run [OF B inv(1), of kept evs q'] inv(2) by metis
    show "\<exists>s2 q2. ses_run B kept evs (s1, q') = Inr (s2, q2) \<and> (\<forall>cl mem len es. net_connected cl \<and> net_rx cl = [] \<and> len \<noteq> 0
                \<and> rx_admissible (rx_start cl mem (unat len)) es \<and> 24 * unat len \<le> length mem
                \<and> prefix (data_of es) (delivered s2) \<longrightarrow>
                (\<exists>k cl'. k \<le> unat len \<and> k \<le> unat frame_num
                 \<and> net_VCI_Receive cl t i c (Some mem) len w es =
                     Inr (of_nat k, Some (concat (map can_obj_bytes (take k buff)) @ drop (24 * k) mem), cl')
                 \<and> (net_connected cl' \<and> data_of es = delivered s2 \<and> outstanding s2 \<noteq> Nothing \<and> shr_tx_buff s2 = [] \<and> contents (spsc_queue s2) = [] \<longrightarrow>
                      k = min (unat len) (unat frame_num))))"
      by (rule exI [of _ s2], rule exI [of _ q2], intro conjI allI impI, rule run)
        (elim conjE, rule client_of_session [OF way(1,2) ps(2) ps(1) _ _ _ _ _ _ n]; assumption)
  qed (rule r(1) at1)+
qed

text \<open>One object passed on by a round to a session and read by a client.\<close>

definition one_session :: "nat \<rightharpoonup> CanobjQueueNodeT list session" where
  "one_session = [7 \<mapsto> sample_session]"

definition one_line :: string where
  "one_line = agent_line (le_bytes 8 (5 :: uint64) @ le_bytes 8 (0 :: uint64), zero_can_obj)"

definition one_read :: "net_event list" where
  "one_read = [ReadDone 0 one_line, TimerDone operation_canceled]"

definition round_of_one :: "(real publisher \<times> lines_queue \<times> (nat \<rightharpoonup> CanobjQueueNodeT list session)) option res" where
  "round_of_one = rx_round real_fp sample_clocks list_spsc 1 [zero_can_obj, zero_can_obj]
     (sample_publisher, two_listeners, one_session)"

definition written_by_one :: bool where
  "written_by_one = (case round_of_one of
       Inr (Some (p', q', ss')) \<Rightarrow> (case ss' 7 of
           Some s1 \<Rightarrow> ses_schedule list_spsc (\<lambda>_ _. False) [Timer, Wrote] (s1, q')
             \<and> (case ses_run list_spsc (\<lambda>_ _. False) [Timer, Wrote] (s1, q') of
                  Inr (s2, _) \<Rightarrow> delivered s2 = one_line \<and> outstanding s2 \<noteq> Nothing \<and> shr_tx_buff s2 = [] \<and> spsc_queue s2 = []
                | _ \<Rightarrow> False)
         | _ \<Rightarrow> False)
     | _ \<Rightarrow> False)"

lemma written: written_by_one
  by code_simp

lemma one_read_ok: "rx_admissible (rx_start sample_net (replicate 24 7) 1) one_read"
  by code_simp

theorem agent_to_client_witness:
  "\<exists>p' q' ss' s1 s2 q2 cl'. round_of_one = Inr (Some (p', q', ss')) \<and> ss' 7 = Some s1
     \<and> ses_run list_spsc (\<lambda>_ _. False) [Timer, Wrote] (s1, q') = Inr (s2, q2) \<and> delivered s2 = data_of one_read
     \<and> (\<exists>k \<le> 1. net_VCI_Receive sample_net 4 0 0 (Some (replicate 24 7)) 1 100 one_read =
          Inr (of_nat k, Some (concat (map can_obj_bytes (take k [zero_can_obj])) @ drop (24 * k) (replicate 24 7)), cl')
        \<and> (net_connected cl' \<longrightarrow> k = 1))"
proof -
  let ?L = "(\<lambda>_. ([], 0))(1 := ([(0 :: nat, 7 :: nat), (1, 8)], 2 :: nat))" and ?kept = "\<lambda>_ _. False"
  have n: "unat (1 :: ULONG) \<le> length [zero_can_obj, zero_can_obj]" "unat (1 :: ULONG) \<le> 2048" by simp_all
  have "list_all wf_can_obj (take (unat (1 :: ULONG)) [zero_can_obj, zero_can_obj])"
    "length (node_bytes (pub_buff sample_publisher)) = 256" "distinct (map snd (fst (?L kPpqCanObjEvtId)))"
    "7 \<in> snd ` set (fst (?L kPpqCanObjEvtId))" "one_session 7 = Some sample_session"
    "spsc_queue sample_session = []" "shr_tx_buff sample_session = []" "delivered sample_session = []" "outstanding sample_session = Waiting"
    by (simp_all add: zero_can_obj_def wf_can_obj_def sample_publisher_def kPpqCanObjEvtId_def one_session_def
        sample_session_def Session_def list_spsc_def)
  note ac = agent_to_client [where L = ?L and contents = "\<lambda>q. q" and ss = one_session and sid = 7 and kept = ?kept
      and F = real_fp and clk = sample_clocks and t = 4 and i = 0 and c = 0 and w = 100 and s = sample_session,
      OF two_listeners_shows n this(1-4) list_spsc_ok this(5-9), folded round_of_one_def]
  define Q where "Q s2 \<longleftrightarrow> (\<forall>cl mem len es. net_connected cl \<and> net_rx cl = [] \<and> len \<noteq> 0
                \<and> rx_admissible (rx_start cl mem (unat len)) es \<and> 24 * unat len \<le> length mem
                \<and> prefix (data_of es) (delivered s2) \<longrightarrow>
                (\<exists>k cl'. k \<le> unat len \<and> k \<le> unat (1 :: ULONG)
                 \<and> net_VCI_Receive cl 4 0 0 (Some mem) len 100 es =
                     Inr (of_nat k, Some (concat (map can_obj_bytes (take k [zero_can_obj, zero_can_obj])) @ drop (24 * k) mem), cl')
                 \<and> (net_connected cl' \<and> data_of es = delivered s2 \<and> outstanding s2 \<noteq> Nothing \<and> shr_tx_buff s2 = [] \<and> spsc_queue s2 = [] \<longrightarrow>
                      k = min (unat len) (unat (1 :: ULONG)))))" for s2 :: "CanobjQueueNodeT list session"
  from ac obtain p' q' ss' s1 where r: "round_of_one = Inr (Some (p', q', ss'))" "ss' 7 = Some s1"
    and run: "\<forall>evs. ses_schedule list_spsc ?kept evs (s1, q') \<and> published evs = [] \<longrightarrow>
      (\<exists>s2 q2. ses_run list_spsc ?kept evs (s1, q') = Inr (s2, q2)
        \<and> Q s2)"
    unfolding Q_def unat_1 by blast
  obtain s2 q2 where s2: "ses_run list_spsc ?kept [Timer, Wrote] (s1, q') = Inr (s2, q2)"
    "delivered s2 = one_line" "outstanding s2 \<noteq> Nothing" "shr_tx_buff s2 = []" "spsc_queue s2 = []" "ses_schedule list_spsc ?kept [Timer, Wrote] (s1, q')"
    using written unfolding written_by_one_def r(1) sum.case option.case prod.case r(2)
    by (cases "ses_run list_spsc ?kept [Timer, Wrote] (s1, q')") (auto simp del: ses_run.simps ses_schedule.simps)
  have "published [Timer, Wrote] = []" by simp
  then have qs: "Q s2" using run s2(1,6) by (metis Pair_inject sum.inject(2))
  have d: "data_of one_read = one_line" by (simp add: one_read_def)
  have "net_connected sample_net \<and> net_rx sample_net = [] \<and> (1 :: ULONG) \<noteq> 0
     \<and> rx_admissible (rx_start sample_net (replicate 24 7) (unat (1 :: ULONG))) one_read
     \<and> 24 * unat (1 :: ULONG) \<le> length (replicate 24 (7 :: BYTE)) \<and> prefix (data_of one_read) (delivered s2)"
    using one_read_ok d s2(2) by (simp add: sample_net_def)
  then obtain k cl' where k: "k \<le> unat (1 :: ULONG)" "net_VCI_Receive sample_net 4 0 0 (Some (replicate 24 7)) 1 100 one_read =
       Inr (of_nat k, Some (concat (map can_obj_bytes (take k [zero_can_obj, zero_can_obj])) @ drop (24 * k) (replicate 24 7)), cl')"
    "net_connected cl' \<longrightarrow> k = min (unat (1 :: ULONG)) (unat (1 :: ULONG))"
    using qs [unfolded Q_def, rule_format, of sample_net 1 "replicate 24 7" one_read] s2(2-5) d by auto
  then have "take k [zero_can_obj, zero_can_obj] = take k [zero_can_obj]" by (cases k) auto
  note last = this
  show ?thesis
    by (rule exI [of _ p'], rule exI [of _ q'], rule exI [of _ ss'], rule exI [of _ s1],
        rule exI [of _ s2], rule exI [of _ q2], rule exI [of _ cl'])
      (use last r s2(1,2) d k in \<open>auto simp del: ses_run.simps\<close>)
qed

end
